(* ===== verification/Prelude.thy ===== *)
theory Prelude
  imports Complex_Main "HOL-Library.Word" "HOL-Library.Multiset"
begin

text \<open>
  Shared vocabulary of the development: the integer aliases and constants of
  \<^verbatim>\<open>include/keva/common/types.hpp\<close>, the two's complement reading of 64-bit signed
  arithmetic, \<^verbatim>\<open>std::bit_ceil\<close>, the power-of-two mask, and the list, map and multiset
  lemmas that the component theories use.

  A byte is a HOL \<open>char\<close> (exactly eight bits), so \<^verbatim>\<open>std::string\<close> and
  \<^verbatim>\<open>std::string_view\<close> are \<open>string\<close>. \<^verbatim>\<open>u8\<close> to \<^verbatim>\<open>u64\<close> are words of that width.
  \<^verbatim>\<open>i64\<close> is \<open>int\<close>, and every addition, subtraction and multiplication of the code whose
  result may leave the 64-bit range is written with \<open>wrap_i64\<close> (two's complement). Lengths
  (\<^verbatim>\<open>usize\<close>) are \<open>nat\<close>.
\<close>

unbundle bit_operations_syntax

section \<open>Integer aliases\<close>

type_synonym u8 = "8 word"
type_synonym u16 = "16 word"
type_synonym u32 = "32 word"
type_synonym u64 = "64 word"
type_synonym i64 = int
type_synonym usize = nat

named_theorems bit_ceil_facts \<open>power-of-two rounding\<close>
named_theorems mset_facts \<open>multisets of bucket contents\<close>

section \<open>Constants of types.hpp\<close>

definition READ_BUFFER_SIZE :: usize where
  "READ_BUFFER_SIZE = 16 * 1024"

definition ACTIVE_EXPIRE_SAMPLE_SIZE :: usize where
  "ACTIVE_EXPIRE_SAMPLE_SIZE = 20"

definition LRU_CLOCK_MAX :: u32 where
  "LRU_CLOCK_MAX = push_bit 24 1"

definition EMBSTR_MAX_LEN :: usize where
  "EMBSTR_MAX_LEN = 44"

text \<open>
  \<open>DICT_EXPAND_RATIO\<close> is \<open>1.0f\<close>; \<open>DICT_SHRINK_RATIO\<close> is \<open>0.1f\<close>, whose value is the
  binary32 number nearest to one tenth.
\<close>

definition DICT_EXPAND_RATIO :: rat where
  "DICT_EXPAND_RATIO = 1"

definition DICT_SHRINK_RATIO :: rat where
  "DICT_SHRINK_RATIO = 13421773 / 2 ^ 27"

section \<open>Signed 64-bit integers\<close>

definition LLONG_MAX :: i64 where
  "LLONG_MAX = 9223372036854775807"

definition LLONG_MIN :: i64 where
  "LLONG_MIN = - 9223372036854775808"

definition in_i64 :: "int \<Rightarrow> bool" where
  "in_i64 x \<longleftrightarrow> LLONG_MIN \<le> x \<and> x \<le> LLONG_MAX"

definition wrap_i64 :: "int \<Rightarrow> i64" where
  "wrap_i64 x = signed_take_bit 63 x"

lemma in_i64_alt: "in_i64 x \<longleftrightarrow> - (2 ^ 63) \<le> x \<and> x < 2 ^ 63"
  by (auto simp: in_i64_def LLONG_MAX_def LLONG_MIN_def)

lemma wrap_i64_id [simp]: "in_i64 x \<Longrightarrow> wrap_i64 x = x"
  unfolding wrap_i64_def by (rule signed_take_bit_int_eq_self) (auto simp: in_i64_alt)

lemma in_i64_wrap [simp]: "in_i64 (wrap_i64 x)"
  unfolding wrap_i64_def in_i64_alt
  using signed_take_bit_int_greater_eq_minus_exp [of 63 x] signed_take_bit_int_less_exp [of 63 x]
  by simp

lemma in_i64_0 [simp]: "in_i64 0" and in_i64_1 [simp]: "in_i64 1" and in_i64_m1 [simp]: "in_i64 (- 1)"
  by (simp_all add: in_i64_def LLONG_MAX_def LLONG_MIN_def)

section \<open>std::bit\_ceil\<close>

function bit_ceil_from :: "nat \<Rightarrow> nat \<Rightarrow> nat" where
  "bit_ceil_from p n = (if 0 < p \<and> p < n then bit_ceil_from (2 * p) n else p)"
  by pat_completeness auto
termination
  by (relation "measure (\<lambda>(p, n). n - p)") auto

declare bit_ceil_from.simps [simp del]

definition bit_ceil :: "usize \<Rightarrow> usize" where
  "bit_ceil n = bit_ceil_from 1 n"

definition is_pow2 :: "nat \<Rightarrow> bool" where
  "is_pow2 n \<longleftrightarrow> bit_ceil n = n"

lemma bit_ceil_from_pow:
  "\<exists>k. bit_ceil_from (2 ^ j) n = 2 ^ k \<and> j \<le> k \<and> n \<le> 2 ^ k \<and> (j < k \<longrightarrow> 2 ^ k < 2 * n)"
proof (induction "n - 2 ^ j" arbitrary: j rule: less_induct)
  case less
  show ?case
  proof (cases "2 ^ j < n")
    case True
    have "(2::nat) ^ j < 2 ^ Suc j" by simp
    then have "n - 2 ^ Suc j < n - 2 ^ j" using True by (intro diff_less_mono2)
    from less [OF this] obtain k where
      k: "bit_ceil_from (2 ^ Suc j) n = 2 ^ k" "Suc j \<le> k" "n \<le> 2 ^ k" "Suc j < k \<longrightarrow> 2 ^ k < 2 * n"
      by blast
    have "bit_ceil_from (2 ^ j) n = 2 ^ k"
      using True k(1) by (subst bit_ceil_from.simps) simp
    moreover have "2 ^ k < 2 * n"
    proof (cases "Suc j < k")
      case True then show ?thesis using k(4) by simp
    next
      case False then have "k = Suc j" using k(2) by simp
      then show ?thesis using True by simp
    qed
    ultimately show ?thesis using k(2,3) by (intro exI [of _ k]) simp
  next
    case False
    then show ?thesis
      by (intro exI [of _ j]) (simp add: bit_ceil_from.simps [of "2 ^ j" n])
  qed
qed

lemma bit_ceil_pow: "\<exists>k. bit_ceil n = 2 ^ k \<and> n \<le> 2 ^ k \<and> (0 < k \<longrightarrow> 2 ^ k < 2 * n)"
  using bit_ceil_from_pow [of 0 n] unfolding bit_ceil_def by auto

lemma bit_ceil_ge [bit_ceil_facts]: "n \<le> bit_ceil n"
  using bit_ceil_pow [of n] by auto

lemma bit_ceil_pos [bit_ceil_facts, simp]: "0 < bit_ceil n"
  using bit_ceil_pow [of n] by auto

lemma bit_ceil_less [bit_ceil_facts]: "0 < n \<Longrightarrow> bit_ceil n < 2 * n"
  using bit_ceil_pow [of n] by (cases "bit_ceil n = 1") auto

lemma bit_ceil_power [simp]: "bit_ceil (2 ^ k) = 2 ^ k"
proof -
  obtain j where j: "bit_ceil (2 ^ k) = 2 ^ j" "(2::nat) ^ k \<le> 2 ^ j" "0 < j \<longrightarrow> (2::nat) ^ j < 2 * 2 ^ k"
    using bit_ceil_pow [of "2 ^ k"] by auto
  have "k \<le> j" using j(2) by simp
  moreover have "j \<le> k"
  proof (rule ccontr)
    assume "\<not> j \<le> k"
    then have "Suc k \<le> j" and "0 < j" by auto
    then have "(2::nat) ^ Suc k \<le> 2 ^ j" by (intro power_increasing) auto
    with j(3) \<open>0 < j\<close> show False by simp
  qed
  ultimately show ?thesis using j(1) by simp
qed

lemma is_pow2_iff: "is_pow2 n \<longleftrightarrow> (\<exists>k. n = 2 ^ k)"
proof
  assume "is_pow2 n"
  then show "\<exists>k. n = 2 ^ k"
    using bit_ceil_pow [of n] by (metis is_pow2_def)
next
  assume "\<exists>k. n = 2 ^ k"
  then obtain k where "n = 2 ^ k" ..
  then show "is_pow2 n" by (simp add: is_pow2_def del: power_eq_if)
qed

lemma is_pow2_bit_ceil [bit_ceil_facts, simp]: "is_pow2 (bit_ceil n)"
  using bit_ceil_pow [of n] by (metis is_pow2_iff)

lemma is_pow2_pos: "is_pow2 n \<Longrightarrow> 0 < n"
  by (auto simp: is_pow2_iff)

lemma is_pow2_4 [simp]: "is_pow2 4"
  by (auto simp: is_pow2_iff intro: exI [of _ 2])

section \<open>The power-of-two mask\<close>

text \<open>
  \<open>hash AND (size - 1)\<close> is \<open>hash mod size\<close> for every power of two, also one that no longer
  fits the word (the mask is then all ones).
\<close>

lemma unat_and_mask:
  fixes h :: u64
  assumes "is_pow2 n"
  shows "unat (h AND (word_of_nat n - 1)) = unat h mod n"
proof -
  obtain k where n: "n = 2 ^ k" using assms by (auto simp: is_pow2_iff)
  show ?thesis
  proof (cases "k < 64")
    case True
    have "(word_of_nat n :: u64) - 1 = mask k"
      by (simp add: n mask_eq_exp_minus_1)
    then have "h AND (word_of_nat n - 1) = take_bit k h"
      by (simp only: take_bit_eq_mask)
    moreover have "unat (take_bit k h) = take_bit k (unat h)"
      by (rule unsigned_take_bit_eq)
    ultimately show ?thesis by (simp only: n take_bit_nat_def)
  next
    case False
    then have "(2::nat) ^ 64 \<le> 2 ^ k" by (intro power_increasing) auto
    moreover have "unat h < 2 ^ 64" using unsigned_less [of h] by simp
    moreover have zero: "(word_of_nat n :: u64) = 0"
      using False by (simp add: n)
    have "h AND (word_of_nat n - 1) = h"
      by (simp only: zero) simp
    ultimately show ?thesis by (simp add: n)
  qed
qed

section \<open>Lists, maps and multisets\<close>

lemma mset_concat_update [mset_facts]:
  "i < length bs \<Longrightarrow> mset (concat (bs[i := c])) + mset (bs ! i) = mset (concat bs) + mset c"
proof (induction bs arbitrary: i)
  case Nil
  then show ?case by simp
next
  case (Cons b bs)
  then show ?case by (cases i) (auto simp: ac_simps)
qed

lemma length_concat_update:
  "i < length bs \<Longrightarrow> length (concat (bs[i := c])) + length (bs ! i) = length (concat bs) + length c"
  using mset_concat_update [of i bs c] by (metis size_mset size_union)

lemma in_concat_nth: "x \<in> set (concat bs) \<longleftrightarrow> (\<exists>i<length bs. x \<in> set (bs ! i))"
proof
  assume "x \<in> set (concat bs)"
  then obtain b where "b \<in> set bs" "x \<in> set b" by auto
  then show "\<exists>i<length bs. x \<in> set (bs ! i)" by (auto simp: in_set_conv_nth [of b])
next
  assume "\<exists>i<length bs. x \<in> set (bs ! i)"
  then obtain i where "i < length bs" "x \<in> set (bs ! i)" by blast
  then have "bs ! i \<in> set bs" by simp
  with \<open>x \<in> set (bs ! i)\<close> show "x \<in> set (concat bs)" by (auto simp del: nth_mem)
qed

lemma map_of_mset_eq:
  assumes "distinct (map fst xs)" "mset xs = mset ys"
  shows "map_of xs = map_of ys"
proof -
  have "mset (map fst xs) = mset (map fst ys)" using assms(2) by simp
  then have "distinct (map fst ys)" using assms(1) mset_eq_imp_distinct_iff by blast
  with assms show ?thesis
    by (intro map_of_inject_set [THEN iffD2]) (auto dest: mset_eq_setD)
qed

lemma length_takeWhile_append:
  "takeWhile P xs = xs \<Longrightarrow> (ys = [] \<or> \<not> P (hd ys)) \<Longrightarrow> takeWhile P (xs @ ys) = xs"
  by (cases ys) (auto simp: takeWhile_append)

lemma mset_take_subset: "mset (take n xs) \<subseteq># mset xs"
  by (metis append_take_drop_id mset_append mset_subset_eq_add_left)

section \<open>Exclusive or\<close>

lemma xor_cancel [simp]: "(x XOR y) XOR y = (x :: u64)"
  by (simp add: xor.assoc)

lemma xor_right_inj [simp]: "x XOR m = y XOR m \<longleftrightarrow> x = (y :: u64)"
  by (metis xor_cancel)

end
