(* ===== verification/CharConv.thy ===== *)
theory CharConv
  imports Prelude
begin

text \<open>
  The parts of the C++ standard library that the source uses on characters:
  \<^verbatim>\<open>std::from_chars\<close> and \<^verbatim>\<open>std::to_chars\<close> for \<^verbatim>\<open>int64_t\<close> in base ten, and
  \<^verbatim>\<open>std::toupper\<close> in the C locale. Results of \<open>from_chars\<close> are the error code, the value
  (meaningful only without error: the out parameter is otherwise left alone) and the number of
  characters the matched pattern takes.
\<close>

datatype errc = ErrcOk | ErrcInvalidArgument | ErrcResultOutOfRange

abbreviation CR :: char where "CR \<equiv> CHR 0x0D"
abbreviation LF :: char where "LF \<equiv> CHR 0x0A"
abbreviation CRLF :: string where "CRLF \<equiv> [CR, LF]"

definition is_digit :: "char \<Rightarrow> bool" where
  "is_digit c \<longleftrightarrow> (of_char c :: nat) \<in> {48..57}"

definition digit_val :: "char \<Rightarrow> nat" where
  "digit_val c = of_char c - 48"

definition digit_char :: "nat \<Rightarrow> char" where
  "digit_char n = char_of (48 + n)"

definition digits_val :: "string \<Rightarrow> nat" where
  "digits_val ds = foldl (\<lambda>a c. 10 * a + digit_val c) 0 ds"

definition from_chars :: "string \<Rightarrow> errc \<times> i64 \<times> usize" where
  "from_chars s =
     (let neg = (case s of [] \<Rightarrow> False | c # _ \<Rightarrow> c = CHR ''-'');
          ds = takeWhile is_digit (if neg then tl s else s);
          v = (if neg then - int (digits_val ds) else int (digits_val ds));
          n = length ds + (if neg then 1 else 0)
      in if ds = [] then (ErrcInvalidArgument, 0, 0)
         else if in_i64 v then (ErrcOk, v, n)
         else (ErrcResultOutOfRange, 0, n))"

fun nat_to_chars :: "nat \<Rightarrow> string" where
  "nat_to_chars n =
     (if n < 10 then [digit_char n] else nat_to_chars (n div 10) @ [digit_char (n mod 10)])"

declare nat_to_chars.simps [simp del]

definition to_chars :: "i64 \<Rightarrow> string" where
  "to_chars x = (if x < 0 then CHR ''-'' # nat_to_chars (nat (- x)) else nat_to_chars (nat x))"

definition toupper_char :: "char \<Rightarrow> char" where
  "toupper_char c =
     (if (of_char c :: nat) \<in> {97..122} then char_of ((of_char c :: nat) - 32) else c)"

definition to_upper :: "string \<Rightarrow> string" where
  "to_upper s = map toupper_char s"

section \<open>Digits\<close>

lemma of_char_digit_char: "n < 10 \<Longrightarrow> (of_char (digit_char n) :: nat) = 48 + n"
  by (simp add: digit_char_def)

lemma is_digit_digit_char [simp]: "n < 10 \<Longrightarrow> is_digit (digit_char n)"
  by (simp add: is_digit_def of_char_digit_char)

lemma digit_val_digit_char [simp]: "n < 10 \<Longrightarrow> digit_val (digit_char n) = n"
  by (simp add: digit_val_def of_char_digit_char)

lemma digit_val_less: "is_digit c \<Longrightarrow> digit_val c < 10"
  by (auto simp: is_digit_def digit_val_def)

lemma digit_char_digit_val: "is_digit c \<Longrightarrow> digit_char (digit_val c) = c"
  by (auto simp: is_digit_def digit_val_def digit_char_def)

lemma not_is_digit_minus [simp]: "\<not> is_digit (CHR ''-'')"
  and not_is_digit_CR [simp]: "\<not> is_digit CR"
  by (simp_all add: is_digit_def)

lemma digits_val_snoc [simp]: "digits_val (ds @ [c]) = 10 * digits_val ds + digit_val c"
  by (simp add: digits_val_def)

lemma digits_val_Nil [simp]: "digits_val [] = 0"
  by (simp add: digits_val_def)

lemma digits_val_single [simp]: "digits_val [c] = digit_val c"
  by (simp add: digits_val_def)

lemma nat_to_chars_ne [simp]: "nat_to_chars n \<noteq> []"
  by (subst nat_to_chars.simps) simp

lemma nat_to_chars_digits: "c \<in> set (nat_to_chars n) \<Longrightarrow> is_digit c"
proof (induction n rule: nat_to_chars.induct)
  case (1 n)
  then show ?case
    by (cases "n < 10") (auto simp: nat_to_chars.simps [of n])
qed

lemma digits_val_nat_to_chars [simp]: "digits_val (nat_to_chars n) = n"
proof (induction n rule: nat_to_chars.induct)
  case (1 n)
  then show ?case
    by (cases "n < 10") (simp_all add: nat_to_chars.simps [of n])
qed

lemma takeWhile_nat_to_chars:
  "rest = [] \<or> \<not> is_digit (hd rest) \<Longrightarrow>
   takeWhile is_digit (nat_to_chars n @ rest) = nat_to_chars n"
  by (rule length_takeWhile_append) (auto dest: nat_to_chars_digits)

lemma hd_nat_to_chars: "nat_to_chars n = c # cs \<Longrightarrow> is_digit c"
  using nat_to_chars_digits [of c n] by simp

section \<open>from\_chars reads what to\_chars writes\<close>

lemma from_chars_to_chars_append:
  assumes x: "in_i64 x" and rest: "rest = [] \<or> \<not> is_digit (hd rest)"
  shows "from_chars (to_chars x @ rest) = (ErrcOk, x, length (to_chars x))"
proof (cases "x < 0")
  case True
  then show ?thesis
    using x rest by (simp add: from_chars_def to_chars_def takeWhile_nat_to_chars Let_def)
next
  case False
  obtain c cs where c: "nat_to_chars (nat x) = c # cs"
    by (cases "nat_to_chars (nat x)") auto
  then have "c \<noteq> CHR ''-''" using hd_nat_to_chars [OF c] by auto
  moreover have "takeWhile is_digit (c # cs @ rest) = c # cs"
    using takeWhile_nat_to_chars [OF rest, of "nat x"] c by simp
  moreover have "digits_val (c # cs) = nat x"
    using digits_val_nat_to_chars [of "nat x"] c by simp
  ultimately show ?thesis
    using False x by (simp add: from_chars_def to_chars_def c Let_def del: takeWhile.simps)
qed

lemma from_chars_to_chars [simp]:
  "in_i64 x \<Longrightarrow> from_chars (to_chars x) = (ErrcOk, x, length (to_chars x))"
  using from_chars_to_chars_append [of x "[]"] by simp

lemma to_chars_ne [simp]: "to_chars x \<noteq> []"
  by (simp add: to_chars_def)

lemma from_chars_in_i64: "from_chars s = (ErrcOk, v, n) \<Longrightarrow> in_i64 v"
  by (auto simp: from_chars_def Let_def split: if_splits)

lemma from_chars_end_le: "from_chars s = (e, v, n) \<Longrightarrow> n \<le> length s"
  using length_takeWhile_le [of is_digit s] length_takeWhile_le [of is_digit "tl s"]
  by (auto simp: from_chars_def Let_def split: if_splits list.splits)

lemma to_chars_no_CR: "CR \<notin> set (to_chars x)"
  using nat_to_chars_digits [of CR] by (auto simp: to_chars_def)

lemma length_nat_to_chars: "n < 10 ^ d \<Longrightarrow> 0 < d \<Longrightarrow> length (nat_to_chars n) \<le> d"
proof (induction d arbitrary: n)
  case 0
  then show ?case by simp
next
  case (Suc d)
  show ?case
  proof (cases "n < 10")
    case True
    then show ?thesis by (simp add: nat_to_chars.simps [of n])
  next
    case False
    then have "0 < d" using Suc.prems by (cases d) auto
    moreover have "n div 10 < 10 ^ d" using Suc.prems by (simp add: less_mult_imp_div_less mult.commute)
    ultimately have "length (nat_to_chars (n div 10)) \<le> d" by (intro Suc.IH)
    then show ?thesis using False by (simp add: nat_to_chars.simps [of n])
  qed
qed

lemma length_to_chars: "in_i64 x \<Longrightarrow> length (to_chars x) \<le> 20"
proof -
  assume x: "in_i64 x"
  then have "nat x < 10 ^ 19" and "nat (- x) < 10 ^ 19"
    by (auto simp: in_i64_def LLONG_MAX_def LLONG_MIN_def)
  then have "length (nat_to_chars (nat x)) \<le> 19" and "length (nat_to_chars (nat (- x))) \<le> 19"
    by (auto intro!: length_nat_to_chars)
  then show ?thesis by (simp add: to_chars_def)
qed

end
