(* ===== verification/Buffer.thy ===== *)
theory Buffer
  imports CharConv
begin

text \<open>
  \<^verbatim>\<open>keva::core::Buffer\<close> (\<^verbatim>\<open>src/core/buffer.cpp\<close>): the binary-safe dynamic byte array.

  The heap block is a list of cells of length capacity plus one; a cell is \<open>None\<close> while its
  byte is indeterminate, as after \<^verbatim>\<open>new char[n]\<close>. The null pointer is \<open>None\<close>. The view of a
  buffer is what \<^verbatim>\<open>view()\<close> returns. The lemmas show that every operation keeps the
  representation invariant \<open>buf_wf\<close> and acts on the view as its comment promises.
\<close>

record buffer =
  buf_data :: "char option list option"
  buf_size :: usize
  buf_cap :: usize

abbreviation NUL :: char where "NUL \<equiv> CHR 0x00"

definition buf_empty :: buffer where
  "buf_empty = \<lparr>buf_data = None, buf_size = 0, buf_cap = 0\<rparr>"

definition buf_view :: "buffer \<Rightarrow> string" where
  "buf_view b = (case buf_data b of None \<Rightarrow> [] | Some cells \<Rightarrow> map the (take (buf_size b) cells))"

text \<open>\<^verbatim>\<open>memcpy\<close> of the bytes \<open>s\<close> to offset \<open>off\<close> of a block.\<close>

definition copy_in :: "nat \<Rightarrow> string \<Rightarrow> char option list \<Rightarrow> char option list" where
  "copy_in off s cells = take off cells @ map Some s @ drop (off + length s) cells"

definition buf_grow :: "buffer \<Rightarrow> usize \<Rightarrow> buffer" where
  "buf_grow b required =
     (if required \<le> buf_cap b then b
      else
        let new_cap = bit_ceil (if required < 16 then 16 else required);
            old = (case buf_data b of
                     None \<Rightarrow> []
                   | Some cells \<Rightarrow> if 0 < buf_size b then take (buf_size b) cells else []);
            new_data = old @ replicate (new_cap + 1 - length old) None
        in b\<lparr>buf_data := Some (new_data[buf_size b := Some NUL]), buf_cap := new_cap\<rparr>)"

text \<open>
  The statements \<^verbatim>\<open>memcpy(data_ + off, p, n); size_ = off + n; data_[size_] = 0\<close> that end the
  constructors, the assignment and both \<^verbatim>\<open>append\<close>s.
\<close>

definition buf_put :: "buffer \<Rightarrow> nat \<Rightarrow> string \<Rightarrow> buffer" where
  "buf_put b off s =
     b\<lparr>buf_data := map_option (\<lambda>cells. (copy_in off s cells)[off + length s := Some NUL]) (buf_data b),
       buf_size := off + length s\<rparr>"

definition buf_of_sv :: "string \<Rightarrow> buffer" where
  "buf_of_sv sv = (if sv \<noteq> [] then buf_put (buf_grow buf_empty (length sv)) 0 sv else buf_empty)"

definition buf_copy :: "buffer \<Rightarrow> buffer" where
  "buf_copy other =
     (if 0 < buf_size other then buf_put (buf_grow buf_empty (buf_size other)) 0 (buf_view other)
      else buf_empty)"

text \<open>The constructor from raw memory.\<close>

definition buf_of_raw :: "string \<Rightarrow> usize \<Rightarrow> buffer" where
  "buf_of_raw raw_data len =
     (if 0 < len then buf_put (buf_grow buf_empty len) 0 (take len raw_data) else buf_empty)"

definition buf_clear :: "buffer \<Rightarrow> buffer" where
  "buf_clear b = b\<lparr>buf_size := 0, buf_data := map_option (\<lambda>cells. cells[0 := Some NUL]) (buf_data b)\<rparr>"

text \<open>Copy assignment from another object; self-assignment leaves the buffer as it is.\<close>

definition buf_assign :: "buffer \<Rightarrow> buffer \<Rightarrow> buffer" where
  "buf_assign this other =
     (let b = buf_clear this
      in if 0 < buf_size other then buf_put (buf_grow b (buf_size other)) 0 (buf_view other) else b)"

text \<open>Move construction and assignment: the target and what is left of the source.\<close>

definition buf_move :: "buffer \<Rightarrow> buffer \<times> buffer" where
  "buf_move other =
     (\<lparr>buf_data = buf_data other, buf_size = buf_size other, buf_cap = buf_cap other\<rparr>,
      other\<lparr>buf_data := None, buf_size := 0, buf_cap := 0\<rparr>)"

definition buf_append :: "buffer \<Rightarrow> string \<Rightarrow> buffer" where
  "buf_append b sv =
     (if sv = [] then b
      else buf_put (buf_grow b (buf_size b + length sv)) (buf_size b) sv)"

text \<open>
  \<^verbatim>\<open>resize\<close> ends with an unconditional store to \<^verbatim>\<open>data_[size_]\<close>: \<open>None\<close> when that goes
  through the null pointer.
\<close>

definition buf_resize :: "buffer \<Rightarrow> usize \<Rightarrow> buffer option" where
  "buf_resize b new_size =
     (let b1 = (if buf_cap b < new_size then buf_grow b new_size else b);
          zeros = (if buf_size b1 < new_size then replicate (new_size - buf_size b1) NUL else [])
      in case buf_data b1 of
           None \<Rightarrow> None
         | Some cells \<Rightarrow>
             Some (b1\<lparr>buf_data := Some ((copy_in (buf_size b1) zeros cells)[new_size := Some NUL]),
                      buf_size := new_size\<rparr>))"

definition buf_reserve :: "buffer \<Rightarrow> usize \<Rightarrow> buffer" where
  "buf_reserve b capacity = buf_grow b capacity"

definition buf_eq :: "buffer \<Rightarrow> buffer \<Rightarrow> bool" where
  "buf_eq b other = (if buf_size b \<noteq> buf_size other then False else buf_view b = buf_view other)"

definition buf_eq_sv :: "buffer \<Rightarrow> string \<Rightarrow> bool" where
  "buf_eq_sv b sv = (if buf_size b \<noteq> length sv then False else buf_view b = sv)"

definition try_parse_int :: "buffer \<Rightarrow> i64 option" where
  "try_parse_int b =
     (if buf_size b = 0 \<or> 20 < buf_size b then None
      else case from_chars (buf_view b) of
             (ec, v, n) \<Rightarrow> if ec = ErrcOk \<and> n = buf_size b then Some v else None)"

section \<open>The representation invariant\<close>

definition buf_wf :: "buffer \<Rightarrow> bool" where
  "buf_wf b \<longleftrightarrow>
     (case buf_data b of
        None \<Rightarrow> buf_size b = 0 \<and> buf_cap b = 0
      | Some cells \<Rightarrow>
          length cells = buf_cap b + 1 \<and> buf_size b \<le> buf_cap b \<and> is_pow2 (buf_cap b) \<and>
          16 \<le> buf_cap b \<and> (\<forall>i<buf_size b. cells ! i \<noteq> None) \<and> cells ! buf_size b = Some NUL)"

lemma buf_wf_empty [simp]: "buf_wf buf_empty"
  and buf_view_empty [simp]: "buf_view buf_empty = []"
  by (simp_all add: buf_wf_def buf_empty_def buf_view_def)

lemma length_buf_view [simp]: "buf_wf b \<Longrightarrow> length (buf_view b) = buf_size b"
  by (auto simp: buf_wf_def buf_view_def split: option.splits)

lemma take_view_Some:
  "buf_wf b \<Longrightarrow> buf_data b = Some cells \<Longrightarrow> take (buf_size b) cells = map Some (buf_view b)"
  by (auto simp: buf_wf_def buf_view_def list_eq_iff_nth_eq)

lemma length_copy_in [simp]: "off + length s \<le> length cells \<Longrightarrow> length (copy_in off s cells) = length cells"
  by (simp add: copy_in_def)

lemma take_copy_in: "off \<le> length cells \<Longrightarrow> take (off + length s) (copy_in off s cells) = take off cells @ map Some s"
  by (simp add: copy_in_def)

text \<open>Writing \<open>s\<close> behind the first \<open>off\<close> defined bytes of a block that has room for it.\<close>

lemma buf_put_wf_view:
  assumes data: "buf_data b = Some cells" "take off cells = map Some v" "off = length v"
    and shape: "length cells = buf_cap b + 1" "is_pow2 (buf_cap b)" "16 \<le> buf_cap b"
    and room: "off + length s \<le> buf_cap b"
  shows "buf_wf (buf_put b off s)" and "buf_view (buf_put b off s) = v @ s"
proof -
  let ?c = "copy_in off s cells"
  have off: "off \<le> length cells" and len: "length ?c = length cells"
    using room shape by simp_all
  have pre: "take (off + length s) ?c = map Some (v @ s)"
    using take_copy_in [OF off, of s] data by simp
  have cells: "\<forall>i<off + length s. ?c ! i \<noteq> None"
  proof (intro allI impI)
    fix i assume i: "i < off + length s"
    then have "?c ! i = map Some (v @ s) ! i" using pre by (metis nth_take)
    also have "\<dots> = Some ((v @ s) ! i)" using i data(3) by (subst nth_map) simp_all
    finally show "?c ! i \<noteq> None" by simp
  qed
  show "buf_wf (buf_put b off s)"
    using cells shape room len data by (simp add: buf_wf_def buf_put_def)
  show "buf_view (buf_put b off s) = v @ s"
    using pre data by (simp add: buf_view_def buf_put_def)
qed

lemma buf_grow_facts:
  assumes "buf_wf b"
  shows "buf_wf (buf_grow b n)" and "buf_view (buf_grow b n) = buf_view b"
    and "n \<le> buf_cap (buf_grow b n)" and "buf_size (buf_grow b n) = buf_size b"
    and "0 < n \<Longrightarrow> buf_data (buf_grow b n) \<noteq> None"
proof -
  let ?r = "if n < 16 then 16 else n"
  let ?cap = "bit_ceil ?r"
  show size: "buf_size (buf_grow b n) = buf_size b"
    by (simp add: buf_grow_def Let_def)
  show "n \<le> buf_cap (buf_grow b n)"
    using bit_ceil_ge [of ?r] by (auto simp: buf_grow_def Let_def split: if_splits)
  show "0 < n \<Longrightarrow> buf_data (buf_grow b n) \<noteq> None"
    using assms by (auto simp: buf_grow_def Let_def buf_wf_def split: option.splits)
  have "buf_wf (buf_grow b n) \<and> buf_view (buf_grow b n) = buf_view b"
  proof (cases "n \<le> buf_cap b")
    case True
    then show ?thesis using assms by (simp add: buf_grow_def)
  next
    case False
    have cap: "16 \<le> ?cap" "n \<le> ?cap" using bit_ceil_ge [of ?r] by (auto split: if_splits)
    have sz: "buf_size b < n"
      using assms False by (auto simp: buf_wf_def split: option.splits)
    define old where "old = map Some (buf_view b)"
    have old: "(case buf_data b of None \<Rightarrow> []
        | Some cells \<Rightarrow> if 0 < buf_size b then take (buf_size b) cells else []) = old"
      using assms take_view_Some [OF assms]
      by (auto simp: old_def buf_wf_def buf_view_def split: option.splits)
    let ?nd = "old @ replicate (?cap + 1 - length old) None"
    have len: "length old = buf_size b" using assms by (simp add: old_def)
    have g: "buf_grow b n = b\<lparr>buf_data := Some (?nd[buf_size b := Some NUL]), buf_cap := ?cap\<rparr>"
      using False by (simp only: buf_grow_def Let_def old if_False)
    have "take (buf_size b) (?nd[buf_size b := Some NUL]) = old"
      using len by simp
    moreover have "\<forall>i<buf_size b. ?nd[buf_size b := Some NUL] ! i \<noteq> None"
      using len by (auto simp: nth_append old_def)
    ultimately show ?thesis
      using cap sz len unfolding g by (auto simp: buf_wf_def buf_view_def old_def comp_def)
  qed
  then show "buf_wf (buf_grow b n)" and "buf_view (buf_grow b n) = buf_view b" by auto
qed

lemma buf_grow_put:
  assumes b: "buf_wf b" and off: "off = buf_size b" and n: "off + length s = n" "0 < n"
  shows "buf_wf (buf_put (buf_grow b n) off s)"
    and "buf_view (buf_put (buf_grow b n) off s) = buf_view b @ s"
proof -
  let ?g = "buf_grow b n"
  note g = buf_grow_facts [OF b, of n]
  obtain cells where c: "buf_data ?g = Some cells" using g(5) n(2) by blast
  have shape: "length cells = buf_cap ?g + 1" "is_pow2 (buf_cap ?g)" "16 \<le> buf_cap ?g"
    using g(1) c by (auto simp: buf_wf_def)
  have "take off cells = map Some (buf_view b)"
    using take_view_Some [OF g(1) c] g(2,4) off by simp
  moreover have "off = length (buf_view b)" using b off by simp
  moreover have "off + length s \<le> buf_cap ?g" using g(3) n by simp
  ultimately show "buf_wf (buf_put ?g off s)" and "buf_view (buf_put ?g off s) = buf_view b @ s"
    using buf_put_wf_view [OF c _ _ shape] by blast+
qed

section \<open>Every operation against its comment\<close>

lemma buf_wf_of_sv [simp]: "buf_wf (buf_of_sv s)"
  and buf_view_of_sv [simp]: "buf_view (buf_of_sv s) = s"
  using buf_grow_put [of buf_empty 0 s "length s"]
  by (auto simp: buf_of_sv_def) (auto simp: buf_empty_def)

lemma buf_wf_append: "buf_wf b \<Longrightarrow> buf_wf (buf_append b s)"
  and buf_view_append: "buf_wf b \<Longrightarrow> buf_view (buf_append b s) = buf_view b @ s"
  using buf_grow_put [of b "buf_size b" s "buf_size b + length s"]
  by (auto simp: buf_append_def)

lemma buf_wf_clear: "buf_wf b \<Longrightarrow> buf_wf (buf_clear b)"
  and buf_view_clear [simp]: "buf_view (buf_clear b) = []"
  and buf_cap_clear: "buf_cap (buf_clear b) = buf_cap b"
  by (auto simp: buf_clear_def buf_wf_def buf_view_def split: option.splits)

lemma buf_wf_copy: "buf_wf b \<Longrightarrow> buf_wf (buf_copy b)"
  and buf_view_copy: "buf_wf b \<Longrightarrow> buf_view (buf_copy b) = buf_view b"
  using buf_grow_put [of buf_empty 0 "buf_view b" "buf_size b"]
  by (auto simp: buf_copy_def) (auto simp: buf_empty_def buf_view_def split: option.splits)

lemma buf_wf_assign: "buf_wf b \<Longrightarrow> buf_wf c \<Longrightarrow> buf_wf (buf_assign b c)"
  and buf_view_assign: "buf_wf b \<Longrightarrow> buf_wf c \<Longrightarrow> buf_view (buf_assign b c) = buf_view c"
  using buf_grow_put [of "buf_clear b" 0 "buf_view c" "buf_size c"] buf_wf_clear [of b]
    length_buf_view [of c]
  by (auto simp: buf_assign_def Let_def simp del: length_buf_view) (auto simp: buf_clear_def)

lemma buf_move_facts:
  "buf_wf b \<Longrightarrow> buf_move b = (c, b') \<Longrightarrow> buf_wf c \<and> buf_view c = buf_view b \<and> b' = buf_empty"
  by (auto simp: buf_move_def buf_wf_def buf_view_def buf_empty_def split: option.splits)

lemma buf_wf_reserve: "buf_wf b \<Longrightarrow> buf_wf (buf_reserve b n)"
  and buf_view_reserve: "buf_wf b \<Longrightarrow> buf_view (buf_reserve b n) = buf_view b"
  and buf_cap_reserve: "buf_wf b \<Longrightarrow> n \<le> buf_cap (buf_reserve b n)"
  by (simp_all add: buf_reserve_def buf_grow_facts)

lemma buf_eq_iff: "buf_wf b \<Longrightarrow> buf_wf c \<Longrightarrow> buf_eq b c \<longleftrightarrow> buf_view b = buf_view c"
  using length_buf_view [of b] length_buf_view [of c] by (auto simp: buf_eq_def simp del: length_buf_view)

lemma buf_eq_sv_iff: "buf_wf b \<Longrightarrow> buf_eq_sv b s \<longleftrightarrow> buf_view b = s"
  using length_buf_view [of b] by (auto simp: buf_eq_sv_def simp del: length_buf_view)

section \<open>resize\<close>

lemma copy_in_Nil [simp]: "off \<le> length cells \<Longrightarrow> copy_in off [] cells = cells"
  by (simp add: copy_in_def)

lemma buf_resize_None_iff:
  assumes "buf_wf b"
  shows "buf_resize b n = None \<longleftrightarrow> buf_data b = None \<and> n = 0"
proof (cases "buf_cap b < n")
  case True
  then have "buf_data (buf_grow b n) \<noteq> None" using buf_grow_facts(5) [OF assms, of n] by simp
  with True show ?thesis by (auto simp: buf_resize_def Let_def)
next
  case False
  then show ?thesis
    using assms by (auto simp: buf_resize_def Let_def buf_wf_def split: option.splits)
qed

lemma buf_resize_Some:
  assumes b: "buf_wf b" and r: "buf_resize b n = Some b'"
  shows "buf_wf b'" and "buf_view b' = take n (buf_view b) @ replicate (n - buf_size b) NUL"
proof -
  define b1 where "b1 = (if buf_cap b < n then buf_grow b n else b)"
  have b1: "buf_wf b1" "buf_view b1 = buf_view b" "n \<le> buf_cap b1" "buf_size b1 = buf_size b"
    using buf_grow_facts [OF b, of n] b by (auto simp: b1_def)
  define zeros where "zeros = (if buf_size b1 < n then replicate (n - buf_size b1) NUL else [])"
  obtain cells where c: "buf_data b1 = Some cells"
    and b': "b' = b1\<lparr>buf_data := Some ((copy_in (buf_size b1) zeros cells)[n := Some NUL]),
                      buf_size := n\<rparr>"
    using r by (auto simp: buf_resize_def Let_def b1_def zeros_def split: option.splits if_splits)
  have shape: "length cells = buf_cap b1 + 1" "is_pow2 (buf_cap b1)" "16 \<le> buf_cap b1"
    "buf_size b1 \<le> buf_cap b1" "\<forall>i<buf_size b1. cells ! i \<noteq> None"
    using b1(1) c by (auto simp: buf_wf_def)
  have view: "take (buf_size b1) cells = map Some (buf_view b)"
    using take_view_Some [OF b1(1) c] b1(2) by simp
  have "buf_wf b' \<and> buf_view b' = take n (buf_view b) @ replicate (n - buf_size b) NUL"
  proof (cases "buf_size b1 < n")
    case True
    then have "b' = buf_put b1 (buf_size b1) zeros"
      using c by (simp add: b' buf_put_def zeros_def)
    moreover have "buf_size b1 + length zeros \<le> buf_cap b1" using True b1(3) by (simp add: zeros_def)
    moreover have "buf_size b1 = length (buf_view b)" using b b1(4) by simp
    ultimately show ?thesis
      using buf_put_wf_view [OF c view _ shape(1-3), of zeros] True b b1(4) by (simp add: zeros_def)
  next
    case False
    then have n: "n \<le> buf_size b1" "zeros = []" by (auto simp: zeros_def)
    then have "take n cells = map Some (take n (buf_view b))"
      using arg_cong [OF view, of "take n"] by (simp add: take_map min_absorb1)
    then show ?thesis
      using n shape b1 by (auto simp: b' buf_wf_def buf_view_def comp_def)
  qed
  then show "buf_wf b'" and "buf_view b' = take n (buf_view b) @ replicate (n - buf_size b) NUL"
    by auto
qed

section \<open>Growth\<close>

text \<open>
  A reallocation at least doubles a capacity that is in use, and never asks for twice what is
  required: together the amortised bound of the header.
\<close>

lemma pow2_double: "is_pow2 m \<Longrightarrow> is_pow2 n \<Longrightarrow> m < n \<Longrightarrow> 2 * m \<le> n"
proof -
  assume "is_pow2 m" "is_pow2 n" "m < n"
  then obtain j k where "m = 2 ^ j" "n = 2 ^ k" "j < k"
    by (auto simp: is_pow2_iff)
  then have "(2::nat) ^ Suc j \<le> 2 ^ k" by (intro power_increasing) auto
  then show ?thesis using \<open>m = 2 ^ j\<close> \<open>n = 2 ^ k\<close> by simp
qed

lemma buf_grow_doubles:
  assumes "buf_wf b" "buf_cap b < n"
  shows "2 * buf_cap b \<le> buf_cap (buf_grow b n)" and "buf_cap (buf_grow b n) < 2 * max 16 n"
proof -
  let ?r = "if n < 16 then 16 else n"
  have cap: "buf_cap (buf_grow b n) = bit_ceil ?r"
    using assms(2) by (simp add: buf_grow_def Let_def)
  show "buf_cap (buf_grow b n) < 2 * max 16 n"
    using bit_ceil_less [of ?r] by (auto simp: cap max_def split: if_splits)
  show "2 * buf_cap b \<le> buf_cap (buf_grow b n)"
  proof (cases "buf_cap b = 0")
    case False
    then have "is_pow2 (buf_cap b)" using assms(1) by (auto simp: buf_wf_def split: option.splits)
    moreover have "buf_cap b < bit_ceil ?r"
      using assms(2) bit_ceil_ge [of ?r] by (auto split: if_splits)
    ultimately show ?thesis using pow2_double [of "buf_cap b" "bit_ceil ?r"] by (simp add: cap)
  qed simp
qed

section \<open>Integers in buffers\<close>

lemma try_parse_int_iff:
  assumes "buf_wf b"
  shows "try_parse_int b = Some v \<longleftrightarrow>
    length (buf_view b) \<le> 20 \<and> from_chars (buf_view b) = (ErrcOk, v, length (buf_view b))"
proof -
  have "buf_size b = length (buf_view b)" using assms by simp
  moreover have "buf_view b = [] \<Longrightarrow> from_chars (buf_view b) = (ErrcInvalidArgument, 0, 0)"
    by (simp add: from_chars_def)
  ultimately show ?thesis
    by (cases "from_chars (buf_view b)") (auto simp: try_parse_int_def)
qed

lemma try_parse_int_range: "try_parse_int b = Some v \<Longrightarrow> in_i64 v"
  by (auto simp: try_parse_int_def split: if_splits prod.splits dest: from_chars_in_i64)

lemma try_parse_int_to_chars [simp]: "in_i64 v \<Longrightarrow> try_parse_int (buf_of_sv (to_chars v)) = Some v"
  by (simp add: try_parse_int_iff length_to_chars)

section \<open>The interface the dictionary and the object rely on\<close>

locale byte_string =
  fixes wf :: "'b \<Rightarrow> bool"
    and view :: "'b \<Rightarrow> string"
    and of_sv :: "string \<Rightarrow> 'b"
    and eq_sv :: "'b \<Rightarrow> string \<Rightarrow> bool"
    and append_sv :: "'b \<Rightarrow> string \<Rightarrow> 'b"
  assumes wf_of_sv: "wf (of_sv s)"
    and view_of_sv: "view (of_sv s) = s"
    and eq_sv_iff: "wf b \<Longrightarrow> eq_sv b s \<longleftrightarrow> view b = s"
    and wf_append: "wf b \<Longrightarrow> wf (append_sv b s)"
    and view_append: "wf b \<Longrightarrow> view (append_sv b s) = view b @ s"
begin

lemma of_sv_inj: "of_sv s = of_sv t \<longleftrightarrow> s = t"
  by (metis view_of_sv)

lemma of_sv_eq: "eq_sv (of_sv s) t \<longleftrightarrow> s = t"
  by (simp add: eq_sv_iff wf_of_sv view_of_sv)

lemma append_chunks:
  "wf b \<Longrightarrow> wf (foldl append_sv b ss) \<and> view (foldl append_sv b ss) = view b @ concat ss"
  by (induction ss arbitrary: b) (simp_all add: wf_append view_append)

end

interpretation buffer: byte_string buf_wf buf_view buf_of_sv buf_eq_sv buf_append
  by unfold_locales (simp_all add: buf_eq_sv_iff buf_wf_append buf_view_append)

end
