(* ===== verification/SipHash.thy ===== *)
theory SipHash
  imports Prelude
begin

text \<open>
  SipHash-1-2 as \<^verbatim>\<open>src/core/dict.cpp\<close> implements it: the round macro, the loop over whole
  eight-byte blocks, the fall-through \<^verbatim>\<open>switch\<close> over the remaining bytes and the two
  finalization rounds. The target is little-endian, as \<^verbatim>\<open>memcpy(&m, in, 8)\<close> assumes.
\<close>

definition rotl64 :: "u64 \<Rightarrow> nat \<Rightarrow> u64" where
  "rotl64 x r = push_bit r x OR drop_bit (64 - r) x"

type_synonym sip_state = "u64 \<times> u64 \<times> u64 \<times> u64"

definition sipround :: "sip_state \<Rightarrow> sip_state" where
  "sipround s =
     (case s of (v0, v1, v2, v3) \<Rightarrow>
        let v0 = v0 + v1; v1 = rotl64 v1 13; v1 = v1 XOR v0; v0 = rotl64 v0 32;
            v2 = v2 + v3; v3 = rotl64 v3 16; v3 = v3 XOR v2;
            v0 = v0 + v3; v3 = rotl64 v3 21; v3 = v3 XOR v0;
            v2 = v2 + v1; v1 = rotl64 v1 17; v1 = v1 XOR v2; v2 = rotl64 v2 32
        in (v0, v1, v2, v3))"

fun le_word :: "string \<Rightarrow> u64" where
  "le_word [] = 0"
| "le_word (c # cs) = of_char c OR push_bit 8 (le_word cs)"

definition sip_compress :: "u64 \<Rightarrow> sip_state \<Rightarrow> sip_state" where
  "sip_compress m s =
     (case s of (v0, v1, v2, v3) \<Rightarrow>
        case sipround (v0, v1, v2, v3 XOR m) of (v0, v1, v2, v3) \<Rightarrow> (v0 XOR m, v1, v2, v3))"

text \<open>The \<^verbatim>\<open>while (in != end)\<close> loop; it also returns the bytes it leaves.\<close>

function sip_blocks :: "string \<Rightarrow> sip_state \<Rightarrow> sip_state \<times> string" where
  "sip_blocks inp s =
     (if length inp < 8 then (s, inp)
      else sip_blocks (drop 8 inp) (sip_compress (le_word (take 8 inp)) s))"
  by pat_completeness auto
termination
  by (relation "measure (\<lambda>(inp, s). length inp)") auto

declare sip_blocks.simps [simp del]

text \<open>\<^verbatim>\<open>case i+1: last |= (u64)in[i] << 8*i\<close>, entered when that many bytes remain.\<close>

definition sip_case :: "string \<Rightarrow> nat \<Rightarrow> u64 \<Rightarrow> u64" where
  "sip_case inp i w = (if i < length inp then w OR push_bit (8 * i) (of_char (inp ! i)) else w)"

definition sip_last :: "usize \<Rightarrow> string \<Rightarrow> u64" where
  "sip_last len inp =
     sip_case inp 0 (sip_case inp 1 (sip_case inp 2 (sip_case inp 3 (sip_case inp 4
       (sip_case inp 5 (sip_case inp 6 (push_bit 56 (word_of_nat len AND 0xFF))))))))"

definition siphash_1_2 :: "string \<Rightarrow> u64 \<Rightarrow> u64 \<Rightarrow> u64" where
  "siphash_1_2 data k0 k1 =
     (let init = (k0 XOR 0x736f6d6570736575, k1 XOR 0x646f72616e646f6d,
                  k0 XOR 0x6c7967656e657261, k1 XOR 0x7465646279746573);
          (s, rest) = sip_blocks data init;
          (v0, v1, v2, v3) = sip_compress (sip_last (length data) rest) s;
          (v0, v1, v2, v3) = sipround (sipround (v0, v1, v2 XOR 0xFF, v3))
      in v0 XOR v1 XOR v2 XOR v3)"

section \<open>The loop\<close>

lemma sip_blocks_rest: "length (snd (sip_blocks inp s)) = length inp mod 8"
proof (induction inp s rule: sip_blocks.induct)
  case (1 inp s)
  show ?case
  proof (cases "length inp < 8")
    case False
    with 1 have "length (snd (sip_blocks inp s)) = (length inp - 8) mod 8"
      by (simp add: sip_blocks.simps [of inp s])
    with False show ?thesis by (simp add: le_mod_geq)
  qed (simp add: sip_blocks.simps [of inp s])
qed

lemma sip_blocks_append:
  "length xs mod 8 = 0 \<Longrightarrow> sip_blocks (xs @ ys) s = sip_blocks ys (fst (sip_blocks xs s))"
proof (induction xs s rule: sip_blocks.induct)
  case (1 xs s)
  show ?case
  proof (cases "length xs < 8")
    case True
    with 1(2) have "xs = []" by simp
    then show ?thesis by (simp add: sip_blocks.simps [of "[]"])
  next
    case False
    have "length (drop 8 xs) mod 8 = 0" using 1(2) False by (simp add: le_mod_geq)
    with 1(1) [OF False] False show ?thesis
      by (simp add: sip_blocks.simps [of "xs @ ys" s] sip_blocks.simps [of xs s])
  qed
qed

section \<open>The fall-through switch\<close>

text \<open>The switch assembles the remaining bytes as one little-endian number.\<close>

lemma or_push_le_word:
  fixes a :: u64
  shows "push_bit n (le_word (c # cs)) = push_bit n (of_char c) OR push_bit (n + 8) (le_word cs)"
  by (simp add: push_bit_or ac_simps)

lemma sip_last_le_word:
  assumes "length inp < 8"
  shows "sip_last len inp = push_bit 56 (word_of_nat len AND 0xFF) OR le_word inp"
proof -
  consider "length inp = 0" | "length inp = 1" | "length inp = 2" | "length inp = 3"
    | "length inp = 4" | "length inp = 5" | "length inp = 6" | "length inp = 7"
    using assms by linarith
  then show ?thesis
    by cases (auto simp: length_Suc_conv numeral_eq_Suc sip_last_def sip_case_def push_bit_or
        or.assoc or.commute or.left_commute)
qed

section \<open>The round is a permutation of the state\<close>

definition rotr64 :: "u64 \<Rightarrow> nat \<Rightarrow> u64" where
  "rotr64 x r = drop_bit r x OR push_bit (64 - r) x"

definition sipround_inv :: "sip_state \<Rightarrow> sip_state" where
  "sipround_inv s =
     (case s of (v0, v1, v2, v3) \<Rightarrow>
        let v2 = rotr64 v2 32; v1 = v1 XOR v2; v1 = rotr64 v1 17; v2 = v2 - v1;
            v3 = v3 XOR v0; v3 = rotr64 v3 21; v0 = v0 - v3;
            v3 = v3 XOR v2; v3 = rotr64 v3 16; v2 = v2 - v3;
            v0 = rotr64 v0 32; v1 = v1 XOR v0; v1 = rotr64 v1 13; v0 = v0 - v1
        in (v0, v1, v2, v3))"

lemma rotr_rotl [simp]:
  assumes r: "0 < r" "r < 64"
  shows "rotr64 (rotl64 x r) r = x"
proof (rule bit_word_eqI)
  fix n assume n: "n < LENGTH(64)"
  show "bit (rotr64 (rotl64 x r) r) n = bit x n"
  proof (cases "n + r < 64")
    case True
    with r n show ?thesis
      by (auto simp: rotr64_def rotl64_def bit_or_iff bit_push_bit_iff bit_drop_bit_eq)
  next
    case False
    then have "64 + (n + r - 64) - r = n" using r by simp
    with False r n show ?thesis
      by (auto simp: rotr64_def rotl64_def bit_or_iff bit_push_bit_iff bit_drop_bit_eq)
  qed
qed

lemma sipround_inv_sipround: "sipround_inv (sipround s) = s"
  by (cases s) (simp add: sipround_def sipround_inv_def Let_def)

lemma sipround_inj: "sipround s = sipround t \<longleftrightarrow> s = t"
  by (metis sipround_inv_sipround)

lemma sip_compress_inj: "sip_compress m s = sip_compress m t \<longleftrightarrow> s = t"
proof (cases s, cases t)
  fix a b c d a' b' c' d' assume st: "s = (a, b, c, d)" "t = (a', b', c', d')"
  show ?thesis
  proof
    assume "sip_compress m s = sip_compress m t"
    then have "sipround (a, b, c, d XOR m) = sipround (a', b', c', d' XOR m)"
      by (auto simp: sip_compress_def st split: prod.splits)
    then have "(a, b, c, d XOR m) = (a', b', c', d' XOR m)" by (simp only: sipround_inj)
    then show "s = t" by (simp add: st)
  qed simp
qed

end
