(* ===== verification/Dict.thy ===== *)
theory Dict
  imports Buffer SipHash
begin

text \<open>
  \<^verbatim>\<open>keva::core::Dict\<close> (\<^verbatim>\<open>src/core/dict.cpp\<close>, \<^verbatim>\<open>include/keva/core/dict.hpp\<close>): the dual-table hash
  table with progressive rehashing. This theory holds the model and the invariant; theory
  DictMap proves that the operations are those of a finite map.

  A bucket chain is the list of its entries, head first. A value is the \<^verbatim>\<open>void*\<close> payload,
  \<open>None\<close> for the null pointer. Two fields of the record observe the run and have no
  counterpart in the class: \<open>freed\<close> lists the values handed to \<^verbatim>\<open>value_deleter_\<close>, and
  \<open>oob\<close> is set when the bucket array would be read out of bounds.
\<close>

section \<open>State\<close>

record 'v dict_entry =
  ekey :: buffer
  evalue :: "'v option"
  ehash :: u64

record 'v dict_ht =
  buckets :: "'v dict_entry list list option"
  ht_size :: usize
  sizemask :: u64
  used :: usize

record 'v dict =
  ht0 :: "'v dict_ht"
  ht1 :: "'v dict_ht"
  rehashidx :: i64
  has_deleter :: bool
  hash_key :: "u64 \<times> u64"
  freed :: "'v list"
  oob :: bool

definition ht_null_table :: "'v dict_ht" where
  "ht_null_table = \<lparr>buckets = None, ht_size = 0, sizemask = 0, used = 0\<rparr>"

definition ht_is_null :: "'v dict_ht \<Rightarrow> bool" where
  "ht_is_null t \<longleftrightarrow> buckets t = None"

definition ht_allocate :: "usize \<Rightarrow> 'v dict_ht" where
  "ht_allocate n_buckets =
     \<lparr>buckets = Some (replicate n_buckets []), ht_size = n_buckets,
      sizemask = word_of_nat n_buckets - 1, used = 0\<rparr>"

definition bucket_list :: "'v dict_ht \<Rightarrow> 'v dict_entry list list" where
  "bucket_list t = (case buckets t of None \<Rightarrow> [] | Some bs \<Rightarrow> bs)"

definition bucket :: "'v dict_ht \<Rightarrow> nat \<Rightarrow> 'v dict_entry list" where
  "bucket t i = bucket_list t ! i"

definition set_bucket :: "'v dict_ht \<Rightarrow> nat \<Rightarrow> 'v dict_entry list \<Rightarrow> 'v dict_ht" where
  "set_bucket t i c = t\<lparr>buckets := map_option (\<lambda>bs. bs[i := c]) (buckets t)\<rparr>"

definition bucket_idx :: "'v dict_ht \<Rightarrow> u64 \<Rightarrow> nat" where
  "bucket_idx t h = unat (h AND sizemask t)"

definition dict_new :: "bool \<Rightarrow> 'v dict" where
  "dict_new deleter =
     \<lparr>ht0 = ht_allocate 4, ht1 = ht_null_table, rehashidx = - 1, has_deleter = deleter,
      hash_key = (0, 0), freed = [], oob = False\<rparr>"

definition seed_hash :: "'v dict \<Rightarrow> u64 \<Rightarrow> u64 \<Rightarrow> 'v dict" where
  "seed_hash d k0 k1 = d\<lparr>hash_key := (k0, k1)\<rparr>"

definition dict_hash :: "'v dict \<Rightarrow> string \<Rightarrow> u64" where
  "dict_hash d key = siphash_1_2 key (fst (hash_key d)) (snd (hash_key d))"

definition is_rehashing :: "'v dict \<Rightarrow> bool" where
  "is_rehashing d \<longleftrightarrow> 0 \<le> rehashidx d"

definition dict_size :: "'v dict \<Rightarrow> usize" where
  "dict_size d = used (ht0 d) + used (ht1 d)"

text \<open>The call \<^verbatim>\<open>if (value_deleter_ && v) value_deleter_(v)\<close>.\<close>

definition release :: "'v option \<Rightarrow> 'v dict \<Rightarrow> 'v dict" where
  "release v d =
     (case v of None \<Rightarrow> d | Some x \<Rightarrow> if has_deleter d then d\<lparr>freed := freed d @ [x]\<rparr> else d)"

definition release_table :: "'v dict_ht \<Rightarrow> 'v dict \<Rightarrow> 'v dict" where
  "release_table t d = (if ht_is_null t then d else fold (\<lambda>e. release (evalue e)) (concat (bucket_list t)) d)"

definition dict_clear :: "'v dict \<Rightarrow> 'v dict" where
  "dict_clear d =
     (let d = release_table (ht1 d) (release_table (ht0 d) d)
      in d\<lparr>ht0 := ht_allocate 4, ht1 := ht_null_table, rehashidx := - 1\<rparr>)"

text \<open>The destructor: what has been handed to the deleter at the end of the object's life.\<close>

definition dict_destroy :: "'v dict \<Rightarrow> 'v list" where
  "dict_destroy d = freed (release_table (ht1 d) (release_table (ht0 d) d))"

section \<open>Load factor\<close>

text \<open>
  \<^verbatim>\<open>static_cast<float>\<close> of an unsigned integer: round to nearest, ties to even, 24 bits of
  significand. The quotient by a power of two (a table size) is exact in binary32.
\<close>

fun bit_length :: "nat \<Rightarrow> nat" where
  "bit_length n = (if n = 0 then 0 else Suc (bit_length (n div 2)))"

declare bit_length.simps [simp del]

definition f32_of_usize :: "usize \<Rightarrow> nat" where
  "f32_of_usize n =
     (let e = bit_length n - 24; q = n div 2 ^ e; r = n mod 2 ^ e; half = 2 ^ (e - 1)
      in if e = 0 then n
         else if half < r \<or> (r = half \<and> odd q) then (q + 1) * 2 ^ e else q * 2 ^ e)"

definition load_factor :: "'v dict \<Rightarrow> rat" where
  "load_factor d =
     (if ht_size (ht0 d) = 0 then 0
      else of_nat (f32_of_usize (used (ht0 d))) / of_nat (f32_of_usize (ht_size (ht0 d))))"

text \<open>The size is taken from the number of entries; the comments of dict.hpp:23 say twice the table's.\<close>

definition maybe_expand :: "'v dict \<Rightarrow> 'v dict" where
  "maybe_expand d =
     (if is_rehashing d then d
      else if ht_is_null (ht0 d) then d
      else if DICT_EXPAND_RATIO < load_factor d
      then d\<lparr>ht1 := ht_allocate (bit_ceil (used (ht0 d) * 2)), rehashidx := 0\<rparr>
      else d)"

definition maybe_shrink :: "'v dict \<Rightarrow> 'v dict" where
  "maybe_shrink d =
     (if is_rehashing d then d
      else if ht_is_null (ht0 d) \<or> ht_size (ht0 d) \<le> 4 then d
      else if load_factor d < DICT_SHRINK_RATIO
      then d\<lparr>ht1 := ht_allocate (bit_ceil (if used (ht0 d) < 4 then 4 else used (ht0 d))), rehashidx := 0\<rparr>
      else d)"

section \<open>Progressive rehashing\<close>

datatype skip_result =
    SkipFound nat int
  | SkipLimit nat
  | SkipOutOfBounds

text \<open>
  \<^verbatim>\<open>while (buckets[rehashidx_] == nullptr) { ++rehashidx_; if (--empty_limit == 0) return false; }\<close>
\<close>

function skip_empty :: "'e list list \<Rightarrow> nat \<Rightarrow> int \<Rightarrow> skip_result" where
  "skip_empty bs i empty_limit =
     (if length bs \<le> i then SkipOutOfBounds
      else if bs ! i \<noteq> [] then SkipFound i empty_limit
      else if empty_limit - 1 = 0 then SkipLimit (i + 1)
      else skip_empty bs (i + 1) (empty_limit - 1))"
  by pat_completeness auto
termination
  by (relation "measure (\<lambda>(bs, i, l). length bs - i)") auto

declare skip_empty.simps [simp del]

definition ht_prepend :: "'v dict_ht \<Rightarrow> 'v dict_entry \<Rightarrow> 'v dict_ht" where
  "ht_prepend t e =
     (let i = bucket_idx t (ehash e) in (set_bucket t i (e # bucket t i))\<lparr>used := used t + 1\<rparr>)"

fun migrate_chain :: "'v dict_entry list \<Rightarrow> 'v dict_ht \<Rightarrow> 'v dict_ht \<Rightarrow> 'v dict_ht \<times> 'v dict_ht" where
  "migrate_chain [] t0 t1 = (t0, t1)"
| "migrate_chain (e # es) t0 t1 = migrate_chain es (t0\<lparr>used := used t0 - 1\<rparr>) (ht_prepend t1 e)"

text \<open>The loop \<^verbatim>\<open>while (steps-- > 0 && ht_[0].used > 0)\<close>; the flag is its early \<^verbatim>\<open>return false\<close>.\<close>

fun rehash_loop :: "nat \<Rightarrow> int \<Rightarrow> 'v dict \<Rightarrow> 'v dict \<times> bool" where
  "rehash_loop 0 empty_limit d = (d, False)"
| "rehash_loop (Suc steps) empty_limit d =
     (if used (ht0 d) = 0 then (d, False)
      else case skip_empty (bucket_list (ht0 d)) (nat (rehashidx d)) empty_limit of
             SkipOutOfBounds \<Rightarrow> (d\<lparr>oob := True\<rparr>, True)
           | SkipLimit i \<Rightarrow> (d\<lparr>rehashidx := int i\<rparr>, True)
           | SkipFound i limit \<Rightarrow>
               (case migrate_chain (bucket (ht0 d) i) (ht0 d) (ht1 d) of
                  (t0, t1) \<Rightarrow>
                    rehash_loop steps limit
                      (d\<lparr>ht0 := set_bucket t0 i [], ht1 := t1, rehashidx := int i + 1\<rparr>)))"

definition rehash_step :: "nat \<Rightarrow> 'v dict \<Rightarrow> 'v dict \<times> bool" where
  "rehash_step steps d =
     (if \<not> is_rehashing d then (d, True)
      else case rehash_loop steps (int steps * 10) d of
             (d, early) \<Rightarrow>
               if early then (d, False)
               else if used (ht0 d) = 0
               then (d\<lparr>ht0 := ht1 d, ht1 := ht_null_table, rehashidx := - 1\<rparr>, True)
               else (d, False))"

text \<open>The statement \<^verbatim>\<open>if (is_rehashing()) rehash_step(1)\<close> that opens \<open>set\<close>, \<open>get\<close> and \<open>del\<close>.\<close>

definition rehash_if_needed :: "'v dict \<Rightarrow> 'v dict" where
  "rehash_if_needed d = (if is_rehashing d then fst (rehash_step 1 d) else d)"

section \<open>Lookup, insertion, removal\<close>

fun find_chain :: "string \<Rightarrow> u64 \<Rightarrow> 'v dict_entry list \<Rightarrow> 'v dict_entry option" where
  "find_chain key h [] = None"
| "find_chain key h (e # es) =
     (if ehash e = h \<and> buf_eq_sv (ekey e) key then Some e else find_chain key h es)"

definition find_in :: "'v dict_ht \<Rightarrow> string \<Rightarrow> u64 \<Rightarrow> 'v dict_entry option" where
  "find_in t key h =
     (if ht_is_null t \<or> used t = 0 then None else find_chain key h (bucket t (bucket_idx t h)))"

text \<open>\<^verbatim>\<open>existing->value = value\<close> for the entry that \<open>find_in\<close> returned.\<close>

fun store_chain :: "string \<Rightarrow> u64 \<Rightarrow> 'v option \<Rightarrow> 'v dict_entry list \<Rightarrow> 'v dict_entry list" where
  "store_chain key h v [] = []"
| "store_chain key h v (e # es) =
     (if ehash e = h \<and> buf_eq_sv (ekey e) key then e\<lparr>evalue := v\<rparr> # es
      else e # store_chain key h v es)"

definition store_in :: "'v dict_ht \<Rightarrow> string \<Rightarrow> u64 \<Rightarrow> 'v option \<Rightarrow> 'v dict_ht" where
  "store_in t key h v =
     (let i = bucket_idx t h in set_bucket t i (store_chain key h v (bucket t i)))"

definition dict_set :: "'v dict \<Rightarrow> string \<Rightarrow> 'v option \<Rightarrow> 'v dict \<times> bool" where
  "dict_set d key value =
     (let d = rehash_if_needed d; h = dict_hash d key
      in case (if is_rehashing d then find_in (ht0 d) key h else None) of
           Some existing \<Rightarrow>
             ((release (evalue existing) d)\<lparr>ht0 := store_in (ht0 d) key h value\<rparr>, False)
         | None \<Rightarrow>
             (let target = (if is_rehashing d then ht1 d else ht0 d);
                  put = (\<lambda>t d. if is_rehashing d then d\<lparr>ht1 := t\<rparr> else d\<lparr>ht0 := t\<rparr>)
              in case find_in target key h of
                   Some existing \<Rightarrow>
                     (put (store_in target key h value) (release (evalue existing) d), False)
                 | None \<Rightarrow>
                     (maybe_expand
                        (put (ht_prepend target \<lparr>ekey = buf_of_sv key, evalue = value, ehash = h\<rparr>) d),
                      True)))"

definition dict_get_const :: "'v dict \<Rightarrow> string \<Rightarrow> 'v option" where
  "dict_get_const d key =
     (let h = dict_hash d key
      in case find_in (ht0 d) key h of
           Some e \<Rightarrow> evalue e
         | None \<Rightarrow>
             if \<not> is_rehashing d then None
             else case find_in (ht1 d) key h of Some e \<Rightarrow> evalue e | None \<Rightarrow> None)"

definition dict_get :: "'v dict \<Rightarrow> string \<Rightarrow> 'v dict \<times> 'v option" where
  "dict_get d key =
     (let d = rehash_if_needed d; h = dict_hash d key
      in (d, case find_in (ht0 d) key h of
               Some e \<Rightarrow> evalue e
             | None \<Rightarrow>
                 if \<not> is_rehashing d then None
                 else case find_in (ht1 d) key h of Some e \<Rightarrow> evalue e | None \<Rightarrow> None))"

definition dict_exists :: "'v dict \<Rightarrow> string \<Rightarrow> bool" where
  "dict_exists d key \<longleftrightarrow> dict_get_const d key \<noteq> None"

fun unlink_chain :: "string \<Rightarrow> u64 \<Rightarrow> 'v dict_entry list \<Rightarrow> ('v dict_entry \<times> 'v dict_entry list) option" where
  "unlink_chain key h [] = None"
| "unlink_chain key h (e # es) =
     (if ehash e = h \<and> buf_eq_sv (ekey e) key then Some (e, es)
      else map_option (\<lambda>(x, xs). (x, e # xs)) (unlink_chain key h es))"

text \<open>One turn of the loop over the tables: the removed entry and the table without it.\<close>

definition ht_unlink :: "'v dict_ht \<Rightarrow> string \<Rightarrow> u64 \<Rightarrow> ('v dict_entry \<times> 'v dict_ht) option" where
  "ht_unlink t key h =
     (if ht_is_null t \<or> used t = 0 then None
      else let i = bucket_idx t h
           in map_option (\<lambda>(e, c). (e, (set_bucket t i c)\<lparr>used := used t - 1\<rparr>))
                (unlink_chain key h (bucket t i)))"

definition dict_del :: "'v dict \<Rightarrow> string \<Rightarrow> 'v dict \<times> bool" where
  "dict_del d key =
     (let d = rehash_if_needed d; h = dict_hash d key
      in case ht_unlink (ht0 d) key h of
           Some (e, t) \<Rightarrow> (maybe_shrink ((release (evalue e) d)\<lparr>ht0 := t\<rparr>), True)
         | None \<Rightarrow>
             if \<not> is_rehashing d then (d, False)
             else case ht_unlink (ht1 d) key h of
                    Some (e, t) \<Rightarrow> (maybe_shrink ((release (evalue e) d)\<lparr>ht1 := t\<rparr>), True)
                  | None \<Rightarrow> (d, False))"

section \<open>Iteration and sampling\<close>

text \<open>The sequence of (key view, value) pairs that \<^verbatim>\<open>for_each\<close> passes to its visitor.\<close>

definition ekview :: "'v dict_entry \<Rightarrow> string" where
  "ekview e = buf_view (ekey e)"

definition dict_for_each :: "'v dict \<Rightarrow> (string \<times> 'v option) list" where
  "dict_for_each d =
     (let visit = (\<lambda>t. if ht_is_null t then [] else map (\<lambda>e. (ekview e, evalue e)) (concat (bucket_list t)))
      in if ht_is_null (ht0 d) \<or> is_rehashing d then visit (ht0 d) @ visit (ht1 d) else visit (ht0 d))"

text \<open>
  \<^verbatim>\<open>random_sample\<close> into an empty vector. The two draws of the generator are arguments: the
  first is made only while rehashing.
\<close>

function sample_loop :: "'v dict_ht \<Rightarrow> usize \<Rightarrow> nat \<Rightarrow> usize \<Rightarrow> 'v dict_entry list \<Rightarrow> 'v dict_entry list" where
  "sample_loop t cnt idx buckets_checked out =
     (if length out < cnt \<and> buckets_checked < ht_size t
      then sample_loop t cnt (unat ((word_of_nat (idx + 1) :: u64) AND sizemask t)) (buckets_checked + 1)
             (out @ take (cnt - length out) (bucket t idx))
      else out)"
  by pat_completeness auto
termination
  by (relation "measure (\<lambda>(t, cnt, idx, n, out). ht_size t - n)") auto

declare sample_loop.simps [simp del]

definition random_sample :: "'v dict \<Rightarrow> usize \<Rightarrow> u64 \<Rightarrow> u64 \<Rightarrow> 'v dict_entry list" where
  "random_sample d cnt draw1 draw2 =
     (if dict_size d = 0 then []
      else
        let cnt = (if dict_size d < cnt then dict_size d else cnt);
            t = (if is_rehashing d \<and> draw1 mod 3 = 0 \<and> \<not> ht_is_null (ht1 d) \<and> 0 < used (ht1 d)
                 then ht1 d else ht0 d);
            t = (if ht_is_null t \<or> used t = 0 then ht0 d else t)
        in if ht_is_null t \<or> used t = 0 then []
           else sample_loop t cnt (bucket_idx t draw2) 0 [])"

end
