(* ===== verification/DictInv.thy ===== *)
theory DictInv
  imports Dict
begin

text \<open>
  The representation invariant of one hash table and of the dictionary, and what each
  table-level step of the code (prepend, store, unlink, migrate a chain) does to the multiset
  of entries.
\<close>

section \<open>One table\<close>

definition entry_ok :: "(string \<Rightarrow> u64) \<Rightarrow> 'v dict_entry \<Rightarrow> bool" where
  "entry_ok K e \<longleftrightarrow> buf_wf (ekey e) \<and> ehash e = K (ekview e)"

definition ht_entries :: "'v dict_ht \<Rightarrow> 'v dict_entry list" where
  "ht_entries t = concat (bucket_list t)"

lemma entry_ok_store [simp]: "entry_ok K (e\<lparr>evalue := v\<rparr>) \<longleftrightarrow> entry_ok K e"
  and ekview_store [simp]: "ekview (e\<lparr>evalue := v\<rparr>) = ekview e"
  by (simp_all add: entry_ok_def ekview_def)

definition ht_shape :: "'v dict_ht \<Rightarrow> bool" where
  "ht_shape t \<longleftrightarrow>
     (case buckets t of
        None \<Rightarrow> ht_size t = 0 \<and> used t = 0
      | Some bs \<Rightarrow>
          length bs = ht_size t \<and> is_pow2 (ht_size t) \<and> sizemask t = word_of_nat (ht_size t) - 1)"

definition ht_placed :: "(string \<Rightarrow> u64) \<Rightarrow> 'v dict_ht \<Rightarrow> bool" where
  "ht_placed K t \<longleftrightarrow>
     (\<forall>i<length (bucket_list t). \<forall>e\<in>set (bucket_list t ! i). entry_ok K e \<and> bucket_idx t (ehash e) = i)"

definition ht_inv :: "(string \<Rightarrow> u64) \<Rightarrow> 'v dict_ht \<Rightarrow> bool" where
  "ht_inv K t \<longleftrightarrow> ht_shape t \<and> ht_placed K t \<and> used t = length (ht_entries t)"

lemma ht_inv_null [simp]: "ht_inv K ht_null_table"
  and ht_entries_null [simp]: "ht_entries ht_null_table = []"
  and ht_is_null_null [simp]: "ht_is_null ht_null_table"
  and used_null [simp]: "used ht_null_table = 0"
  by (simp_all add: ht_inv_def ht_null_table_def ht_shape_def ht_placed_def ht_entries_def
      bucket_list_def ht_is_null_def)

lemma ht_entries_allocate [simp]: "ht_entries (ht_allocate n) = []"
  and used_allocate [simp]: "used (ht_allocate n) = 0"
  and size_allocate [simp]: "ht_size (ht_allocate n) = n"
  and not_null_allocate [simp]: "\<not> ht_is_null (ht_allocate n)"
  by (simp_all add: ht_allocate_def ht_entries_def bucket_list_def ht_is_null_def)

lemma ht_inv_allocate [simp]: "is_pow2 n \<Longrightarrow> ht_inv K (ht_allocate n)"
  by (simp add: ht_inv_def ht_shape_def ht_placed_def)
    (simp add: ht_allocate_def bucket_list_def)

lemma length_bucket_list: "ht_shape t \<Longrightarrow> length (bucket_list t) = ht_size t"
  by (auto simp: ht_shape_def bucket_list_def split: option.splits)

lemma ht_inv_used: "ht_inv K t \<Longrightarrow> used t = length (ht_entries t)"
  by (simp add: ht_inv_def)

lemma ht_null_entries: "ht_is_null t \<Longrightarrow> ht_entries t = []"
  by (simp add: ht_is_null_def ht_entries_def bucket_list_def)

text \<open>The mask keeps every index inside the bucket array.\<close>

lemma bucket_idx_mod:
  "ht_shape t \<Longrightarrow> \<not> ht_is_null t \<Longrightarrow> bucket_idx t h = unat h mod ht_size t"
  by (auto simp: ht_shape_def ht_is_null_def bucket_idx_def unat_and_mask split: option.splits)

lemma bucket_idx_less:
  "ht_shape t \<Longrightarrow> \<not> ht_is_null t \<Longrightarrow> bucket_idx t h < length (bucket_list t)"
  by (auto simp: bucket_idx_mod length_bucket_list)
    (auto simp: ht_shape_def ht_is_null_def is_pow2_pos split: option.splits)

lemma set_bucket_simps [simp]:
  "used (set_bucket t i c) = used t" "ht_size (set_bucket t i c) = ht_size t"
  "sizemask (set_bucket t i c) = sizemask t" "ht_is_null (set_bucket t i c) = ht_is_null t"
  "bucket_list (set_bucket t i c) = (bucket_list t)[i := c]"
  "bucket_idx (set_bucket t i c) h = bucket_idx t h"
  by (auto simp: set_bucket_def ht_is_null_def bucket_list_def bucket_idx_def split: option.splits)

lemma used_update_simps [simp]:
  "ht_is_null (t\<lparr>used := n\<rparr>) = ht_is_null t" "bucket_list (t\<lparr>used := n\<rparr>) = bucket_list t"
  "bucket_idx (t\<lparr>used := n\<rparr>) h = bucket_idx t h" "bucket (t\<lparr>used := n\<rparr>) i = bucket t i"
  by (auto simp: ht_is_null_def bucket_list_def bucket_idx_def bucket_def)

lemma ht_shape_update: "ht_shape (set_bucket t i c) \<longleftrightarrow> ht_shape t"
  and ht_shape_used: "\<not> ht_is_null t \<Longrightarrow> ht_shape (t\<lparr>used := n\<rparr>) \<longleftrightarrow> ht_shape t"
  by (auto simp: ht_shape_def set_bucket_def ht_is_null_def split: option.splits)

text \<open>
  Replacing one chain: the shape is kept, the placement too when the new chain belongs there,
  and the multiset changes by exactly that chain.
\<close>

lemma ht_replace_chain:
  assumes inv: "ht_inv K t" and nn: "\<not> ht_is_null t" and i: "i < length (bucket_list t)"
    and c: "\<forall>e\<in>set c. entry_ok K e \<and> bucket_idx t (ehash e) = i"
    and n: "n + length (bucket t i) = used t + length c"
  shows "ht_inv K ((set_bucket t i c)\<lparr>used := n\<rparr>)"
    and "mset (ht_entries ((set_bucket t i c)\<lparr>used := n\<rparr>)) + mset (bucket t i) = mset (ht_entries t) + mset c"
proof -
  let ?t = "(set_bucket t i c)\<lparr>used := n\<rparr>"
  have shape: "ht_shape ?t"
    using inv nn by (simp add: ht_inv_def ht_shape_update ht_shape_used)
  have placed: "ht_placed K ?t"
    unfolding ht_placed_def
  proof (intro allI impI ballI)
    fix j e assume "j < length (bucket_list ?t)" "e \<in> set (bucket_list ?t ! j)"
    then show "entry_ok K e \<and> bucket_idx ?t (ehash e) = j"
      using inv i c by (cases "j = i") (auto simp: ht_inv_def ht_placed_def)
  qed
  show ms: "mset (ht_entries ?t) + mset (bucket t i) = mset (ht_entries t) + mset c"
    using mset_concat_update [OF i, of c] by (simp add: ht_entries_def bucket_def)
  have "length (ht_entries ?t) + length (bucket t i) = length (ht_entries t) + length c"
    using arg_cong [OF ms, of size] by simp
  then show "ht_inv K ?t"
    using shape placed n inv by (simp add: ht_inv_def)
qed

lemma in_entries_iff: "e \<in> set (ht_entries t) \<longleftrightarrow> (\<exists>i<length (bucket_list t). e \<in> set (bucket t i))"
  unfolding ht_entries_def bucket_def by (rule in_concat_nth)

lemma chain_subset: "i < length (bucket_list t) \<Longrightarrow> set (bucket t i) \<subseteq> set (ht_entries t)"
  using in_entries_iff [of _ t] by blast

lemma chain_ok:
  "ht_inv K t \<Longrightarrow> i < length (bucket_list t) \<Longrightarrow> e \<in> set (bucket t i) \<Longrightarrow>
   entry_ok K e \<and> bucket_idx t (ehash e) = i"
  by (simp add: ht_inv_def ht_placed_def bucket_def)

lemma entries_ok: "ht_inv K t \<Longrightarrow> e \<in> set (ht_entries t) \<Longrightarrow> entry_ok K e"
  using chain_ok in_entries_iff by blast

lemma entries_in_chain:
  "ht_inv K t \<Longrightarrow> e \<in> set (ht_entries t) \<Longrightarrow> e \<in> set (bucket t (bucket_idx t (K (ekview e))))"
  using chain_ok in_entries_iff unfolding entry_ok_def by metis

section \<open>Chains\<close>

lemma match_iff: "entry_ok K e \<Longrightarrow> ehash e = K key \<and> buf_eq_sv (ekey e) key \<longleftrightarrow> ekview e = key"
  by (auto simp: entry_ok_def buf_eq_sv_iff ekview_def)

lemma find_chain_find:
  "\<forall>e\<in>set c. entry_ok K e \<Longrightarrow> find_chain key (K key) c = find (\<lambda>e. ekview e = key) c"
  by (induction c) (simp_all add: match_iff)

lemma find_chain_SomeD:
  "\<forall>e\<in>set c. entry_ok K e \<Longrightarrow> find_chain key (K key) c = Some e \<Longrightarrow> e \<in> set c \<and> ekview e = key"
  by (auto simp: find_chain_find find_Some_iff)

lemma find_chain_NoneD:
  "\<forall>e\<in>set c. entry_ok K e \<Longrightarrow> find_chain key (K key) c = None \<Longrightarrow> e \<in> set c \<Longrightarrow> ekview e \<noteq> key"
  by (auto simp: find_chain_find find_None_iff)

lemma store_chain_split:
  assumes "\<forall>e\<in>set c. entry_ok K e" "find_chain key (K key) c = Some e"
  shows "\<exists>xs ys. c = xs @ e # ys \<and> store_chain key (K key) v c = xs @ e\<lparr>evalue := v\<rparr> # ys"
  using assms
proof (induction c)
  case (Cons x c)
  show ?case
  proof (cases "ekview x = key")
    case True
    with Cons.prems have "c = c \<and> x = e" by (simp add: match_iff)
    with True Cons.prems show ?thesis
      by (intro exI [of _ "[]"] exI [of _ c]) (simp add: match_iff)
  next
    case False
    with Cons obtain xs ys where "c = xs @ e # ys" "store_chain key (K key) v c = xs @ e\<lparr>evalue := v\<rparr> # ys"
      by (auto simp: match_iff)
    with False Cons.prems show ?thesis
      by (intro exI [of _ "x # xs"] exI [of _ ys]) (simp add: match_iff)
  qed
qed simp

lemma unlink_chain_Some:
  "unlink_chain key h c = Some (e, c') \<Longrightarrow> \<exists>xs ys. c = xs @ e # ys \<and> c' = xs @ ys"
proof (induction c arbitrary: e c')
  case (Cons x c)
  show ?case
  proof (cases "ehash x = h \<and> buf_eq_sv (ekey x) key")
    case True
    with Cons.prems show ?thesis by (intro exI [of _ "[]"] exI [of _ c]) simp
  next
    case False
    with Cons.prems obtain c1 where c1: "unlink_chain key h c = Some (e, c1)" "c' = x # c1"
      by auto
    from Cons.IH [OF c1(1)] obtain xs ys where "c = xs @ e # ys" "c1 = xs @ ys" by blast
    with c1(2) show ?thesis by (intro exI [of _ "x # xs"] exI [of _ ys]) simp
  qed
qed simp

lemma unlink_find: "map_option fst (unlink_chain key h c) = find_chain key h c"
  by (induction c) (auto simp: option.map_comp comp_def case_prod_unfold)

section \<open>Table operations\<close>

lemma find_in_SomeD:
  assumes "ht_inv K t" "find_in t key (K key) = Some e"
  shows "e \<in> set (ht_entries t)" and "ekview e = key"
proof -
  let ?i = "bucket_idx t (K key)"
  have nn: "\<not> ht_is_null t" and f: "find_chain key (K key) (bucket t ?i) = Some e"
    using assms(2) by (auto simp: find_in_def split: if_splits)
  have i: "?i < length (bucket_list t)" using assms(1) nn bucket_idx_less by (auto simp: ht_inv_def)
  have "\<forall>e\<in>set (bucket t ?i). entry_ok K e" using chain_ok [OF assms(1) i] by blast
  from find_chain_SomeD [OF this f] chain_subset [OF i]
  show "e \<in> set (ht_entries t)" and "ekview e = key" by auto
qed

lemma find_in_NoneD:
  assumes "ht_inv K t" "find_in t key (K key) = None" "e \<in> set (ht_entries t)"
  shows "ekview e \<noteq> key"
proof
  assume key: "ekview e = key"
  let ?i = "bucket_idx t (K key)"
  have nn: "\<not> ht_is_null t" and u: "used t \<noteq> 0"
    using assms(1,3) ht_null_entries [of t] by (auto simp: ht_inv_def)
  have i: "?i < length (bucket_list t)" using assms(1) nn bucket_idx_less by (auto simp: ht_inv_def)
  have "\<forall>e\<in>set (bucket t ?i). entry_ok K e" using chain_ok [OF assms(1) i] by blast
  moreover have "find_chain key (K key) (bucket t ?i) = None"
    using assms(2) nn u by (simp add: find_in_def)
  moreover have "e \<in> set (bucket t ?i)" using entries_in_chain [OF assms(1,3)] key by simp
  ultimately show False using find_chain_NoneD key by blast
qed

lemma ht_prepend_facts:
  assumes inv: "ht_inv K t" and nn: "\<not> ht_is_null t" and e: "entry_ok K e"
  shows "ht_inv K (ht_prepend t e)" and "mset (ht_entries (ht_prepend t e)) = add_mset e (mset (ht_entries t))"
    and "\<not> ht_is_null (ht_prepend t e)" and "ht_size (ht_prepend t e) = ht_size t"
proof -
  let ?i = "bucket_idx t (ehash e)"
  have i: "?i < length (bucket_list t)" using inv nn bucket_idx_less by (auto simp: ht_inv_def)
  have c: "\<forall>x\<in>set (e # bucket t ?i). entry_ok K x \<and> bucket_idx t (ehash x) = ?i"
    using e chain_ok [OF inv i] by auto
  note r = ht_replace_chain [OF inv nn i c, of "used t + 1"]
  have p: "ht_prepend t e = (set_bucket t ?i (e # bucket t ?i))\<lparr>used := used t + 1\<rparr>"
    by (simp add: ht_prepend_def Let_def)
  show "ht_inv K (ht_prepend t e)" unfolding p by (rule r(1)) simp
  show "mset (ht_entries (ht_prepend t e)) = add_mset e (mset (ht_entries t))"
    unfolding p using r(2) by simp
  show "\<not> ht_is_null (ht_prepend t e)" using nn by (simp add: p)
  show "ht_size (ht_prepend t e) = ht_size t" by (simp add: p)
qed

lemma ht_store_facts:
  assumes inv: "ht_inv K t" and f: "find_in t key (K key) = Some e"
  shows "ht_inv K (store_in t key (K key) v)"
    and "\<exists>M. mset (ht_entries t) = add_mset e M \<and>
             mset (ht_entries (store_in t key (K key) v)) = add_mset (e\<lparr>evalue := v\<rparr>) M"
    and "ht_is_null (store_in t key (K key) v) = ht_is_null t"
    and "ht_size (store_in t key (K key) v) = ht_size t"
    and "used (store_in t key (K key) v) = used t"
    and "\<forall>i. bucket_list t ! i = [] \<longrightarrow> bucket_list (store_in t key (K key) v) ! i = []"
proof -
  let ?i = "bucket_idx t (K key)"
  have nn: "\<not> ht_is_null t" and fc: "find_chain key (K key) (bucket t ?i) = Some e"
    using f by (auto simp: find_in_def split: if_splits)
  have i: "?i < length (bucket_list t)" using inv nn bucket_idx_less by (auto simp: ht_inv_def)
  have ok: "\<forall>e\<in>set (bucket t ?i). entry_ok K e" using chain_ok [OF inv i] by blast
  obtain xs ys where c: "bucket t ?i = xs @ e # ys"
    and s: "store_chain key (K key) v (bucket t ?i) = xs @ e\<lparr>evalue := v\<rparr> # ys"
    using store_chain_split [OF ok fc] by blast
  let ?c = "xs @ e\<lparr>evalue := v\<rparr> # ys"
  have old: "\<forall>x\<in>set (xs @ e # ys). entry_ok K x \<and> bucket_idx t (ehash x) = ?i"
    using chain_ok [OF inv i] unfolding c by blast
  then have "\<forall>x\<in>set ?c. entry_ok K x \<and> bucket_idx t (ehash x) = ?i"
    by simp
  note r = ht_replace_chain [OF inv nn i this, of "used t"]
  have p: "store_in t key (K key) v = (set_bucket t ?i ?c)\<lparr>used := used t\<rparr>"
    by (simp add: store_in_def Let_def s set_bucket_def)
  show "ht_inv K (store_in t key (K key) v)" unfolding p by (rule r(1)) (simp add: c)
  have eq: "add_mset e (mset (ht_entries (store_in t key (K key) v)))
        = add_mset (e\<lparr>evalue := v\<rparr>) (mset (ht_entries t))"
    unfolding p using r(2) by (simp add: c)
  have "e \<in># mset (ht_entries t)"
    using chain_subset [OF i] c by auto
  then obtain M where M: "mset (ht_entries t) = add_mset e M" by (blast dest: multi_member_split)
  with eq have "mset (ht_entries (store_in t key (K key) v)) = add_mset (e\<lparr>evalue := v\<rparr>) M"
    by (simp add: add_mset_commute)
  with M show "\<exists>M. mset (ht_entries t) = add_mset e M \<and>
      mset (ht_entries (store_in t key (K key) v)) = add_mset (e\<lparr>evalue := v\<rparr>) M" by blast
  show "ht_is_null (store_in t key (K key) v) = ht_is_null t"
    and "ht_size (store_in t key (K key) v) = ht_size t"
    and "used (store_in t key (K key) v) = used t" by (simp_all add: p)
  show "\<forall>j. bucket_list t ! j = [] \<longrightarrow> bucket_list (store_in t key (K key) v) ! j = []"
    using c i by (auto simp: p nth_list_update bucket_def)
qed

lemma ht_unlink_Some:
  assumes inv: "ht_inv K t" and u: "ht_unlink t key (K key) = Some (e, t')"
  shows "ht_inv K t'" and "mset (ht_entries t) = add_mset e (mset (ht_entries t'))"
    and "ekview e = key" and "\<not> ht_is_null t'" and "ht_size t' = ht_size t"
    and "\<forall>i. bucket_list t ! i = [] \<longrightarrow> bucket_list t' ! i = []"
proof -
  let ?i = "bucket_idx t (K key)"
  obtain c where nn: "\<not> ht_is_null t" and uc: "unlink_chain key (K key) (bucket t ?i) = Some (e, c)"
    and t': "t' = (set_bucket t ?i c)\<lparr>used := used t - 1\<rparr>"
    using u by (auto simp: ht_unlink_def Let_def split: if_splits)
  have i: "?i < length (bucket_list t)" using inv nn bucket_idx_less by (auto simp: ht_inv_def)
  obtain xs ys where c: "bucket t ?i = xs @ e # ys" "c = xs @ ys"
    using unlink_chain_Some [OF uc] by blast
  have ok: "\<forall>x\<in>set c. entry_ok K x \<and> bucket_idx t (ehash x) = ?i"
    using chain_ok [OF inv i] unfolding c by auto
  have "e \<in> set (ht_entries t)" using chain_subset [OF i] c by auto
  then have pos: "0 < used t" using inv by (cases "ht_entries t") (auto simp: ht_inv_def)
  note r = ht_replace_chain [OF inv nn i ok, of "used t - 1"]
  show "ht_inv K t'" unfolding t' using pos c by (intro r(1)) simp
  show "mset (ht_entries t) = add_mset e (mset (ht_entries t'))"
    unfolding t' using r(2) pos c by simp
  have "find_chain key (K key) (bucket t ?i) = Some e"
    using unlink_find [of key "K key" "bucket t ?i"] uc by simp
  then show "ekview e = key"
    using find_chain_SomeD [of "bucket t ?i" K key e] chain_ok [OF inv i] by blast
  show "\<not> ht_is_null t'" and "ht_size t' = ht_size t" using nn by (simp_all add: t')
  show "\<forall>j. bucket_list t ! j = [] \<longrightarrow> bucket_list t' ! j = []"
    using c i by (auto simp: t' nth_list_update bucket_def)
qed

lemma ht_unlink_find: "map_option fst (ht_unlink t key h) = find_in t key h"
  using unlink_find [of key h "bucket t (bucket_idx t h)"]
  by (auto simp: ht_unlink_def find_in_def Let_def option.map_comp comp_def case_prod_unfold)

lemma migrate_chain_facts:
  assumes "ht_inv K t1" "\<not> ht_is_null t1" "\<forall>e\<in>set c. entry_ok K e"
    and "migrate_chain c t0 t1 = (t0', t1')"
  shows "t0' = t0\<lparr>used := used t0 - length c\<rparr>" and "ht_inv K t1'" and "\<not> ht_is_null t1'"
    and "mset (ht_entries t1') = mset (ht_entries t1) + mset c" and "ht_size t1' = ht_size t1"
  using assms
proof (induction c arbitrary: t0 t1)
  case Nil
  { case 1 then show ?case by simp }
  { case 2 then show ?case by simp }
  { case 3 then show ?case by simp }
  { case 4 then show ?case by simp }
  { case 5 then show ?case by simp }
next
  case (Cons e c)
  { case 1
    note p = ht_prepend_facts [OF 1(1,2), of e]
    then show ?case using Cons.IH(1) [of "ht_prepend t1 e" "t0\<lparr>used := used t0 - 1\<rparr>"] 1 by simp }
  { case 2
    note p = ht_prepend_facts [OF 2(1,2), of e]
    then show ?case using Cons.IH(2) [of "ht_prepend t1 e" "t0\<lparr>used := used t0 - 1\<rparr>"] 2 by simp }
  { case 3
    note p = ht_prepend_facts [OF 3(1,2), of e]
    then show ?case using Cons.IH(3) [of "ht_prepend t1 e" "t0\<lparr>used := used t0 - 1\<rparr>"] 3 by simp }
  { case 4
    note p = ht_prepend_facts [OF 4(1,2), of e]
    then show ?case using Cons.IH(4) [of "ht_prepend t1 e" "t0\<lparr>used := used t0 - 1\<rparr>"] 4 by simp }
  { case 5
    note p = ht_prepend_facts [OF 5(1,2), of e]
    then show ?case using Cons.IH(5) [of "ht_prepend t1 e" "t0\<lparr>used := used t0 - 1\<rparr>"] 5 by simp }
qed

end
