(* ===== verification/DictMap.thy ===== *)
theory DictMap
  imports DictInv
begin

text \<open>
  The dictionary is a finite map. \<open>dict_inv\<close> is the invariant of the two tables and the
  rehash index; \<open>dict_map\<close> reads a dictionary as a partial function from keys to value
  pointers. Every operation keeps the invariant, rehashing never changes the map, and the
  bucket array is never read out of bounds.
\<close>

section \<open>Invariant and abstraction\<close>

definition dict_entries :: "'v dict \<Rightarrow> 'v dict_entry list" where
  "dict_entries d = ht_entries (ht0 d) @ ht_entries (ht1 d)"

definition dict_inv :: "'v dict \<Rightarrow> bool" where
  "dict_inv d \<longleftrightarrow>
     ht_inv (dict_hash d) (ht0 d) \<and> ht_inv (dict_hash d) (ht1 d) \<and> \<not> ht_is_null (ht0 d) \<and> \<not> oob d \<and>
     distinct (map ekview (dict_entries d)) \<and>
     (if is_rehashing d
      then \<not> ht_is_null (ht1 d) \<and> rehashidx d \<le> int (ht_size (ht0 d)) \<and>
           (\<forall>i<nat (rehashidx d). bucket_list (ht0 d) ! i = [])
      else rehashidx d = - 1 \<and> ht1 d = ht_null_table)"

definition kv :: "'v dict_entry \<Rightarrow> string \<times> 'v option" where
  "kv e = (ekview e, evalue e)"

definition dict_map :: "'v dict \<Rightarrow> string \<rightharpoonup> 'v option" where
  "dict_map d = map_of (map kv (dict_entries d))"

lemma fst_kv [simp]: "fst (kv e) = ekview e" and snd_kv [simp]: "snd (kv e) = evalue e"
  by (simp_all add: kv_def)

lemma map_fst_kv [simp]: "map (fst \<circ> kv) xs = map ekview xs"
  by (simp add: comp_def)

lemma dict_inv_new [simp]: "dict_inv (dict_new b)"
  and dict_map_new [simp]: "dict_map (dict_new b) = Map.empty"
  by (simp_all add: dict_inv_def dict_new_def dict_map_def dict_entries_def is_rehashing_def)

lemma dict_invD:
  assumes "dict_inv d"
  shows "ht_inv (dict_hash d) (ht0 d)" and "ht_inv (dict_hash d) (ht1 d)" and "\<not> ht_is_null (ht0 d)"
    and "\<not> oob d" and "distinct (map ekview (dict_entries d))"
    and "is_rehashing d \<Longrightarrow> \<not> ht_is_null (ht1 d)"
    and "\<not> is_rehashing d \<Longrightarrow> rehashidx d = - 1" and "\<not> is_rehashing d \<Longrightarrow> ht1 d = ht_null_table"
  using assms by (auto simp: dict_inv_def split: if_splits)

lemma dict_map_Some_iff:
  assumes "dict_inv d"
  shows "dict_map d k = Some v \<longleftrightarrow> (\<exists>e\<in>set (dict_entries d). ekview e = k \<and> evalue e = v)"
proof -
  have "distinct (map fst (map kv (dict_entries d)))" using dict_invD(5) [OF assms] by simp
  then show ?thesis
    unfolding dict_map_def by (subst map_of_eq_Some_iff) (auto simp: kv_def image_iff)
qed

lemma dict_map_None_iff: "dict_map d k = None \<longleftrightarrow> k \<notin> ekview ` set (dict_entries d)"
  by (simp add: dict_map_def map_of_eq_None_iff image_comp comp_def)

text \<open>What the key operations do not touch.\<close>

definition same_frame :: "'v dict \<Rightarrow> 'v dict \<Rightarrow> bool" where
  "same_frame d d' \<longleftrightarrow> hash_key d' = hash_key d \<and> has_deleter d' = has_deleter d"

definition same_content :: "'v dict \<Rightarrow> 'v dict \<Rightarrow> bool" where
  "same_content d d' \<longleftrightarrow>
     dict_inv d' \<and> mset (dict_entries d') = mset (dict_entries d) \<and> same_frame d d' \<and> freed d' = freed d"

lemma dict_hash_frame: "same_frame d d' \<Longrightarrow> dict_hash d' = dict_hash d"
  by (simp add: same_frame_def dict_hash_def fun_eq_iff)

lemma same_content_refl: "dict_inv d \<Longrightarrow> same_content d d"
  by (simp add: same_content_def same_frame_def)

lemma same_content_trans: "same_content a b \<Longrightarrow> same_content b c \<Longrightarrow> same_content a c"
  by (auto simp: same_content_def same_frame_def)

lemma dict_map_mset:
  assumes "dict_inv d" "mset (dict_entries d') = mset (dict_entries d)"
  shows "dict_map d' = dict_map d"
proof -
  have "distinct (map fst (map kv (dict_entries d)))" using dict_invD(5) [OF assms(1)] by simp
  moreover have "mset (map kv (dict_entries d)) = mset (map kv (dict_entries d'))"
    using assms(2) by simp
  ultimately show ?thesis using map_of_mset_eq unfolding dict_map_def by metis
qed

lemma same_content_map: "dict_inv d \<Longrightarrow> same_content d d' \<Longrightarrow> dict_map d' = dict_map d"
  using dict_map_mset by (auto simp: same_content_def)

lemma distinct_views_mset:
  "mset xs = mset ys \<Longrightarrow> distinct (map ekview xs) \<longleftrightarrow> distinct (map ekview ys)"
  by (metis mset_eq_imp_distinct_iff mset_map)

lemma dict_hash_tables [simp]:
  "dict_hash (d\<lparr>ht0 := a\<rparr>) = dict_hash d" "dict_hash (d\<lparr>ht1 := b\<rparr>) = dict_hash d"
  "dict_hash (d\<lparr>rehashidx := i\<rparr>) = dict_hash d" "dict_hash (d\<lparr>freed := f\<rparr>) = dict_hash d"
  by (simp_all add: dict_hash_def fun_eq_iff)

section \<open>Rehashing\<close>

lemma skip_empty_facts:
  assumes "\<exists>j\<ge>i. j < length bs \<and> bs ! j \<noteq> []"
  shows "case skip_empty bs i lm of
           SkipFound j l \<Rightarrow> i \<le> j \<and> j < length bs \<and> bs ! j \<noteq> [] \<and> (\<forall>k. i \<le> k \<and> k < j \<longrightarrow> bs ! k = [])
         | SkipLimit j \<Rightarrow> i < j \<and> j \<le> length bs \<and> (\<forall>k. i \<le> k \<and> k < j \<longrightarrow> bs ! k = [])
         | SkipOutOfBounds \<Rightarrow> False"
  using assms
proof (induction bs i lm rule: skip_empty.induct)
  case (1 bs i lm)
  then have i: "i < length bs" by auto
  show ?case
  proof (cases "bs ! i \<noteq> [] \<or> lm - 1 = 0")
    case True
    then show ?thesis using i by (auto simp: skip_empty.simps [of bs i lm] le_less_Suc_eq)
  next
    case False
    have ex: "\<exists>j\<ge>i + 1. j < length bs \<and> bs ! j \<noteq> []"
    proof -
      obtain j where "j \<ge> i" "j < length bs" "bs ! j \<noteq> []" using 1(2) by blast
      moreover have "j \<noteq> i" using calculation False by auto
      ultimately show ?thesis by (intro exI [of _ j]) simp
    qed
    have step: "skip_empty bs i lm = skip_empty bs (i + 1) (lm - 1)"
      using i False by (simp add: skip_empty.simps [of bs i lm])
    have "(\<forall>k. i + 1 \<le> k \<and> k < j \<longrightarrow> bs ! k = []) \<Longrightarrow> (\<forall>k. i \<le> k \<and> k < j \<longrightarrow> bs ! k = [])" for j
      using False by (metis Suc_eq_plus1 le_antisym not_less_eq_eq)
    then show ?thesis
      using 1(1) [OF _ _ _ ex] i False unfolding step
      by (fastforce split: skip_result.splits)
  qed
qed

lemma nonempty_bucket_ahead:
  assumes inv: "dict_inv d" and r: "is_rehashing d" and u: "used (ht0 d) \<noteq> 0"
  shows "\<exists>j\<ge>nat (rehashidx d). j < length (bucket_list (ht0 d)) \<and> bucket_list (ht0 d) ! j \<noteq> []"
proof -
  have "ht_entries (ht0 d) \<noteq> []" using inv u by (auto simp: dict_inv_def ht_inv_def)
  then obtain e where "e \<in> set (ht_entries (ht0 d))" by (cases "ht_entries (ht0 d)") auto
  then obtain j where j: "j < length (bucket_list (ht0 d))" "e \<in> set (bucket (ht0 d) j)"
    unfolding in_entries_iff by blast
  then have "bucket_list (ht0 d) ! j \<noteq> []" by (auto simp: bucket_def)
  moreover from this have "nat (rehashidx d) \<le> j"
    using inv r by (auto simp: dict_inv_def not_less [symmetric])
  ultimately show ?thesis using j(1) by blast
qed

lemma set_rehashidx:
  assumes inv: "dict_inv d" and r: "is_rehashing d" and j: "nat (rehashidx d) \<le> j" "j \<le> ht_size (ht0 d)"
    and e: "\<forall>k. nat (rehashidx d) \<le> k \<and> k < j \<longrightarrow> bucket_list (ht0 d) ! k = []"
  shows "dict_inv (d\<lparr>rehashidx := int j\<rparr>)"
proof -
  have "bucket_list (ht0 d) ! k = []" if "k < j" for k
    using that e inv r by (cases "k < nat (rehashidx d)") (auto simp: dict_inv_def)
  then show ?thesis
    using inv r j by (simp add: dict_inv_def is_rehashing_def dict_entries_def)
qed

text \<open>Migrating the chain of bucket \<open>i\<close>, the body of the outer loop.\<close>

definition migrate_bucket :: "'v dict \<Rightarrow> nat \<Rightarrow> 'v dict" where
  "migrate_bucket d i =
     (case migrate_chain (bucket (ht0 d) i) (ht0 d) (ht1 d) of
        (t0, t1) \<Rightarrow> d\<lparr>ht0 := set_bucket t0 i [], ht1 := t1, rehashidx := int i + 1\<rparr>)"

lemma migrate_bucket_facts:
  assumes inv: "dict_inv d" and r: "is_rehashing d"
    and i: "nat (rehashidx d) \<le> i" "i < length (bucket_list (ht0 d))"
    and e: "\<forall>k. nat (rehashidx d) \<le> k \<and> k < i \<longrightarrow> bucket_list (ht0 d) ! k = []"
  shows "same_content d (migrate_bucket d i)" and "is_rehashing (migrate_bucket d i)"
    and "rehashidx (migrate_bucket d i) = int i + 1"
    and "ht_size (ht0 (migrate_bucket d i)) = ht_size (ht0 d)"
proof -
  let ?K = "dict_hash d" and ?c = "bucket (ht0 d) i"
  obtain t0 t1 where m: "migrate_chain ?c (ht0 d) (ht1 d) = (t0, t1)" by fastforce
  note inv0 = dict_invD(1) [OF inv] and inv1 = dict_invD(2) [OF inv] and nn0 = dict_invD(3) [OF inv]
    and nn1 = dict_invD(6) [OF inv r]
  have "\<forall>e\<in>set ?c. entry_ok ?K e" using chain_ok [OF inv0 i(2)] by blast
  note mc = migrate_chain_facts [OF inv1 nn1 this m]
  define s0 where "s0 = (set_bucket (ht0 d) i [])\<lparr>used := used (ht0 d) - length ?c\<rparr>"
  have s0: "set_bucket t0 i [] = s0" by (simp add: mc(1) s0_def set_bucket_def)
  have le: "length ?c \<le> used (ht0 d)"
    using length_concat_update [OF i(2), of "[]"] inv0
    by (simp add: ht_inv_def ht_entries_def bucket_def)
  have s0_inv: "ht_inv ?K s0"
    and s0_ms: "mset (ht_entries s0) + mset ?c = mset (ht_entries (ht0 d))"
    using ht_replace_chain [OF inv0 nn0 i(2), of "[]" "used (ht0 d) - length ?c"] le
    by (simp_all add: s0_def)
  let ?d = "migrate_bucket d i"
  have d: "?d = d\<lparr>ht0 := s0, ht1 := t1, rehashidx := int i + 1\<rparr>"
    by (simp add: migrate_bucket_def m s0)
  have hash: "dict_hash ?d = ?K" by (simp add: d dict_hash_def fun_eq_iff)
  have ms: "mset (dict_entries ?d) = mset (dict_entries d)"
    using mc(4) s0_ms by (simp add: d dict_entries_def ac_simps)
  have size: "ht_size s0 = ht_size (ht0 d)" by (simp add: s0_def)
  have len: "length (bucket_list (ht0 d)) = ht_size (ht0 d)"
    using inv0 length_bucket_list by (auto simp: ht_inv_def)
  have emp: "bucket_list s0 ! k = []" if "k < i + 1" for k
  proof (cases "k = i")
    case True then show ?thesis using i by (simp add: s0_def)
  next
    case False
    then have "bucket_list (ht0 d) ! k = []"
      using that e inv r by (cases "k < nat (rehashidx d)") (auto simp: dict_inv_def)
    then show ?thesis using False by (simp add: s0_def)
  qed
  show r': "is_rehashing ?d" and "rehashidx ?d = int i + 1" and "ht_size (ht0 ?d) = ht_size (ht0 d)"
    using size by (simp_all add: d is_rehashing_def)
  have "dict_inv ?d"
    unfolding dict_inv_def hash
    using r' s0_inv mc(2,3) nn0 dict_invD(4,5) [OF inv] distinct_views_mset [OF ms] size len i(2) emp
    by (simp add: d nat_add_distrib) (simp add: s0_def)
  then show "same_content d ?d"
    using ms by (simp add: same_content_def same_frame_def) (simp add: d)
qed

lemma rehash_loop_facts:
  assumes "dict_inv d" "is_rehashing d" "rehash_loop n lm d = (d', early)"
  shows "same_content d d' \<and> is_rehashing d' \<and> rehashidx d \<le> rehashidx d' \<and>
    ht_size (ht0 d') = ht_size (ht0 d) \<and>
    (0 < n \<and> used (ht0 d) \<noteq> 0 \<longrightarrow> rehashidx d < rehashidx d')"
  using assms
proof (induction n arbitrary: d lm)
  case 0
  then show ?case using same_content_refl by auto
next
  case (Suc n)
  let ?i = "nat (rehashidx d)" and ?bs = "bucket_list (ht0 d)"
  show ?case
  proof (cases "used (ht0 d) = 0")
    case True
    then show ?thesis using Suc.prems same_content_refl by auto
  next
    case False
    have len: "length ?bs = ht_size (ht0 d)"
      using dict_invD(1) [OF Suc.prems(1)] length_bucket_list by (auto simp: ht_inv_def)
    have r: "0 \<le> rehashidx d" using Suc.prems(2) by (simp add: is_rehashing_def)
    note sk = skip_empty_facts [OF nonempty_bucket_ahead [OF Suc.prems(1,2) False], of lm]
    show ?thesis
    proof (cases "skip_empty ?bs ?i lm")
      case (SkipFound i l)
      with sk have i: "?i \<le> i" "i < length ?bs" "\<forall>k. ?i \<le> k \<and> k < i \<longrightarrow> ?bs ! k = []" by auto
      note m = migrate_bucket_facts [OF Suc.prems(1,2) i]
      have "rehash_loop n l (migrate_bucket d i) = (d', early)"
        using Suc.prems(3) False SkipFound by (simp add: migrate_bucket_def split: prod.splits)
      from Suc.IH [OF _ m(2) this] m
      have "same_content (migrate_bucket d i) d' \<and> is_rehashing d' \<and>
          int i + 1 \<le> rehashidx d' \<and> ht_size (ht0 d') = ht_size (ht0 d)"
        by (auto simp: same_content_def)
      then show ?thesis using m(1) same_content_trans i(1) r by fastforce
    next
      case (SkipLimit j)
      with sk have j: "?i < j" "j \<le> length ?bs" "\<forall>k. ?i \<le> k \<and> k < j \<longrightarrow> ?bs ! k = []" by auto
      have d': "d' = d\<lparr>rehashidx := int j\<rparr>"
        using Suc.prems(3) False SkipLimit by simp
      have "dict_inv d'"
        using set_rehashidx [OF Suc.prems(1,2) _ _ j(3)] j len by (simp add: d')
      moreover have "rehashidx d < int j" using j(1) r by linarith
      ultimately show ?thesis
        by (simp add: same_content_def same_frame_def)
          (simp add: d' dict_entries_def is_rehashing_def)
    next
      case SkipOutOfBounds
      with sk show ?thesis by simp
    qed
  qed
qed

lemma finish_rehash:
  assumes "dict_inv d" "is_rehashing d" "used (ht0 d) = 0"
  shows "same_content d (d\<lparr>ht0 := ht1 d, ht1 := ht_null_table, rehashidx := - 1\<rparr>)"
proof -
  have "ht_entries (ht0 d) = []" using assms by (auto simp: dict_inv_def ht_inv_def)
  then show ?thesis
    using assms by (simp add: same_content_def same_frame_def dict_inv_def dict_entries_def is_rehashing_def)
qed

lemma rehash_step_same:
  assumes "dict_inv d"
  shows "same_content d (fst (rehash_step n d))"
proof (cases "is_rehashing d")
  case False
  then show ?thesis using assms same_content_refl by (auto simp: rehash_step_def)
next
  case True
  obtain d' early where l: "rehash_loop n (int n * 10) d = (d', early)" by fastforce
  note f = rehash_loop_facts [OF assms True l]
  then have "dict_inv d'" by (auto simp: same_content_def)
  then show ?thesis
    using f finish_rehash [of d'] same_content_trans True l by (auto simp: rehash_step_def)
qed

lemma rehash_if_needed_same: "dict_inv d \<Longrightarrow> same_content d (rehash_if_needed d)"
  using rehash_step_same same_content_refl by (auto simp: rehash_if_needed_def)

text \<open>
  Each call makes progress, so a rehash of a table with \<open>n\<close> buckets is over after at most
  \<open>n + 1\<close> calls.
\<close>

definition rehash_left :: "'v dict \<Rightarrow> nat" where
  "rehash_left d = (if is_rehashing d then ht_size (ht0 d) + 1 - nat (rehashidx d) else 0)"

lemma rehash_step_progress:
  assumes "dict_inv d" "is_rehashing d" "0 < n"
  shows "rehash_left (fst (rehash_step n d)) < rehash_left d"
proof -
  obtain d' early where l: "rehash_loop n (int n * 10) d = (d', early)" by fastforce
  note f = rehash_loop_facts [OF assms(1,2) l]
  have left: "0 < rehash_left d"
    using assms by (auto simp: rehash_left_def dict_inv_def)
  show ?thesis
  proof (cases "\<not> early \<and> used (ht0 d') = 0")
    case True
    then have "\<not> is_rehashing (fst (rehash_step n d))"
      using assms(2) l by (simp add: rehash_step_def is_rehashing_def)
    then show ?thesis using left by (simp add: rehash_left_def)
  next
    case False
    then have d': "fst (rehash_step n d) = d'" using assms(2) l by (auto simp: rehash_step_def)
    have "used (ht0 d) \<noteq> 0"
    proof
      assume z: "used (ht0 d) = 0"
      then have "rehash_loop n (int n * 10) d = (d, False)" using assms(3) by (cases n) auto
      with l False z show False by simp
    qed
    with f assms(3) have "rehashidx d < rehashidx d'" "is_rehashing d'" "ht_size (ht0 d') = ht_size (ht0 d)"
      "dict_inv d'" by (auto simp: same_content_def)
    then show ?thesis
      using assms(1,2) unfolding d' by (auto simp: rehash_left_def dict_inv_def is_rehashing_def)
  qed
qed

lemma rehash_completes:
  assumes "dict_inv d" "0 < n"
  shows "\<not> is_rehashing (((\<lambda>d. fst (rehash_step n d)) ^^ rehash_left d) d)"
  using assms(1)
proof (induction "rehash_left d" arbitrary: d rule: less_induct)
  case less
  let ?f = "\<lambda>d. fst (rehash_step n d)"
  have idle: "\<not> is_rehashing ((?f ^^ m) d)" if "\<not> is_rehashing d" for m and d :: "'a dict"
    using that by (induction m) (auto simp: rehash_step_def)
  show ?case
  proof (cases "is_rehashing d")
    case False
    then show ?thesis by (rule idle)
  next
    case True
    let ?d = "?f d"
    have lt: "rehash_left ?d < rehash_left d" by (rule rehash_step_progress [OF less.prems True assms(2)])
    have "dict_inv ?d" using rehash_step_same [OF less.prems, of n] by (simp add: same_content_def)
    with less.hyps [OF lt] have "\<not> is_rehashing ((?f ^^ rehash_left ?d) ?d)" .
    then have "\<not> is_rehashing ((?f ^^ (rehash_left d - 1 - rehash_left ?d)) ((?f ^^ rehash_left ?d) ?d))"
      by (rule idle)
    moreover have "(?f ^^ (rehash_left d - 1 - rehash_left ?d)) ((?f ^^ rehash_left ?d) ?d)
        = (?f ^^ rehash_left d) d"
    proof -
      have "rehash_left d = Suc ((rehash_left d - 1 - rehash_left ?d) + rehash_left ?d)" using lt by simp
      then show ?thesis by (metis comp_apply funpow_Suc_right funpow_add)
    qed
    ultimately show ?thesis by simp
  qed
qed

end
