(* ===== verification/DictOps.thy ===== *)
theory DictOps
  imports DictMap
begin

text \<open>
  The operations of the dictionary against the map they implement: lookup (both overloads),
  insertion and removal, with what each hands to the value deleter.
\<close>

section \<open>Lookup\<close>

definition flat :: "'v option option \<Rightarrow> 'v option" where
  "flat x = (case x of Some v \<Rightarrow> v | None \<Rightarrow> None)"

lemma flat_simps [simp]: "flat None = None" "flat (Some v) = v"
  by (simp_all add: flat_def)

lemma find_in_null [simp]: "find_in ht_null_table k h = None"
  by (simp add: find_in_def)

lemma find_in_map:
  assumes inv: "dict_inv d"
  shows "find_in (ht0 d) k (dict_hash d k) = Some e \<Longrightarrow> dict_map d k = Some (evalue e)"
    and "find_in (ht1 d) k (dict_hash d k) = Some e \<Longrightarrow> dict_map d k = Some (evalue e)"
    and "find_in (ht0 d) k (dict_hash d k) = None \<Longrightarrow> find_in (ht1 d) k (dict_hash d k) = None \<Longrightarrow>
         dict_map d k = None"
proof -
  note inv0 = dict_invD(1) [OF inv] and inv1 = dict_invD(2) [OF inv]
  show "dict_map d k = Some (evalue e)" if "find_in (ht0 d) k (dict_hash d k) = Some e"
    unfolding dict_map_Some_iff [OF inv]
    by (intro bexI [of _ e]) (use find_in_SomeD [OF inv0 that] in \<open>simp_all add: dict_entries_def\<close>)
  show "dict_map d k = Some (evalue e)" if "find_in (ht1 d) k (dict_hash d k) = Some e"
    unfolding dict_map_Some_iff [OF inv]
    by (intro bexI [of _ e]) (use find_in_SomeD [OF inv1 that] in \<open>simp_all add: dict_entries_def\<close>)
  show "dict_map d k = None"
    if "find_in (ht0 d) k (dict_hash d k) = None" "find_in (ht1 d) k (dict_hash d k) = None"
    unfolding dict_map_None_iff dict_entries_def
    using find_in_NoneD [OF inv0 that(1)] find_in_NoneD [OF inv1 that(2)] by auto
qed

lemma dict_get_const_eq: "dict_inv d \<Longrightarrow> dict_get_const d k = flat (dict_map d k)"
  using find_in_map [of d k] dict_invD(8) [of d]
  by (auto simp: dict_get_const_def Let_def split: option.splits)

lemma dict_get_unfold: "dict_get d k = (rehash_if_needed d, dict_get_const (rehash_if_needed d) k)"
  by (simp add: dict_get_def dict_get_const_def Let_def)

lemma rehash_if_needed_inv: "dict_inv d \<Longrightarrow> dict_inv (rehash_if_needed d)"
  using rehash_if_needed_same [of d] by (simp add: same_content_def)

lemma dict_get_eq:
  assumes "dict_inv d"
  shows "snd (dict_get d k) = flat (dict_map d k)" and "same_content d (fst (dict_get d k))"
  using rehash_if_needed_same [OF assms] same_content_map [OF assms]
  by (simp_all add: dict_get_unfold dict_get_const_eq rehash_if_needed_inv [OF assms])

lemma dict_exists_eq: "dict_inv d \<Longrightarrow> dict_exists d k \<longleftrightarrow> flat (dict_map d k) \<noteq> None"
  by (simp add: dict_exists_def dict_get_const_eq)

section \<open>Multisets of entries and the map\<close>

lemma dict_map_insert:
  assumes "distinct (map ekview (dict_entries d'))" "mset (dict_entries d') = add_mset e (mset (dict_entries d))"
  shows "dict_map d' = (dict_map d)(ekview e \<mapsto> evalue e)"
proof -
  have "mset (map kv (dict_entries d')) = mset (map kv (e # dict_entries d))" using assms(2) by simp
  moreover have "distinct (map fst (map kv (dict_entries d')))" using assms(1) by simp
  ultimately have "dict_map d' = map_of (map kv (e # dict_entries d))"
    unfolding dict_map_def using map_of_mset_eq by blast
  then show ?thesis by (simp add: dict_map_def kv_def)
qed

lemma dict_map_remove:
  assumes "distinct (map ekview (dict_entries d))" "mset (dict_entries d) = add_mset e (mset (dict_entries d'))"
  shows "dict_map d' = (dict_map d)(ekview e := None)" and "dict_map d (ekview e) = Some (evalue e)"
proof -
  have ins: "dict_map d = (dict_map d')(ekview e \<mapsto> evalue e)" using dict_map_insert [OF assms] .
  have "mset (map ekview (dict_entries d)) = mset (map ekview (e # dict_entries d'))"
    using assms(2) by simp
  then have "distinct (map ekview (e # dict_entries d'))"
    using assms(1) mset_eq_imp_distinct_iff by blast
  then have "dict_map d' (ekview e) = None"
    by (simp add: dict_map_None_iff image_iff)
  then show "dict_map d' = (dict_map d)(ekview e := None)" by (simp add: ins fun_upd_idem)
  show "dict_map d (ekview e) = Some (evalue e)" by (simp add: ins)
qed

lemma dict_map_replace:
  assumes d: "distinct (map ekview (dict_entries d))"
    and ms: "mset (dict_entries d) = add_mset e M" "mset (dict_entries d') = add_mset (e\<lparr>evalue := v\<rparr>) M"
  shows "dict_map d' = (dict_map d)(ekview e \<mapsto> v)" and "distinct (map ekview (dict_entries d'))"
proof -
  obtain xs where xs: "M = mset xs" using ex_mset [of M] by auto
  have "mset (map ekview (dict_entries d')) = mset (map ekview (dict_entries d))"
    using ms by simp
  then show d': "distinct (map ekview (dict_entries d'))"
    using d mset_eq_imp_distinct_iff by blast
  have "dict_map d' = map_of (map kv (e\<lparr>evalue := v\<rparr> # xs))"
    unfolding dict_map_def using d' ms(2) xs by (intro map_of_mset_eq) simp_all
  moreover have "dict_map d = map_of (map kv (e # xs))"
    unfolding dict_map_def using d ms(1) xs by (intro map_of_mset_eq) simp_all
  ultimately show "dict_map d' = (dict_map d)(ekview e \<mapsto> v)" by (simp add: kv_def)
qed

section \<open>Exchanging one table\<close>

lemma dict_inv_ht0:
  assumes "dict_inv d" "ht_inv (dict_hash d) t" "\<not> ht_is_null t"
    and "is_rehashing d \<Longrightarrow> ht_size t = ht_size (ht0 d)"
    and "is_rehashing d \<Longrightarrow> \<forall>i. bucket_list (ht0 d) ! i = [] \<longrightarrow> bucket_list t ! i = []"
    and "distinct (map ekview (dict_entries (d\<lparr>ht0 := t\<rparr>)))"
  shows "dict_inv (d\<lparr>ht0 := t\<rparr>)"
  using assms by (simp add: dict_inv_def is_rehashing_def split: if_splits)

lemma dict_inv_ht1:
  assumes "dict_inv d" "is_rehashing d" "ht_inv (dict_hash d) t" "\<not> ht_is_null t"
    and "distinct (map ekview (dict_entries (d\<lparr>ht1 := t\<rparr>)))"
  shows "dict_inv (d\<lparr>ht1 := t\<rparr>)"
  using assms by (simp add: dict_inv_def is_rehashing_def)

definition opt_list :: "'v option \<Rightarrow> 'v list" where
  "opt_list v = (case v of None \<Rightarrow> [] | Some x \<Rightarrow> [x])"

lemma opt_list_simps [simp]: "opt_list None = []" "opt_list (Some x) = [x]"
  by (simp_all add: opt_list_def)

lemma release_alt: "release v d = d\<lparr>freed := freed d @ (if has_deleter d then opt_list v else [])\<rparr>"
  by (simp add: release_def split: option.split)

lemma freed_simps [simp]:
  "dict_inv (d\<lparr>freed := f\<rparr>) = dict_inv d" "dict_map (d\<lparr>freed := f\<rparr>) = dict_map d"
  "dict_entries (d\<lparr>freed := f\<rparr>) = dict_entries d" "is_rehashing (d\<lparr>freed := f\<rparr>) = is_rehashing d"
  by (simp_all add: dict_inv_def dict_map_def dict_entries_def is_rehashing_def)

lemma release_simps [simp]:
  "dict_inv (release v d) = dict_inv d" "dict_map (release v d) = dict_map d"
  "is_rehashing (release v d) = is_rehashing d" "dict_hash (release v d) = dict_hash d"
  "ht0 (release v d) = ht0 d" "ht1 (release v d) = ht1 d"
  by (simp_all add: release_alt)

lemma dict_entries_tables:
  "dict_entries (d\<lparr>ht0 := t\<rparr>) = ht_entries t @ ht_entries (ht1 d)"
  "dict_entries (d\<lparr>ht1 := t\<rparr>) = ht_entries (ht0 d) @ ht_entries t"
  by (simp_all add: dict_entries_def)

section \<open>Growing and shrinking\<close>

lemma start_rehash_same:
  assumes "dict_inv d" "\<not> is_rehashing d" "is_pow2 n"
  shows "same_content d (d\<lparr>ht1 := ht_allocate n, rehashidx := 0\<rparr>)"
  using assms by (simp add: same_content_def same_frame_def dict_inv_def dict_entries_def is_rehashing_def)

lemma maybe_expand_same: "dict_inv d \<Longrightarrow> same_content d (maybe_expand d)"
  and maybe_shrink_same: "dict_inv d \<Longrightarrow> same_content d (maybe_shrink d)"
  using start_rehash_same same_content_refl by (auto simp: maybe_expand_def maybe_shrink_def)

section \<open>Insertion\<close>

definition set_done :: "'v dict \<Rightarrow> string \<Rightarrow> 'v option \<Rightarrow> 'v dict \<Rightarrow> bool \<Rightarrow> bool" where
  "set_done d k v d' b \<longleftrightarrow>
     dict_inv d' \<and> dict_map d' = (dict_map d)(k \<mapsto> v) \<and> b = (dict_map d k = None) \<and> same_frame d d' \<and>
     freed d' = freed d @ (if has_deleter d then opt_list (flat (dict_map d k)) else [])"

lemma set_by_replacing:
  assumes inv: "dict_inv d" "dict_inv x" "same_frame d x" "freed x = freed d"
    and ms: "mset (dict_entries d) = add_mset e R" "mset (dict_entries x) = add_mset (e\<lparr>evalue := v\<rparr>) R"
    and e: "ekview e = k" "dict_map d k = Some (evalue e)"
  shows "set_done d k v (release (evalue e) x) False"
  using dict_map_replace(1) [OF dict_invD(5) [OF inv(1)] ms] assms
  by (simp add: set_done_def same_frame_def) (simp add: release_alt)

lemma set_by_inserting:
  assumes inv: "dict_inv d" "distinct (map ekview (dict_entries x)) \<Longrightarrow> dict_inv x" "same_frame d x" "freed x = freed d"
    and ms: "mset (dict_entries x) = add_mset e (mset (dict_entries d))"
    and e: "ekview e = k" "evalue e = v" "dict_map d k = None"
  shows "set_done d k v (maybe_expand x) True"
proof -
  have "k \<notin> ekview ` set (dict_entries d)" using e(3) by (simp add: dict_map_None_iff)
  then have "distinct (map ekview (e # dict_entries d))" using dict_invD(5) [OF inv(1)] e(1) by simp
  then have dis: "distinct (map ekview (dict_entries x))"
    using distinct_views_mset [of "e # dict_entries d" "dict_entries x"] ms by simp
  note x = inv(2) [OF dis] and ex = maybe_expand_same [OF inv(2) [OF dis]]
  have "dict_map (maybe_expand x) = (dict_map d)(k \<mapsto> v)"
    using same_content_map [OF x ex] dict_map_insert [OF dis ms] e by simp
  then show ?thesis using ex e(3) inv(3,4) by (simp add: set_done_def same_content_def same_frame_def)
qed

lemma dict_set_core:
  assumes inv: "dict_inv d" and idem: "rehash_if_needed d0 = d" and s: "dict_set d0 k v = (d', b)"
  shows "set_done d k v d' b"
proof (cases "find_in (ht0 d) k (dict_hash d k)")
  case (Some e)
  note inv0 = dict_invD(1) [OF inv] and st = ht_store_facts [OF dict_invD(1) [OF inv] Some, of v]
  let ?x = "d\<lparr>ht0 := store_in (ht0 d) k (dict_hash d k) v\<rparr>"
  have d': "d' = release (evalue e) ?x" "b = False"
    using s Some by (auto simp: dict_set_def idem Let_def release_alt split: if_splits)
  from st(2) obtain M where "mset (ht_entries (ht0 d)) = add_mset e M"
    "mset (ht_entries (store_in (ht0 d) k (dict_hash d k) v)) = add_mset (e\<lparr>evalue := v\<rparr>) M" by blast
  then have ms: "mset (dict_entries d) = add_mset e (M + mset (ht_entries (ht1 d)))"
    "mset (dict_entries ?x) = add_mset (e\<lparr>evalue := v\<rparr>) (M + mset (ht_entries (ht1 d)))"
    by (simp_all add: dict_entries_def)
  have "dict_inv ?x"
    using inv st dict_map_replace(2) [OF dict_invD(5) [OF inv] ms] dict_invD(3) [OF inv]
    by (intro dict_inv_ht0) simp_all
  then show ?thesis
    unfolding d' using find_in_SomeD [OF inv0 Some] find_in_map(1) [OF inv Some]
    by (intro set_by_replacing [OF inv _ _ _ ms]) (simp_all add: same_frame_def)
next
  case None
  let ?K = "dict_hash d" and ?h = "dict_hash d k"
  define target where "target = (if is_rehashing d then ht1 d else ht0 d)"
  define put where "put = (\<lambda>t. if is_rehashing d then d\<lparr>ht1 := t\<rparr> else d\<lparr>ht0 := t\<rparr>)"
  define other where "other = (if is_rehashing d then ht_entries (ht0 d) else [])"
  have tinv: "ht_inv ?K target" "\<not> ht_is_null target"
    using dict_invD(1,2,3,6) [OF inv] by (auto simp: target_def)
  have ents: "mset (dict_entries d) = mset (ht_entries target) + mset other"
    "mset (dict_entries (put t)) = mset (ht_entries t) + mset other" for t
    using dict_invD(8) [OF inv] by (auto simp: target_def put_def other_def dict_entries_def ac_simps)
  have put_inv: "dict_inv (put t)"
    if "ht_inv ?K t" "\<not> ht_is_null t" "distinct (map ekview (dict_entries (put t)))" for t
    using that inv dict_inv_ht0 [OF inv] dict_inv_ht1 [OF inv] by (auto simp: put_def split: if_splits)
  have frame: "same_frame d (put t)" "freed (put t) = freed d" for t by (simp_all add: put_def same_frame_def)
  have found: "find_in target k ?h = None \<Longrightarrow> dict_map d k = None"
    "find_in target k ?h = Some e \<Longrightarrow> dict_map d k = Some (evalue e)" for e
    using None find_in_map [OF inv] dict_invD(8) [OF inv] by (auto simp: target_def split: if_splits)
  have eq: "dict_set d0 k v =
      (case find_in target k ?h of
         Some e \<Rightarrow> (release (evalue e) (put (store_in target k ?h v)), False)
       | None \<Rightarrow> (maybe_expand (put (ht_prepend target \<lparr>ekey = buf_of_sv k, evalue = v, ehash = ?h\<rparr>)), True))"
    unfolding dict_set_def idem Let_def target_def put_def
    using None by (cases "is_rehashing d") (simp_all add: release_alt split: option.split)
  show ?thesis
  proof (cases "find_in target k ?h")
    case (Some e)
    note st = ht_store_facts [OF tinv(1) Some, of v]
    let ?x = "put (store_in target k ?h v)"
    from st(2) obtain M where "mset (ht_entries target) = add_mset e M"
      "mset (ht_entries (store_in target k ?h v)) = add_mset (e\<lparr>evalue := v\<rparr>) M" by blast
    then have ms: "mset (dict_entries d) = add_mset e (M + mset other)"
      "mset (dict_entries ?x) = add_mset (e\<lparr>evalue := v\<rparr>) (M + mset other)"
      using ents by simp_all
    have x: "dict_inv ?x" using put_inv st dict_map_replace(2) [OF dict_invD(5) [OF inv] ms] tinv by simp
    have "set_done d k v (release (evalue e) ?x) False"
      using find_in_SomeD [OF tinv(1) Some] found(2) [OF Some]
      by (intro set_by_replacing [OF inv x frame ms]) simp_all
    then show ?thesis using s eq Some by simp
  next
    case none: None
    let ?e = "\<lparr>ekey = buf_of_sv k, evalue = v, ehash = ?h\<rparr>"
    have e: "entry_ok ?K ?e" "ekview ?e = k" by (simp_all add: entry_ok_def ekview_def)
    note pp = ht_prepend_facts [OF tinv e(1)]
    have ms: "mset (dict_entries (put (ht_prepend target ?e))) = add_mset ?e (mset (dict_entries d))"
      using pp(2) ents by simp
    have "set_done d k v (maybe_expand (put (ht_prepend target ?e))) True"
      using set_by_inserting [OF inv put_inv [OF pp(1,3)] frame ms e(2) _ found(1) [OF none], of v] by simp
    then show ?thesis using s eq none by simp
  qed
qed

lemma dict_set_eq:
  assumes inv: "dict_inv d" and s: "dict_set d k v = (d', b)"
  shows "dict_inv d'" and "dict_map d' = (dict_map d)(k \<mapsto> v)" and "b \<longleftrightarrow> dict_map d k = None"
    and "same_frame d d'"
    and "freed d' = freed d @ (if has_deleter d then opt_list (flat (dict_map d k)) else [])"
proof -
  note sc = rehash_if_needed_same [OF inv]
  have m: "dict_map (rehash_if_needed d) = dict_map d" by (rule same_content_map [OF inv sc])
  show "dict_inv d'" and "dict_map d' = (dict_map d)(k \<mapsto> v)" and "b \<longleftrightarrow> dict_map d k = None"
    and "same_frame d d'"
    and "freed d' = freed d @ (if has_deleter d then opt_list (flat (dict_map d k)) else [])"
    using dict_set_core [OF rehash_if_needed_inv [OF inv] refl s] sc
    by (auto simp: m set_done_def same_content_def same_frame_def)
qed

section \<open>Removal\<close>

lemma ht_unlink_None_find: "ht_unlink t k h = None \<longleftrightarrow> find_in t k h = None"
  using ht_unlink_find [of t k h] by (cases "ht_unlink t k h"; cases "find_in t k h") simp_all

lemma dict_del_core:
  assumes inv: "dict_inv d" and idem: "rehash_if_needed d0 = d" and s: "dict_del d0 k = (d', b)"
  shows "dict_inv d' \<and> dict_map d' = (dict_map d)(k := None) \<and> b = (dict_map d k \<noteq> None) \<and> same_frame d d' \<and>
    freed d' = freed d @ (if has_deleter d then opt_list (flat (dict_map d k)) else [])"
proof -
  let ?K = "dict_hash d" and ?h = "dict_hash d k"
  note inv0 = dict_invD(1) [OF inv] and inv1 = dict_invD(2) [OF inv] and dis = dict_invD(5) [OF inv]
  have finish: ?thesis
    if x: "dict_inv x" and ms: "mset (dict_entries d) = add_mset e (mset (dict_entries x))"
      and key: "ekview e = k" and d': "d' = maybe_shrink x" "b = True" and fr: "same_frame d x"
      and f: "freed x = freed d @ (if has_deleter d then opt_list (evalue e) else [])" for x e
  proof -
    note sh = maybe_shrink_same [OF x]
    have "dict_map d' = (dict_map d)(k := None)"
      using same_content_map [OF x sh] dict_map_remove(1) [OF dis ms] key d' by simp
    moreover have "dict_map d k = Some (evalue e)" using dict_map_remove(2) [OF dis ms] key by simp
    ultimately show ?thesis
      using sh fr f d' by (simp add: same_content_def same_frame_def)
  qed
  have sub: "distinct (map ekview xs)" if "mset (dict_entries d) = add_mset e (mset xs)" for e xs
    using that dis distinct_views_mset [of "dict_entries d" "e # xs"] by simp
  show ?thesis
  proof (cases "ht_unlink (ht0 d) k ?h")
    case (Some r)
    then obtain e t where u: "ht_unlink (ht0 d) k ?h = Some (e, t)" by (cases r) auto
    note un = ht_unlink_Some [OF inv0 u]
    let ?x = "(release (evalue e) d)\<lparr>ht0 := t\<rparr>"
    have ms: "mset (dict_entries d) = add_mset e (mset (dict_entries ?x))"
      using un(2) by (simp add: dict_entries_def)
    have "dict_inv ?x"
      using inv un sub [OF ms] by (intro dict_inv_ht0) simp_all
    then show ?thesis
      by (rule finish [OF _ ms un(3)])
        (use s u in \<open>simp_all add: dict_del_def idem Let_def same_frame_def release_alt\<close>)
  next
    case None
    show ?thesis
    proof (cases "is_rehashing d \<and> ht_unlink (ht1 d) k ?h \<noteq> None")
      case True
      then obtain e t where u: "ht_unlink (ht1 d) k ?h = Some (e, t)" by auto
      note un = ht_unlink_Some [OF inv1 u]
      let ?x = "(release (evalue e) d)\<lparr>ht1 := t\<rparr>"
      have ms: "mset (dict_entries d) = add_mset e (mset (dict_entries ?x))"
        using un(2) by (simp add: dict_entries_def)
      have "dict_inv ?x"
        using inv un sub [OF ms] True by (intro dict_inv_ht1) simp_all
      then show ?thesis
        by (rule finish [OF _ ms un(3)])
          (use s None True u in \<open>simp_all add: dict_del_def idem Let_def same_frame_def release_alt
              split: if_splits\<close>)
    next
      case False
      then have "dict_del d0 k = (d, False)"
        unfolding dict_del_def idem Let_def None by (auto split: option.splits)
      with s have "d' = d" "b = False" by simp_all
      moreover have "dict_map d k = None"
        using find_in_map(3) [OF inv] None False dict_invD(8) [OF inv]
        by (auto simp: ht_unlink_None_find)
      ultimately show ?thesis using inv by (simp add: same_frame_def fun_upd_idem)
    qed
  qed
qed

lemma dict_del_eq:
  assumes inv: "dict_inv d" and s: "dict_del d k = (d', b)"
  shows "dict_inv d'" and "dict_map d' = (dict_map d)(k := None)" and "b \<longleftrightarrow> dict_map d k \<noteq> None"
    and "same_frame d d'"
    and "freed d' = freed d @ (if has_deleter d then opt_list (flat (dict_map d k)) else [])"
proof -
  note sc = rehash_if_needed_same [OF inv]
  have m: "dict_map (rehash_if_needed d) = dict_map d" by (rule same_content_map [OF inv sc])
  show "dict_inv d'" and "dict_map d' = (dict_map d)(k := None)" and "b \<longleftrightarrow> dict_map d k \<noteq> None"
    and "same_frame d d'"
    and "freed d' = freed d @ (if has_deleter d then opt_list (flat (dict_map d k)) else [])"
    using dict_del_core [OF rehash_if_needed_inv [OF inv] refl s] sc
    by (auto simp: m same_content_def same_frame_def)
qed

end
