(* ===== verification/DictIter.thy ===== *)
theory DictIter
  imports DictOps
begin

text \<open>
  Whole-table operations of the dictionary: size, clearing, destruction, iteration, sampling, and
  the conservation of owned values.
\<close>

section \<open>Iteration and size\<close>

lemma dict_for_each_entries: "dict_inv d \<Longrightarrow> dict_for_each d = map kv (dict_entries d)"
  using dict_invD(3,8) [of d] ht_null_entries [of "ht1 d"]
  by (auto simp: dict_for_each_def dict_entries_def Let_def kv_def [abs_def] ht_entries_def)

lemma dict_for_each_map:
  assumes "dict_inv d"
  shows "distinct (map fst (dict_for_each d))" and "map_of (dict_for_each d) = dict_map d"
  using dict_invD(5) [OF assms] by (simp_all add: dict_for_each_entries [OF assms] dict_map_def)

lemma set_dict_for_each: "dict_inv d \<Longrightarrow> set (dict_for_each d) = {(k, v). dict_map d k = Some v}"
  using dict_for_each_map [of d] map_of_eq_Some_iff [of "dict_for_each d"] by auto

lemma dict_size_entries: "dict_inv d \<Longrightarrow> dict_size d = length (dict_entries d)"
  using ht_inv_used [OF dict_invD(1), of d] ht_inv_used [OF dict_invD(2), of d]
  by (simp add: dict_size_def dict_entries_def)

lemma dom_dict_map: "dom (dict_map d) = ekview ` set (dict_entries d)"
  using dict_map_None_iff [of d] by (auto simp: dom_def)

lemma finite_dom_dict_map [simp]: "finite (dom (dict_map d))"
  by (simp add: dom_dict_map)

lemma dict_size_card:
  assumes "dict_inv d"
  shows "dict_size d = card (dom (dict_map d))"
  using distinct_card [OF dict_invD(5) [OF assms]]
  by (simp add: dict_size_entries [OF assms] dom_dict_map)

section \<open>Owned values\<close>

text \<open>
  Every value the dictionary was given is either live in one of its tables or has been handed
  to the deleter, once.
\<close>

definition live_values :: "'v dict \<Rightarrow> 'v multiset" where
  "live_values d = (\<Sum>p \<in># mset (dict_for_each d). mset (opt_list (snd p)))"

definition owned_values :: "'v dict \<Rightarrow> 'v multiset" where
  "owned_values d = live_values d + mset (freed d)"

lemma mset_for_each_graph:
  assumes "dict_inv d"
  shows "mset (dict_for_each d) = mset_set (Map.graph (dict_map d))"
proof -
  have "distinct (dict_for_each d)" using dict_for_each_map(1) [OF assms] by (simp add: distinct_map)
  then have "mset (dict_for_each d) = mset_set (set (dict_for_each d))" by (simp add: mset_set_set)
  also have "set (dict_for_each d) = Map.graph (dict_map d)"
    by (simp add: set_dict_for_each [OF assms] graph_def)
  finally show ?thesis .
qed

definition map_values :: "('k \<rightharpoonup> 'v option) \<Rightarrow> 'v multiset" where
  "map_values m = (\<Sum>p \<in># mset_set (Map.graph m). mset (opt_list (snd p)))"

lemma live_values_map: "dict_inv d \<Longrightarrow> live_values d = map_values (dict_map d)"
  by (simp add: live_values_def map_values_def mset_for_each_graph)

lemma map_values_empty [simp]: "map_values Map.empty = {#}"
  by (simp add: map_values_def)

lemma map_values_upd:
  assumes "finite (dom m)"
  shows "map_values (m(k \<mapsto> v)) + mset (opt_list (flat (m k))) = map_values m + mset (opt_list v)"
proof -
  define R where "R = Map.graph (m(k := None))"
  have fin: "finite R" using assms by (simp add: R_def finite_graph_iff_finite_dom)
  have nin: "(k, x) \<notin> R" for x by (auto simp: R_def graph_def)
  have new: "Map.graph (m(k \<mapsto> v)) = insert (k, v) R"
    by (auto simp: R_def graph_def split: if_splits)
  have old: "Map.graph m = (case m k of None \<Rightarrow> R | Some x \<Rightarrow> insert (k, x) R)"
    by (auto simp: R_def graph_def split: if_splits option.splits)
  show ?thesis
    using fin nin unfolding map_values_def new old by (cases "m k") (simp_all add: ac_simps)
qed

lemma map_values_del:
  assumes "finite (dom m)"
  shows "map_values (m(k := None)) + mset (opt_list (flat (m k))) = map_values m"
proof -
  define R where "R = Map.graph (m(k := None))"
  have fin: "finite R" using assms by (simp add: R_def finite_graph_iff_finite_dom)
  have nin: "(k, x) \<notin> R" for x by (auto simp: R_def graph_def)
  have old: "Map.graph m = (case m k of None \<Rightarrow> R | Some x \<Rightarrow> insert (k, x) R)"
    by (auto simp: R_def graph_def split: if_splits option.splits)
  show ?thesis
    using fin nin unfolding map_values_def old R_def [symmetric] by (cases "m k") simp_all
qed

lemma dict_set_owned:
  assumes "dict_inv d" "has_deleter d" "dict_set d k v = (d', b)"
  shows "owned_values d' = owned_values d + mset (opt_list v)"
proof -
  note e = dict_set_eq [OF assms(1,3)]
  let ?m = "dict_map d"
  have "owned_values d' = map_values (?m(k \<mapsto> v)) + (mset (freed d) + mset (opt_list (flat (?m k))))"
    by (simp only: owned_values_def live_values_map [OF e(1)] e(2,5) assms(2) if_True mset_append)
  also have "\<dots> = (map_values (?m(k \<mapsto> v)) + mset (opt_list (flat (?m k)))) + mset (freed d)"
    by (simp only: ac_simps)
  also have "\<dots> = owned_values d + mset (opt_list v)"
    unfolding map_values_upd [OF finite_dom_dict_map] owned_values_def live_values_map [OF assms(1)]
    by (simp only: ac_simps)
  finally show ?thesis .
qed

lemma dict_del_owned:
  assumes "dict_inv d" "has_deleter d" "dict_del d k = (d', b)"
  shows "owned_values d' = owned_values d"
proof -
  note e = dict_del_eq [OF assms(1,3)]
  let ?m = "dict_map d"
  have "owned_values d' = map_values (?m(k := None)) + (mset (freed d) + mset (opt_list (flat (?m k))))"
    by (simp only: owned_values_def live_values_map [OF e(1)] e(2,5) assms(2) if_True mset_append)
  also have "\<dots> = (map_values (?m(k := None)) + mset (opt_list (flat (?m k)))) + mset (freed d)"
    by (simp only: ac_simps)
  also have "\<dots> = owned_values d"
    by (simp only: map_values_del [OF finite_dom_dict_map] owned_values_def live_values_map [OF assms(1)])
  finally show ?thesis .
qed

lemma same_content_owned: "dict_inv d \<Longrightarrow> same_content d d' \<Longrightarrow> owned_values d' = owned_values d"
  using same_content_map [of d d'] by (auto simp: owned_values_def live_values_map same_content_def)

section \<open>Clearing and destruction\<close>

lemma fold_release:
  "fold (\<lambda>e. release (evalue e)) es d =
     d\<lparr>freed := freed d @ (if has_deleter d then concat (map (\<lambda>e. opt_list (evalue e)) es) else [])\<rparr>"
  by (induction es arbitrary: d) (simp_all add: release_alt)

lemma release_table_alt:
  "release_table t d =
     d\<lparr>freed := freed d @
       (if has_deleter d then concat (map (\<lambda>e. opt_list (evalue e)) (ht_entries t)) else [])\<rparr>"
  by (auto simp: release_table_def fold_release ht_null_entries simp flip: ht_entries_def)

lemma live_values_entries:
  "dict_inv d \<Longrightarrow> live_values d = mset (concat (map (\<lambda>e. opt_list (evalue e)) (dict_entries d)))"
  using sum_mset_sum_list [of "map (\<lambda>e. mset (opt_list (evalue e))) (dict_entries d)"]
  by (simp add: live_values_def dict_for_each_entries mset_concat comp_def image_mset.compositionality)

lemma dict_clear_eq:
  assumes "dict_inv d"
  shows "dict_inv (dict_clear d)" and "dict_map (dict_clear d) = Map.empty" and "same_frame d (dict_clear d)"
    and "dict_size (dict_clear d) = 0" and "\<not> is_rehashing (dict_clear d)"
    and "mset (freed (dict_clear d)) = mset (freed d) + (if has_deleter d then live_values d else {#})"
  using dict_invD(4) [OF assms]
  by (simp_all add: dict_clear_def release_table_alt Let_def dict_inv_def dict_map_def dict_entries_def
      is_rehashing_def same_frame_def dict_size_def live_values_entries [OF assms])

lemma dict_destroy_frees:
  "dict_inv d \<Longrightarrow> has_deleter d \<Longrightarrow> mset (dict_destroy d) = owned_values d"
  by (simp add: dict_destroy_def release_table_alt owned_values_def live_values_entries dict_entries_def
      ac_simps)

section \<open>Sampling\<close>

text \<open>The sample is a prefix of the chains of the table, read from the drawn bucket on, cyclically.\<close>

lemma take_take_append: "take c (xs @ take (c - length xs) ys @ zs) = take c (xs @ ys @ zs)"
  by (cases "length ys \<le> c - length xs") simp_all

lemma sample_loop_eq:
  assumes t: "ht_shape t" "\<not> ht_is_null t" "ht_size t \<le> 2 ^ 64" and "length out \<le> c" "n \<le> ht_size t"
    and "idx < ht_size t"
  shows "sample_loop t c idx n out =
    take c (out @ concat (map (\<lambda>j. bucket t ((idx + j) mod ht_size t)) [0..<ht_size t - n]))"
  using assms(4-6)
proof (induction "ht_size t - n" arbitrary: idx n out)
  case 0
  then show ?case by (simp add: sample_loop.simps [of t])
next
  case (Suc m)
  show ?case
  proof (cases "length out < c")
    case False
    then show ?thesis using Suc.prems by (simp add: sample_loop.simps [of t])
  next
    case True
    obtain k where k: "ht_size t = 2 ^ k" and mask: "sizemask t = word_of_nat (ht_size t) - 1"
      using t by (auto simp: ht_shape_def ht_is_null_def is_pow2_iff split: option.splits)
    let ?i = "(idx + 1) mod ht_size t"
    have "(2::nat) ^ k \<le> 2 ^ 64" using t(3) by (simp add: k)
    then have "k \<le> 64" by (rule power_le_imp_le_exp [rotated]) simp
    then have dvd: "ht_size t dvd 2 ^ 64" unfolding k by (rule le_imp_power_dvd)
    have "unat (word_of_nat (idx + 1) :: u64) = (idx + 1) mod 2 ^ 64"
      by (simp only: unsigned_of_nat take_bit_eq_mod) simp
    moreover have "is_pow2 (ht_size t)" using k is_pow2_iff by blast
    ultimately have "unat ((word_of_nat (idx + 1) :: u64) AND sizemask t) = (idx + 1) mod 2 ^ 64 mod ht_size t"
      unfolding mask by (simp add: unat_and_mask)
    also have "\<dots> = ?i" using dvd by (rule mod_mod_cancel)
    finally have next_idx: "unat ((word_of_nat (idx + 1) :: u64) AND sizemask t) = ?i" .
    let ?out = "out @ take (c - length out) (bucket t idx)"
    let ?rest = "\<lambda>f. concat (map f [0..<m])"
    have step: "sample_loop t c idx n out = sample_loop t c ?i (n + 1) ?out"
    proof -
      have "length out < c \<and> n < ht_size t" using True Suc.hyps(2) by linarith
      then show ?thesis by (simp only: sample_loop.simps [of t c idx n out] next_idx simp_thms if_True)
    qed
    have "m = ht_size t - (n + 1)" "n + 1 \<le> ht_size t" using Suc.hyps(2) by simp_all
    moreover have "length ?out \<le> c" "?i < ht_size t" using True Suc.prems(3) by simp_all
    ultimately have "sample_loop t c ?i (n + 1) ?out =
        take c (?out @ concat (map (\<lambda>j. bucket t ((?i + j) mod ht_size t)) [0..<m]))"
      using Suc.hyps(1) by blast
    also have "\<dots> = take c (out @ bucket t idx @ ?rest (\<lambda>j. bucket t ((idx + Suc j) mod ht_size t)))"
    proof -
      have "(?i + j) mod ht_size t = (idx + Suc j) mod ht_size t" for j
        by (simp add: mod_add_left_eq)
      then show ?thesis
        using take_take_append [of c out "bucket t idx"] by (simp only: append_assoc)
    qed
    also have "\<dots> = take c (out @ concat (map (\<lambda>j. bucket t ((idx + j) mod ht_size t)) [0..<Suc m]))"
      using Suc.prems(3) by (simp add: upt_conv_Cons map_Suc_upt [symmetric] comp_def del: upt_Suc)
    finally show ?thesis using step Suc.hyps(2) by simp
  qed
qed

text \<open>Whatever the size of the table, only its entries are sampled.\<close>

lemma sample_loop_subset:
  assumes "ht_shape t" "\<not> ht_is_null t" "idx < ht_size t"
  shows "set (sample_loop t c idx n out) \<subseteq> set out \<union> set (ht_entries t)"
  using assms
proof (induction t c idx n out rule: sample_loop.induct)
  case (1 t c idx n out)
  let ?i = "unat ((word_of_nat (idx + 1) :: u64) AND sizemask t)"
  note len = length_bucket_list [OF 1(2)]
  have i: "?i < ht_size t" using bucket_idx_less [OF 1(2,3), of "word_of_nat (idx + 1)"] len by (simp add: bucket_idx_def)
  have "bucket t idx \<in> set (bucket_list t)" using 1(4) len by (simp add: bucket_def)
  then have b: "set (take m (bucket t idx)) \<subseteq> set (ht_entries t)" for m
    using set_take_subset [of m "bucket t idx"] by (auto simp: ht_entries_def)
  show ?case
  proof (cases "length out < c \<and> n < ht_size t")
    case True
    have "sample_loop t c idx n out = sample_loop t c ?i (n + 1) (out @ take (c - length out) (bucket t idx))"
      using True by (subst sample_loop.simps) (simp only: simp_thms if_True)
    then show ?thesis using 1(1) [OF True 1(2,3) i] b [of "c - length out"] by (simp only: set_append) blast
  next
    case False
    then have "sample_loop t c idx n out = out" by (subst sample_loop.simps) (simp only: if_False)
    then show ?thesis by simp
  qed
qed

lemma concat_rotation:
  assumes "i < length bs"
  shows "mset (concat (map (\<lambda>j. bs ! ((i + j) mod length bs)) [0..<length bs])) = mset (concat bs)"
proof -
  have "map (\<lambda>j. bs ! ((i + j) mod length bs)) [0..<length bs] = rotate i bs"
    by (intro nth_equalityI) (simp_all add: nth_rotate)
  moreover have "mset (rotate i bs) = mset bs"
  proof (induction i)
    case (Suc i)
    have "mset (rotate1 xs) = mset xs" for xs :: "'a list list" by (cases xs) simp_all
    with Suc show ?case by simp
  qed simp
  ultimately show ?thesis by (metis mset_concat mset_map sum_mset_sum_list)
qed

definition sampled_table :: "'v dict \<Rightarrow> u64 \<Rightarrow> 'v dict_ht" where
  "sampled_table d draw1 =
     (if is_rehashing d \<and> draw1 mod 3 = 0 \<and> 0 < used (ht1 d) then ht1 d else ht0 d)"

lemma random_sample_eq:
  assumes inv: "dict_inv d" and fit: "ht_size (ht0 d) \<le> 2 ^ 64" "ht_size (ht1 d) \<le> 2 ^ 64"
  shows "\<exists>es. mset es = mset (ht_entries (sampled_table d r1)) \<and>
    random_sample d n r1 r2 = take (min n (dict_size d)) es"
proof -
  let ?t = "sampled_table d r1" and ?n = "min n (dict_size d)"
  have nn: "0 < used t \<Longrightarrow> t \<in> {ht0 d, ht1 d} \<Longrightarrow> \<not> ht_is_null t" for t
    using dict_invD(1,2) [OF inv] ht_null_entries [of t] ht_inv_used [of "dict_hash d" t] by auto
  have t: "ht_inv (dict_hash d) ?t" "ht_size ?t \<le> 2 ^ 64"
    using inv dict_invD(1,2) [OF inv] fit by (auto simp: sampled_table_def)
  show ?thesis
  proof (cases "used ?t = 0")
    case True
    then have u0: "used (ht0 d) = 0" by (auto simp: sampled_table_def split: if_splits)
    have "ht_entries ?t = []" using True ht_inv_used [OF t(1)] by simp
    moreover have "random_sample d n r1 r2 = []"
      using True u0 by (auto simp: random_sample_def sampled_table_def Let_def split: if_splits)
    ultimately show ?thesis by (intro exI [of _ "[]"]) simp
  next
    case False
    have tn: "\<not> ht_is_null ?t" using False nn [of ?t] by (auto simp: sampled_table_def)
    have sz: "0 < dict_size d" using False by (auto simp: dict_size_def sampled_table_def split: if_splits)
    have shape: "ht_shape ?t" using t(1) by (simp add: ht_inv_def)
    have len: "length (bucket_list ?t) = ht_size ?t" by (rule length_bucket_list [OF shape])
    let ?i = "bucket_idx ?t r2"
    have i: "?i < ht_size ?t" using bucket_idx_less [OF shape tn] len by simp
    let ?es = "concat (map (\<lambda>j. bucket ?t ((?i + j) mod ht_size ?t)) [0..<ht_size ?t])"
    have ms: "mset ?es = mset (ht_entries ?t)"
      using concat_rotation [of ?i "bucket_list ?t"] i len by (simp add: ht_entries_def bucket_def)
    have table: "(let t = (if is_rehashing d \<and> r1 mod 3 = 0 \<and> \<not> ht_is_null (ht1 d) \<and> 0 < used (ht1 d)
          then ht1 d else ht0 d) in if ht_is_null t \<or> used t = 0 then ht0 d else t) = ?t"
      using nn [of "ht1 d"] by (auto simp: sampled_table_def Let_def)
    have "random_sample d n r1 r2 = sample_loop ?t ?n ?i 0 []"
      using sz tn False table by (simp add: random_sample_def Let_def min_def not_less)
    also have "\<dots> = take ?n ?es"
      using sample_loop_eq [OF shape tn t(2), of "[]" ?n 0 ?i] i by simp
    finally show ?thesis using ms by blast
  qed
qed

lemma random_sample_subset:
  assumes inv: "dict_inv d"
  shows "set (random_sample d n r1 r2) \<subseteq> set (dict_entries d)"
proof -
  have "set (sample_loop t m (bucket_idx t r2) 0 []) \<subseteq> set (ht_entries t)"
    if "ht_inv (dict_hash d) t" "\<not> ht_is_null t" for t m
  proof -
    have shape: "ht_shape t" using that(1) by (simp add: ht_inv_def)
    then have "bucket_idx t r2 < ht_size t" using bucket_idx_less [OF shape that(2)] length_bucket_list [OF shape] by simp
    then show ?thesis using sample_loop_subset [OF shape that(2), of "bucket_idx t r2" m 0 "[]"] by simp
  qed
  then show ?thesis
    using dict_invD(1,2) [OF inv] by (auto simp: random_sample_def dict_entries_def Let_def split: if_splits)
qed

end
