(* ===== verification/DictIndex.thy ===== *)
theory DictIndex
  imports DictIter
begin

text \<open>
  The dictionary as the database sees it: a finite map from keys to non-null values, with
  the write through a pointer that \<^verbatim>\<open>get\<close> returned. The locale \<open>kv_index\<close> states the interface,
  its client lemmas are proved once, and it is interpreted on the model of \<^verbatim>\<open>Dict\<close>.
\<close>

section \<open>Null-free dictionaries\<close>

definition dict_ok :: "'v dict \<Rightarrow> bool" where
  "dict_ok d \<longleftrightarrow> dict_inv d \<and> None \<notin> ran (dict_map d)"

definition dict_abs :: "'v dict \<Rightarrow> string \<rightharpoonup> 'v" where
  "dict_abs d k = flat (dict_map d k)"

lemma dict_abs_empty: "dict_map d = Map.empty \<Longrightarrow> dict_abs d = Map.empty"
  by (simp add: dict_abs_def fun_eq_iff)

lemma dict_ok_None_iff: "dict_ok d \<Longrightarrow> dict_abs d k = None \<longleftrightarrow> dict_map d k = None"
  by (auto simp: dict_ok_def dict_abs_def ran_def flat_def split: option.splits) (metis not_None_eq)

lemma dict_ok_Some_iff: "dict_ok d \<Longrightarrow> dict_map d k = Some (Some v) \<longleftrightarrow> dict_abs d k = Some v"
  by (auto simp: dict_ok_def dict_abs_def ran_def flat_def split: option.splits)

lemma dict_abs_upd: "dict_map d' = (dict_map d)(k \<mapsto> Some v) \<Longrightarrow> dict_abs d' = (dict_abs d)(k \<mapsto> v)"
  and dict_abs_del: "dict_map d' = (dict_map d)(k := None) \<Longrightarrow> dict_abs d' = (dict_abs d)(k := None)"
  by (simp_all add: dict_abs_def fun_eq_iff)

lemma dict_ok_same:
  assumes "dict_ok d" "same_content d d'"
  shows "dict_ok d'" and "dict_abs d' = dict_abs d"
proof -
  have inv: "dict_inv d" using assms(1) by (simp add: dict_ok_def)
  show "dict_ok d'" and "dict_abs d' = dict_abs d"
    using assms same_content_map [OF inv assms(2)] by (auto simp: dict_ok_def dict_abs_def same_content_def)
qed

section \<open>Writing through the pointer that get returned\<close>

text \<open>
  The value that \<^verbatim>\<open>get\<close> returns points into the entry's payload, so \<^verbatim>\<open>*existing = x\<close> and
  \<^verbatim>\<open>obj->touch(...)\<close> change the payload in place, in the table that holds the key.
\<close>

definition dict_poke :: "'v dict \<Rightarrow> string \<Rightarrow> 'v \<Rightarrow> 'v dict" where
  "dict_poke d key x =
     (let h = dict_hash d key
      in case find_in (ht0 d) key h of
           Some e \<Rightarrow> d\<lparr>ht0 := store_in (ht0 d) key h (Some x)\<rparr>
         | None \<Rightarrow>
             (case find_in (ht1 d) key h of
                Some e \<Rightarrow> d\<lparr>ht1 := store_in (ht1 d) key h (Some x)\<rparr>
              | None \<Rightarrow> d))"

lemma dict_poke_eq:
  assumes inv: "dict_inv d" and k: "dict_map d k \<noteq> None"
  shows "dict_inv (dict_poke d k x)" and "dict_map (dict_poke d k x) = (dict_map d)(k \<mapsto> Some x)"
    and "same_frame d (dict_poke d k x)" and "freed (dict_poke d k x) = freed d"
proof -
  let ?h = "dict_hash d k" and ?d = "dict_poke d k x"
  note inv0 = dict_invD(1) [OF inv] and inv1 = dict_invD(2) [OF inv] and dis = dict_invD(5) [OF inv]
  have "dict_inv ?d \<and> dict_map ?d = (dict_map d)(k \<mapsto> Some x) \<and> same_frame d ?d \<and> freed ?d = freed d"
  proof (cases "find_in (ht0 d) k ?h")
    case (Some e)
    note st = ht_store_facts [OF inv0 Some, of "Some x"]
    have key: "ekview e = k" using find_in_SomeD [OF inv0 Some] by simp
    let ?t = "store_in (ht0 d) k ?h (Some x)"
    have d': "?d = d\<lparr>ht0 := ?t\<rparr>" using Some by (simp add: dict_poke_def Let_def)
    from st(2) obtain M where M: "mset (ht_entries (ht0 d)) = add_mset e M"
      "mset (ht_entries ?t) = add_mset (e\<lparr>evalue := Some x\<rparr>) M" by blast
    have ms: "mset (dict_entries d) = add_mset e (M + mset (ht_entries (ht1 d)))"
      "mset (dict_entries ?d) = add_mset (e\<lparr>evalue := Some x\<rparr>) (M + mset (ht_entries (ht1 d)))"
      using M by (simp_all add: d' dict_entries_def)
    note rep = dict_map_replace [OF dis ms]
    have "dict_inv ?d"
      unfolding d' using inv st rep(2) dict_invD(3) [OF inv] by (intro dict_inv_ht0) (simp_all add: d')
    then show ?thesis using rep(1) key by (simp add: same_frame_def) (simp add: d')
  next
    case none: None
    then obtain e where Some: "find_in (ht1 d) k ?h = Some e"
      using find_in_map(3) [OF inv none] k by (cases "find_in (ht1 d) k ?h") auto
    note st = ht_store_facts [OF inv1 Some, of "Some x"]
    have key: "ekview e = k" using find_in_SomeD [OF inv1 Some] by simp
    have reh: "is_rehashing d" using Some dict_invD(8) [OF inv] by (cases "is_rehashing d") auto
    let ?t = "store_in (ht1 d) k ?h (Some x)"
    have d': "?d = d\<lparr>ht1 := ?t\<rparr>" using none Some by (simp add: dict_poke_def Let_def)
    from st(2) obtain M where M: "mset (ht_entries (ht1 d)) = add_mset e M"
      "mset (ht_entries ?t) = add_mset (e\<lparr>evalue := Some x\<rparr>) M" by blast
    have ms: "mset (dict_entries d) = add_mset e (M + mset (ht_entries (ht0 d)))"
      "mset (dict_entries ?d) = add_mset (e\<lparr>evalue := Some x\<rparr>) (M + mset (ht_entries (ht0 d)))"
      using M by (simp_all add: d' dict_entries_def)
    note rep = dict_map_replace [OF dis ms]
    have "dict_inv ?d"
      unfolding d' using inv st rep(2) dict_invD(6) [OF inv reh] reh by (intro dict_inv_ht1) (simp_all add: d')
    then show ?thesis using rep(1) key by (simp add: same_frame_def) (simp add: d')
  qed
  then show "dict_inv ?d" and "dict_map ?d = (dict_map d)(k \<mapsto> Some x)" and "same_frame d ?d"
    and "freed ?d = freed d" by blast+
qed

section \<open>The interface\<close>

locale kv_index =
  fixes inv :: "'d \<Rightarrow> bool"
    and abs :: "'d \<Rightarrow> string \<rightharpoonup> 'v"
    and kset :: "'d \<Rightarrow> string \<Rightarrow> 'v option \<Rightarrow> 'd \<times> bool"
    and kget :: "'d \<Rightarrow> string \<Rightarrow> 'd \<times> 'v option"
    and kpeek :: "'d \<Rightarrow> string \<Rightarrow> 'v option"
    and kdel :: "'d \<Rightarrow> string \<Rightarrow> 'd \<times> bool"
    and kpoke :: "'d \<Rightarrow> string \<Rightarrow> 'v \<Rightarrow> 'd"
    and kstep :: "nat \<Rightarrow> 'd \<Rightarrow> 'd"
    and kclear :: "'d \<Rightarrow> 'd"
    and kiter :: "'d \<Rightarrow> (string \<times> 'v option) list"
    and ksize :: "'d \<Rightarrow> usize"
  assumes set_inv: "inv d \<Longrightarrow> inv (fst (kset d k (Some v)))"
    and set_abs: "inv d \<Longrightarrow> abs (fst (kset d k (Some v))) = (abs d)(k \<mapsto> v)"
    and set_new: "inv d \<Longrightarrow> snd (kset d k (Some v)) \<longleftrightarrow> abs d k = None"
    and get_inv: "inv d \<Longrightarrow> inv (fst (kget d k))"
    and get_abs: "inv d \<Longrightarrow> abs (fst (kget d k)) = abs d"
    and get_val: "inv d \<Longrightarrow> snd (kget d k) = abs d k"
    and peek_val: "inv d \<Longrightarrow> kpeek d k = abs d k"
    and del_inv: "inv d \<Longrightarrow> inv (fst (kdel d k))"
    and del_abs: "inv d \<Longrightarrow> abs (fst (kdel d k)) = (abs d)(k := None)"
    and del_had: "inv d \<Longrightarrow> snd (kdel d k) \<longleftrightarrow> abs d k \<noteq> None"
    and poke_inv: "inv d \<Longrightarrow> abs d k \<noteq> None \<Longrightarrow> inv (kpoke d k v)"
    and poke_abs: "inv d \<Longrightarrow> abs d k \<noteq> None \<Longrightarrow> abs (kpoke d k v) = (abs d)(k \<mapsto> v)"
    and step_inv: "inv d \<Longrightarrow> inv (kstep n d)"
    and step_abs: "inv d \<Longrightarrow> abs (kstep n d) = abs d"
    and clear_inv: "inv d \<Longrightarrow> inv (kclear d)"
    and clear_abs: "inv d \<Longrightarrow> abs (kclear d) = Map.empty"
    and iter_distinct: "inv d \<Longrightarrow> distinct (map fst (kiter d))"
    and iter_abs: "inv d \<Longrightarrow> set (kiter d) = {(k, Some v) | k v. abs d k = Some v}"
    and size_abs: "inv d \<Longrightarrow> ksize d = card (dom (abs d))"
begin

lemma get_after_set: "inv d \<Longrightarrow> snd (kget (fst (kset d k (Some v))) k') = (if k' = k then Some v else snd (kget d k'))"
  by (simp add: get_val set_inv set_abs)

lemma get_after_del: "inv d \<Longrightarrow> snd (kget (fst (kdel d k)) k') = (if k' = k then None else snd (kget d k'))"
  by (simp add: get_val del_inv del_abs)

lemma set_del_fresh: "inv d \<Longrightarrow> abs d k = None \<Longrightarrow> abs (fst (kdel (fst (kset d k (Some v))) k)) = abs d"
  by (simp add: set_inv set_abs del_abs fun_upd_idem)

lemma peek_get: "inv d \<Longrightarrow> kpeek d k = snd (kget d k)"
  by (simp add: get_val peek_val)

lemma iter_keys: "inv d \<Longrightarrow> fst ` set (kiter d) = dom (abs d)"
  by (force simp: iter_abs dom_def)

lemma iter_length: "inv d \<Longrightarrow> length (kiter d) = ksize d"
  using distinct_card [OF iter_distinct, of d] iter_keys [of d] by (simp add: size_abs)

lemma finite_dom: "inv d \<Longrightarrow> finite (dom (abs d))"
  using iter_keys [of d] finite_imageI [of "set (kiter d)" fst] by simp

text \<open>Loading a list of pairs, and deleting a list of keys.\<close>

lemma load_list:
  "inv d \<Longrightarrow> inv (foldl (\<lambda>d (k, v). fst (kset d k (Some v))) d kvs) \<and>
     abs (foldl (\<lambda>d (k, v). fst (kset d k (Some v))) d kvs) = abs d ++ map_of (rev kvs)"
  by (induction kvs arbitrary: d) (auto simp: set_inv set_abs map_add_upd_left fun_eq_iff map_add_def split: option.splits)

lemma del_list:
  "inv d \<Longrightarrow> inv (foldl (\<lambda>d k. fst (kdel d k)) d ks) \<and>
     abs (foldl (\<lambda>d k. fst (kdel d k)) d ks) = abs d |` (- set ks)"
  by (induction ks arbitrary: d) (auto simp: del_inv del_abs fun_eq_iff restrict_map_def)

end

lemma dict_ok_set:
  assumes "dict_ok d"
  shows "dict_ok (fst (dict_set d k (Some v)))"
    and "dict_abs (fst (dict_set d k (Some v))) = (dict_abs d)(k \<mapsto> v)"
    and "snd (dict_set d k (Some v)) \<longleftrightarrow> dict_abs d k = None"
proof -
  obtain d' b where s: "dict_set d k (Some v) = (d', b)" by fastforce
  have inv: "dict_inv d" using assms by (simp add: dict_ok_def)
  note e = dict_set_eq [OF inv s]
  have "None \<notin> ran ((dict_map d)(k \<mapsto> Some v))"
    using assms by (auto simp: dict_ok_def ran_def split: if_splits)
  then show "dict_ok (fst (dict_set d k (Some v)))" using e(1,2) s by (simp add: dict_ok_def)
  show "dict_abs (fst (dict_set d k (Some v))) = (dict_abs d)(k \<mapsto> v)"
    using dict_abs_upd [OF e(2)] s by simp
  show "snd (dict_set d k (Some v)) \<longleftrightarrow> dict_abs d k = None"
    using e(3) s dict_ok_None_iff [OF assms] by simp
qed

lemma dict_ok_del:
  assumes "dict_ok d"
  shows "dict_ok (fst (dict_del d k))" and "dict_abs (fst (dict_del d k)) = (dict_abs d)(k := None)"
    and "snd (dict_del d k) \<longleftrightarrow> dict_abs d k \<noteq> None"
proof -
  obtain d' b where s: "dict_del d k = (d', b)" by fastforce
  have inv: "dict_inv d" using assms by (simp add: dict_ok_def)
  note e = dict_del_eq [OF inv s]
  have "None \<notin> ran ((dict_map d)(k := None))"
    using assms by (auto simp: dict_ok_def ran_def split: if_splits)
  then show "dict_ok (fst (dict_del d k))" using e(1,2) s by (simp add: dict_ok_def)
  show "dict_abs (fst (dict_del d k)) = (dict_abs d)(k := None)"
    using dict_abs_del [OF e(2)] s by simp
  show "snd (dict_del d k) \<longleftrightarrow> dict_abs d k \<noteq> None"
    using e(3) s dict_ok_None_iff [OF assms] by simp
qed

lemma dict_ok_poke:
  assumes "dict_ok d" "dict_abs d k \<noteq> None"
  shows "dict_ok (dict_poke d k v)" and "dict_abs (dict_poke d k v) = (dict_abs d)(k \<mapsto> v)"
proof -
  have k: "dict_map d k \<noteq> None" using assms dict_ok_None_iff [OF assms(1)] by simp
  have inv: "dict_inv d" using assms by (simp add: dict_ok_def)
  note e = dict_poke_eq [OF inv k, of v]
  have "None \<notin> ran ((dict_map d)(k \<mapsto> Some v))"
    using assms by (auto simp: dict_ok_def ran_def split: if_splits)
  then show "dict_ok (dict_poke d k v)" using e(1,2) by (simp add: dict_ok_def)
  show "dict_abs (dict_poke d k v) = (dict_abs d)(k \<mapsto> v)" by (rule dict_abs_upd [OF e(2)])
qed

lemma dict_ok_iter:
  assumes "dict_ok d"
  shows "set (dict_for_each d) = {(k, Some v) | k v. dict_abs d k = Some v}"
proof -
  have inv: "dict_inv d" using assms by (simp add: dict_ok_def)
  have "dict_map d k = Some None \<Longrightarrow> False" for k
    using assms by (auto simp: dict_ok_def ran_def)
  then have "dict_map d k = Some w \<longleftrightarrow> (\<exists>v. w = Some v \<and> dict_abs d k = Some v)" for k w
    using dict_ok_Some_iff [OF assms] by (cases w) auto
  then show ?thesis unfolding set_dict_for_each [OF inv] by auto
qed

lemma dict_ok_dom: "dict_ok d \<Longrightarrow> dom (dict_abs d) = dom (dict_map d)"
  using dict_ok_None_iff [of d] by (auto simp: dom_def)

lemma dict_ok_get:
  assumes "dict_ok d"
  shows "dict_ok (fst (dict_get d k))" and "dict_abs (fst (dict_get d k)) = dict_abs d"
    and "snd (dict_get d k) = dict_abs d k" and "dict_get_const d k = dict_abs d k"
proof -
  have inv: "dict_inv d" using assms by (simp add: dict_ok_def)
  note g = dict_get_eq [OF inv, of k]
  show "dict_ok (fst (dict_get d k))" and "dict_abs (fst (dict_get d k)) = dict_abs d"
    using dict_ok_same [OF assms g(2)] .
  show "snd (dict_get d k) = dict_abs d k" and "dict_get_const d k = dict_abs d k"
    using g(1) dict_get_const_eq [OF inv] by (simp_all add: dict_abs_def)
qed

definition dict_step :: "nat \<Rightarrow> 'v dict \<Rightarrow> 'v dict" where
  "dict_step n d = fst (rehash_step n d)"

lemma dict_ok_step:
  assumes "dict_ok d"
  shows "dict_ok (dict_step n d)" and "dict_abs (dict_step n d) = dict_abs d"
  using dict_ok_same [OF assms rehash_step_same] assms by (auto simp: dict_ok_def dict_step_def)

lemma dict_ok_clear:
  assumes "dict_ok d"
  shows "dict_ok (dict_clear d)" and "dict_abs (dict_clear d) = Map.empty"
proof -
  have inv: "dict_inv d" using assms by (simp add: dict_ok_def)
  show "dict_ok (dict_clear d)" and "dict_abs (dict_clear d) = Map.empty"
    using dict_clear_eq(1,2) [OF inv] dict_abs_empty by (auto simp: dict_ok_def)
qed

lemma dict_ok_new [simp]: "dict_ok (dict_new b)" and dict_abs_new [simp]: "dict_abs (dict_new b) = Map.empty"
  by (simp_all add: dict_ok_def dict_abs_empty)

interpretation index: kv_index dict_ok dict_abs dict_set dict_get dict_get_const dict_del dict_poke
  dict_step dict_clear dict_for_each dict_size
proof unfold_locales
  fix d :: "'a dict"
  assume d: "dict_ok d"
  then have inv: "dict_inv d" by (simp add: dict_ok_def)
  show "distinct (map fst (dict_for_each d))" using dict_for_each_map(1) [OF inv] .
  show "dict_size d = card (dom (dict_abs d))" using dict_size_card [OF inv] dict_ok_dom [OF d] by simp
qed (simp_all add: dict_ok_set dict_ok_del dict_ok_poke dict_ok_get dict_ok_step dict_ok_clear dict_ok_iter)

end
