(* ===== verification/DictSize.thy ===== *)
theory DictSize
  imports DictIndex
begin

text \<open>
  Table sizes of the dictionary: rounding to binary32 in the load factor, when a table grows and
  shrinks, and that lookups and removals never allocate a table larger than those in use.
\<close>

section \<open>Rounding to binary32\<close>

lemma bit_length_0 [simp]: "bit_length 0 = 0"
  by (simp add: bit_length.simps [of 0])

lemma bit_length_le: "n < 2 ^ k \<Longrightarrow> bit_length n \<le> k"
proof (induction k arbitrary: n)
  case (Suc k)
  then show ?case
    by (cases "n = 0") (simp_all add: bit_length.simps [of n] less_mult_imp_div_less mult.commute)
qed simp

lemma bit_length_ge: "0 < n \<Longrightarrow> 2 ^ (bit_length n - 1) \<le> n"
proof (induction n rule: bit_length.induct)
  case (1 n)
  show ?case
  proof (cases "n div 2 = 0")
    case True
    then show ?thesis using 1(2) by (simp add: bit_length.simps [of n])
  next
    case False
    then have "bit_length n - 1 = Suc (bit_length (n div 2) - 1)"
      using 1(2) by (simp add: bit_length.simps [of n] bit_length.simps [of "n div 2"])
    moreover have "2 * 2 ^ (bit_length (n div 2) - 1) \<le> n"
      using 1 False by (simp add: mult.commute)
    ultimately show ?thesis by simp
  qed
qed

lemma bit_length_lt: "n < 2 ^ bit_length n"
proof (induction n rule: bit_length.induct)
  case (1 n)
  show ?case
  proof (cases "n = 0")
    case False
    then have "n div 2 < 2 ^ bit_length (n div 2)" using 1 by blast
    then show ?thesis using False by (simp add: bit_length.simps [of n])
  qed simp
qed

lemma f32_exact: "n < 2 ^ 24 \<Longrightarrow> f32_of_usize n = n"
  using bit_length_le [of n 24] by (simp add: f32_of_usize_def Let_def)

lemma f32_ge_pow2:
  assumes "2 ^ k \<le> n"
  shows "2 ^ k \<le> f32_of_usize n"
proof -
  let ?L = "bit_length n - 1"
  let ?e = "bit_length n - 24"
  have n: "0 < n" using assms by (cases n) auto
  have "k \<le> ?L"
  proof (rule ccontr)
    assume "\<not> k \<le> ?L"
    then have "bit_length n \<le> k" by simp
    moreover have "n < 2 ^ bit_length n"
      by (rule bit_length_lt)
    ultimately have "n < 2 ^ k" using power_increasing [of "bit_length n" k "2::nat"] by linarith
    with assms show False by simp
  qed
  then have kL: "(2::nat) ^ k \<le> 2 ^ ?L" by (intro power_increasing) auto
  show ?thesis
  proof (cases "?e = 0")
    case True
    then show ?thesis using assms by (simp add: f32_of_usize_def Let_def)
  next
    case False
    then have split: "?L = ?e + (?L - ?e)" by simp
    have "2 ^ ?e * 2 ^ (?L - ?e) \<le> n"
      using bit_length_ge [OF n] by (subst (asm) split) (simp add: power_add)
    then have "2 ^ (?L - ?e) \<le> n div 2 ^ ?e"
      using div_le_mono [of "2 ^ ?e * 2 ^ (?L - ?e)" n "2 ^ ?e"] by simp
    then have "2 ^ ?L \<le> n div 2 ^ ?e * 2 ^ ?e"
      by (subst split) (simp add: power_add)
    moreover have "n div 2 ^ ?e * 2 ^ ?e \<le> f32_of_usize n"
      using False by (simp add: f32_of_usize_def Let_def)
    ultimately show ?thesis using kL by linarith
  qed
qed

lemma f32_pow2: "f32_of_usize (2 ^ k) = 2 ^ k"
proof (cases "bit_length (2 ^ k) - 24 = 0")
  case True
  then show ?thesis by (simp add: f32_of_usize_def Let_def)
next
  case False
  let ?e = "bit_length (2 ^ k) - 24"
  have "bit_length (2 ^ k) \<le> Suc k" by (rule bit_length_le) simp
  then have "?e \<le> k" using False by simp
  then have "(2::nat) ^ ?e dvd 2 ^ k" by (rule le_imp_power_dvd)
  then have "(2::nat) ^ k mod 2 ^ ?e = 0" "(2::nat) ^ k div 2 ^ ?e * 2 ^ ?e = 2 ^ k"
    by (simp_all only: dvd_eq_mod_eq_0 dvd_div_mult_self)
  then show ?thesis using False by (simp add: f32_of_usize_def Let_def)
qed

lemma shrink_only_sparse:
  assumes "is_pow2 (ht_size (ht0 d))" "\<not> is_rehashing d" "is_rehashing (maybe_shrink d)"
  shows "used (ht0 d) < ht_size (ht0 d)"
    and "ht_size (ht1 (maybe_shrink d)) \<le> ht_size (ht0 d)"
    and "ht0 (maybe_shrink d) = ht0 d"
proof -
  have lf: "load_factor d < DICT_SHRINK_RATIO" and big: "4 < ht_size (ht0 d)"
    and m: "maybe_shrink d = d\<lparr>ht1 := ht_allocate (bit_ceil (if used (ht0 d) < 4 then 4 else used (ht0 d))),
      rehashidx := 0\<rparr>"
    using assms(2,3) by (auto simp: maybe_shrink_def split: if_splits)
  obtain k where k: "ht_size (ht0 d) = 2 ^ k" using assms(1) by (auto simp: is_pow2_iff)
  have "f32_of_usize (used (ht0 d)) < 2 ^ k"
  proof (rule ccontr)
    assume "\<not> ?thesis"
    then have "(of_nat (2 ^ k) :: rat) \<le> of_nat (f32_of_usize (used (ht0 d)))"
      by (simp only: of_nat_le_iff not_less)
    moreover have "(0 :: rat) < of_nat (2 ^ k)" by simp
    moreover have "load_factor d = of_nat (f32_of_usize (used (ht0 d))) / of_nat (2 ^ k)"
      by (simp only: load_factor_def k f32_pow2) simp
    ultimately have "1 \<le> load_factor d" by (simp only: le_divide_eq_1_pos)
    with lf show False by (simp add: DICT_SHRINK_RATIO_def)
  qed
  then show lt: "used (ht0 d) < ht_size (ht0 d)"
    using f32_ge_pow2 [of k "used (ht0 d)"] by (cases "2 ^ k \<le> used (ht0 d)") (auto simp: k)
  have "bit_ceil n \<le> 2 ^ k" if "n \<le> 2 ^ k" for n
  proof (rule ccontr)
    assume "\<not> ?thesis"
    then have "2 ^ k < bit_ceil n" by simp
    moreover have "is_pow2 (2 ^ k)" by (auto simp: is_pow2_iff)
    ultimately have "2 * 2 ^ k \<le> bit_ceil n" using pow2_double [OF _ is_pow2_bit_ceil] by blast
    moreover have "bit_ceil n < 2 * n \<or> n = 0" using bit_ceil_less [of n] by auto
    moreover have "bit_ceil 0 = 1" by (simp add: bit_ceil_def bit_ceil_from.simps)
    moreover have "(1::nat) \<le> 2 ^ k" by simp
    ultimately show False using that by (cases "n = 0") auto
  qed
  then show "ht_size (ht1 (maybe_shrink d)) \<le> ht_size (ht0 d)"
    using lt big k by (simp add: m)
  show "ht0 (maybe_shrink d) = ht0 d" by (simp add: m)
qed

section \<open>Sizes under the operations\<close>

definition sizes_le :: "nat \<Rightarrow> 'v dict \<Rightarrow> bool" where
  "sizes_le n d \<longleftrightarrow> ht_size (ht0 d) \<le> n \<and> ht_size (ht1 d) \<le> n"

lemma migrate_chain_size:
  "migrate_chain c t0 t1 = (t0', t1') \<Longrightarrow> ht_size t0' = ht_size t0 \<and> ht_size t1' = ht_size t1"
proof (induction c arbitrary: t0 t1)
  case (Cons e c)
  then have m: "migrate_chain c (t0\<lparr>used := used t0 - 1\<rparr>) (ht_prepend t1 e) = (t0', t1')" by simp
  from Cons.IH [OF m] show ?case by (simp add: ht_prepend_def Let_def)
qed simp

lemma rehash_loop_size:
  "rehash_loop n lm d = (d', early) \<Longrightarrow> ht_size (ht0 d') = ht_size (ht0 d) \<and> ht_size (ht1 d') = ht_size (ht1 d)"
proof (induction n lm d arbitrary: d' rule: rehash_loop.induct)
  case (2 n lm d)
  show ?case
  proof (cases "used (ht0 d) = 0")
    case False
    show ?thesis
    proof (cases "skip_empty (bucket_list (ht0 d)) (nat (rehashidx d)) lm")
      case (SkipFound i l)
      obtain t0 t1 where m: "migrate_chain (bucket (ht0 d) i) (ht0 d) (ht1 d) = (t0, t1)" by fastforce
      have "rehash_loop n l (d\<lparr>ht0 := set_bucket t0 i [], ht1 := t1, rehashidx := int i + 1\<rparr>) = (d', early)"
        using 2(2) False SkipFound m by simp
      from 2(1) [OF False SkipFound m [symmetric] this] migrate_chain_size [OF m] show ?thesis by simp
    qed (use 2(2) False in auto)
  qed (use 2(2) in auto)
qed simp

lemma sizes_le_rehash_step: "sizes_le n d \<Longrightarrow> sizes_le n (fst (rehash_step m d))"
proof -
  assume le: "sizes_le n d"
  obtain d' early where l: "rehash_loop m (int m * 10) d = (d', early)" by fastforce
  from rehash_loop_size [OF l] le show ?thesis
    by (auto simp: rehash_step_def l sizes_le_def ht_null_table_def)
qed

lemma sizes_le_rehash_if_needed: "sizes_le n d \<Longrightarrow> sizes_le n (rehash_if_needed d)"
  using sizes_le_rehash_step by (auto simp: rehash_if_needed_def)

lemma sizes_le_maybe_shrink:
  assumes "is_pow2 (ht_size (ht0 d))" "sizes_le n d"
  shows "sizes_le n (maybe_shrink d)"
proof (cases "is_rehashing d")
  case False
  then show ?thesis
    using shrink_only_sparse(2,3) [OF assms(1) False] assms(2)
    by (cases "is_rehashing (maybe_shrink d)")
      (auto simp: sizes_le_def maybe_shrink_def is_rehashing_def split: if_splits)
qed (simp add: maybe_shrink_def assms)

lemma ht_unlink_size: "ht_unlink t k h = Some (e, t') \<Longrightarrow> ht_size t' = ht_size t"
  by (auto simp: ht_unlink_def Let_def split: if_splits)

lemma dict_inv_pow2: "dict_inv d \<Longrightarrow> is_pow2 (ht_size (ht0 d))"
  using dict_invD(1,3) [of d] by (auto simp: ht_inv_def ht_shape_def ht_is_null_def split: option.splits)

lemma sizes_le_dict_del:
  assumes inv: "dict_inv d0" and le: "sizes_le n d0"
  shows "sizes_le n (fst (dict_del d0 k))"
proof -
  define d where "d = rehash_if_needed d0"
  have p: "is_pow2 (ht_size (ht0 d))" using dict_inv_pow2 [OF rehash_if_needed_inv [OF inv]] by (simp add: d_def)
  have l: "sizes_le n d" using sizes_le_rehash_if_needed [OF le] by (simp add: d_def)
  have rel: "sizes_le n (release v x) = sizes_le n x" for v and x :: "'a dict"
    by (simp add: sizes_le_def)
  have "sizes_le n (maybe_shrink ((release v d)\<lparr>ht0 := t\<rparr>))" if "ht_size t = ht_size (ht0 d)" for v t
    using that p l by (intro sizes_le_maybe_shrink) (simp_all add: sizes_le_def)
  moreover have "sizes_le n (maybe_shrink ((release v d)\<lparr>ht1 := t\<rparr>))" if "ht_size t = ht_size (ht1 d)" for v t
    using that p l by (intro sizes_le_maybe_shrink) (simp_all add: sizes_le_def)
  ultimately show ?thesis
    using l unfolding dict_del_def d_def [symmetric] Let_def
    by (auto split: option.split dest: ht_unlink_size)
qed

end
