(* ===== verification/Samples.thy ===== *)
theory Samples
  imports DictIndex
begin

text \<open>
  Hash values of a few one-letter keys under the key \<open>(0, 0)\<close>, computed once, and the bundle of
  definitions that evaluates the dictionary operations on concrete states. The witnesses of the
  other theories use them.
\<close>

lemmas sip_setup = siphash_1_2_def sip_blocks.simps sip_last_def sip_case_def

lemma hash_of_a: "siphash_1_2 ''a'' 0 0 = 12523601488019100690"
  by (simp add: sip_setup, simp add: sip_compress_def, simp add: sipround_def rotl64_def)

lemma hash_of_b: "siphash_1_2 ''b'' 0 0 = 3495679339473849377"
  by (simp add: sip_setup, simp add: sip_compress_def, simp add: sipround_def rotl64_def)

lemma hash_of_c: "siphash_1_2 ''c'' 0 0 = 4572096713559504181"
  by (simp add: sip_setup, simp add: sip_compress_def, simp add: sipround_def rotl64_def)

lemma hash_of_d: "siphash_1_2 ''d'' 0 0 = 16754143318177211182"
  by (simp add: sip_setup, simp add: sip_compress_def, simp add: sipround_def rotl64_def)

lemma hash_of_e: "siphash_1_2 ''e'' 0 0 = 13333453938971384040"
  by (simp add: sip_setup, simp add: sip_compress_def, simp add: sipround_def rotl64_def)

lemmas five_hashes = hash_of_a hash_of_b hash_of_c hash_of_d hash_of_e

lemmas dict_eval =
  dict_new_def ht_allocate_def ht_null_table_def dict_set_def rehash_if_needed_def is_rehashing_def
  dict_hash_def find_in_def ht_is_null_def bucket_def bucket_idx_def bucket_list_def set_bucket_def
  ht_prepend_def maybe_expand_def load_factor_def f32_of_usize_def bit_length.simps DICT_EXPAND_RATIO_def

end
