(* ===== verification/DictProps.thy ===== *)
theory DictProps
  imports DictSize Samples
begin

text \<open>
  The dictionary as a whole: sequences of calls against the finite map they implement, the
  values it owns, the end of a rehash, and its sampling.
\<close>

section \<open>Sequences of calls\<close>

datatype 'v dict_cmd =
    CallSet string "'v option"
  | CallGet string
  | CallGetConst string
  | CallExists string
  | CallDel string
  | CallSize
  | CallStep nat
  | CallClear

datatype 'v dict_reply = ReplyBool bool | ReplyValue "'v option" | ReplySize usize | ReplyVoid

fun dict_call :: "'v dict \<Rightarrow> 'v dict_cmd \<Rightarrow> 'v dict \<times> 'v dict_reply" where
  "dict_call d (CallSet k v) = (case dict_set d k v of (d', b) \<Rightarrow> (d', ReplyBool b))"
| "dict_call d (CallGet k) = (case dict_get d k of (d', v) \<Rightarrow> (d', ReplyValue v))"
| "dict_call d (CallGetConst k) = (d, ReplyValue (dict_get_const d k))"
| "dict_call d (CallExists k) = (d, ReplyBool (dict_exists d k))"
| "dict_call d (CallDel k) = (case dict_del d k of (d', b) \<Rightarrow> (d', ReplyBool b))"
| "dict_call d CallSize = (d, ReplySize (dict_size d))"
| "dict_call d (CallStep n) = (fst (rehash_step n d), ReplyVoid)"
| "dict_call d CallClear = (dict_clear d, ReplyVoid)"

text \<open>The specification: the same calls on a finite map.\<close>

fun map_call :: "(string \<rightharpoonup> 'v option) \<Rightarrow> 'v dict_cmd \<Rightarrow> (string \<rightharpoonup> 'v option) \<times> 'v dict_reply" where
  "map_call m (CallSet k v) = (m(k \<mapsto> v), ReplyBool (m k = None))"
| "map_call m (CallGet k) = (m, ReplyValue (flat (m k)))"
| "map_call m (CallGetConst k) = (m, ReplyValue (flat (m k)))"
| "map_call m (CallExists k) = (m, ReplyBool (flat (m k) \<noteq> None))"
| "map_call m (CallDel k) = (m(k := None), ReplyBool (m k \<noteq> None))"
| "map_call m CallSize = (m, ReplySize (card (dom m)))"
| "map_call m (CallStep n) = (m, ReplyVoid)"
| "map_call m CallClear = (Map.empty, ReplyVoid)"

fun run_calls :: "('s \<Rightarrow> 'c \<Rightarrow> 's \<times> 'r) \<Rightarrow> 's \<Rightarrow> 'c list \<Rightarrow> 's \<times> 'r list" where
  "run_calls f s [] = (s, [])"
| "run_calls f s (c # cs) =
     (case f s c of (s', r) \<Rightarrow> case run_calls f s' cs of (s'', rs) \<Rightarrow> (s'', r # rs))"

lemma dict_call_refines:
  assumes inv: "dict_inv d"
  shows "dict_inv (fst (dict_call d c))"
    and "map_call (dict_map d) c = (dict_map (fst (dict_call d c)), snd (dict_call d c))"
    and "has_deleter (fst (dict_call d c)) = has_deleter d"
proof -
  have "dict_inv (fst (dict_call d c)) \<and>
      map_call (dict_map d) c = (dict_map (fst (dict_call d c)), snd (dict_call d c)) \<and>
      has_deleter (fst (dict_call d c)) = has_deleter d"
  proof (cases c)
    case (CallSet k v)
    obtain d' b where s: "dict_set d k v = (d', b)" by fastforce
    show ?thesis using dict_set_eq [OF inv s] CallSet s by (simp add: same_frame_def)
  next
    case (CallGet k)
    note g = dict_get_eq [OF inv, of k]
    show ?thesis
      using g same_content_map [OF inv g(2)] CallGet
      by (simp add: case_prod_unfold same_content_def same_frame_def)
  next
    case (CallDel k)
    obtain d' b where s: "dict_del d k = (d', b)" by fastforce
    show ?thesis using dict_del_eq [OF inv s] CallDel s by (simp add: same_frame_def)
  next
    case (CallStep n)
    note g = rehash_step_same [OF inv, of n]
    show ?thesis
      using same_content_map [OF inv g] g CallStep by (simp add: same_content_def same_frame_def)
  next
    case CallClear
    show ?thesis using dict_clear_eq [OF inv] CallClear by (simp add: same_frame_def)
  qed (simp_all add: inv dict_get_const_eq dict_exists_eq dict_size_card)
  then show "dict_inv (fst (dict_call d c))"
    and "map_call (dict_map d) c = (dict_map (fst (dict_call d c)), snd (dict_call d c))"
    and "has_deleter (fst (dict_call d c)) = has_deleter d" by blast+
qed

lemma run_calls_refines:
  "dict_inv d \<Longrightarrow> run_calls dict_call d cs = (d', rs) \<Longrightarrow>
   dict_inv d' \<and> run_calls map_call (dict_map d) cs = (dict_map d', rs)"
proof (induction cs arbitrary: d rs)
  case (Cons c cs)
  note r = dict_call_refines [OF Cons.prems(1), of c]
  obtain rs' where rs: "run_calls dict_call (fst (dict_call d c)) cs = (d', rs')"
    "rs = snd (dict_call d c) # rs'"
    using Cons.prems(2) by (auto split: prod.splits)
  from Cons.IH [OF r(1) rs(1)] r(2) rs(2) show ?case by simp
qed simp

text \<open>C2. Every sequence of calls on a new dictionary, whatever rehashing they start, advance or
  finish, gives the replies that the same calls give on a finite map, ends in a state whose
  contents are that map, keeps the representation invariant and never reads the bucket array
  out of bounds.\<close>

theorem dict_implements_map:
  "case run_calls dict_call (dict_new b) cs of
     (d, rs) \<Rightarrow> run_calls map_call Map.empty cs = (dict_map d, rs) \<and> dict_inv d \<and> \<not> oob d"
proof -
  obtain d rs where r: "run_calls dict_call (dict_new b) cs = (d, rs)" by fastforce
  from run_calls_refines [OF dict_inv_new r] show ?thesis
    using dict_invD(4) [of d] by (simp add: r)
qed

section \<open>Ownership\<close>

fun given_values :: "'v dict_cmd list \<Rightarrow> 'v multiset" where
  "given_values [] = {#}"
| "given_values (CallSet k v # cs) = mset (opt_list v) + given_values cs"
| "given_values (_ # cs) = given_values cs"

lemma dict_call_owned:
  assumes inv: "dict_inv d" and del: "has_deleter d"
  shows "owned_values (fst (dict_call d c)) = owned_values d + given_values [c]"
proof (cases c)
  case (CallSet k v)
  obtain d' b where s: "dict_set d k v = (d', b)" by fastforce
  then show ?thesis using dict_set_owned [OF inv del s] CallSet by simp
next
  case (CallGet k)
  then show ?thesis
    using same_content_owned [OF inv dict_get_eq(2) [OF inv, of k]] by (simp add: case_prod_unfold)
next
  case (CallDel k)
  obtain d' b where s: "dict_del d k = (d', b)" by fastforce
  then show ?thesis using dict_del_owned [OF inv del s] CallDel by simp
next
  case (CallStep n)
  then show ?thesis using same_content_owned [OF inv rehash_step_same [OF inv, of n]] by simp
next
  case CallClear
  note c = dict_clear_eq [OF inv]
  have "live_values (dict_clear d) = {#}" using c(2) by (simp add: live_values_map [OF c(1)])
  then show ?thesis using c(6) del CallClear by (simp add: owned_values_def ac_simps)
qed simp_all

lemma given_values_Cons: "given_values (c # cs) = given_values [c] + given_values cs"
  by (cases c) simp_all

lemma run_calls_owned:
  "dict_inv d \<Longrightarrow> has_deleter d \<Longrightarrow>
   owned_values (fst (run_calls dict_call d cs)) = owned_values d + given_values cs \<and>
   dict_inv (fst (run_calls dict_call d cs)) \<and> has_deleter (fst (run_calls dict_call d cs))"
proof (induction cs arbitrary: d)
  case (Cons c cs)
  note r = dict_call_refines [OF Cons.prems(1), of c]
  have "has_deleter (fst (dict_call d c))" using r(3) Cons.prems(2) by simp
  from Cons.IH [OF r(1) this] dict_call_owned [OF Cons.prems, of c] show ?case
    by (simp add: case_prod_unfold given_values_Cons [of c cs] ac_simps)
qed simp

text \<open>C7. No value is leaked and none is freed twice: over any sequence of calls on a new
  dictionary with a value deleter, followed by its destructor, the deleter receives exactly the
  multiset of the non-null values that were passed to set.\<close>

theorem dict_frees_each_value_once:
  "mset (dict_destroy (fst (run_calls dict_call (dict_new True) cs))) = given_values cs"
proof -
  have "has_deleter (dict_new True :: 'a dict)" by (simp add: dict_new_def)
  note r = run_calls_owned [OF dict_inv_new this, of cs]
  have "owned_values (dict_new True :: 'a dict) = {#}"
    by (simp add: owned_values_def live_values_map) (simp add: dict_new_def)
  with r show ?thesis using dict_destroy_frees [of "fst (run_calls dict_call (dict_new True) cs)"] by simp
qed

section \<open>Rehashing ends\<close>

text \<open>C30. Rehashing terminates: from any state that satisfies the invariant, calling
  rehash\_step with a positive step count at most once per remaining bucket of the old table
  (plus one) ends the rehash, with the contents unchanged.\<close>

theorem rehash_terminates:
  assumes "dict_inv d" and "0 < n"
  shows "\<exists>m \<le> ht_size (ht0 d) + 1.
    \<not> is_rehashing ((dict_step n ^^ m) d) \<and> dict_map ((dict_step n ^^ m) d) = dict_map d"
proof (intro exI [of _ "rehash_left d"] conjI)
  have step: "dict_step n = (\<lambda>d. fst (rehash_step n d))" for n by (simp add: dict_step_def fun_eq_iff)
  show "rehash_left d \<le> ht_size (ht0 d) + 1" by (simp add: rehash_left_def)
  show "\<not> is_rehashing ((dict_step n ^^ rehash_left d) d)"
    using rehash_completes [OF assms] by (simp add: step)
  have "dict_inv ((dict_step n ^^ m) d) \<and> dict_map ((dict_step n ^^ m) d) = dict_map d" for m
  proof (induction m)
    case (Suc m)
    then have inv: "dict_inv ((dict_step n ^^ m) d)" by simp
    note sc = rehash_step_same [OF inv, of n]
    show ?case
      using Suc same_content_map [OF inv sc] sc by (simp add: step same_content_def)
  qed (simp add: assms)
  then show "dict_map ((dict_step n ^^ rehash_left d) d) = dict_map d" by blast
qed

definition five_calls :: "nat dict_cmd list" where
  "five_calls = [CallSet ''a'' (Some 0), CallSet ''b'' (Some 1), CallSet ''c'' (Some 2),
     CallSet ''d'' (Some 3), CallSet ''e'' (Some 4)]"

definition five_keys :: "nat dict" where
  "five_keys = fst (run_calls dict_call (dict_new True) five_calls)"

lemma five_keys_inv: "dict_inv five_keys"
  using run_calls_refines [OF dict_inv_new, of True five_calls]
  by (cases "run_calls dict_call (dict_new True) five_calls") (simp add: five_keys_def)

lemma five_keys_eq:
  "five_keys =
     \<lparr>ht0 = \<lparr>buckets = Some
        [[\<lparr>ekey = buf_of_sv ''e'', evalue = Some 4, ehash = 13333453938971384040\<rparr>],
         [\<lparr>ekey = buf_of_sv ''c'', evalue = Some 2, ehash = 4572096713559504181\<rparr>,
          \<lparr>ekey = buf_of_sv ''b'', evalue = Some 1, ehash = 3495679339473849377\<rparr>],
         [\<lparr>ekey = buf_of_sv ''d'', evalue = Some 3, ehash = 16754143318177211182\<rparr>,
          \<lparr>ekey = buf_of_sv ''a'', evalue = Some 0, ehash = 12523601488019100690\<rparr>], []],
        ht_size = 4, sizemask = 3, used = 5\<rparr>,
      ht1 = ht_allocate 16, rehashidx = 0, has_deleter = True, hash_key = (0, 0), freed = [], oob = False\<rparr>"
  by (simp add: five_keys_def five_calls_def dict_eval five_hashes bit_ceil_def bit_ceil_from.simps)
    (simp add: numeral_eq_Suc)

lemma five_keys_state:
  "is_rehashing five_keys" "ht_size (ht0 five_keys) = 4" "used (ht0 five_keys) = 5"
  "ht_size (ht1 five_keys) = 16"
  by (simp_all add: five_keys_eq is_rehashing_def)

lemma rehash_terminates_witness:
  "is_rehashing five_keys \<and>
   (\<exists>m \<le> ht_size (ht0 five_keys) + 1.
      \<not> is_rehashing ((dict_step 1 ^^ m) five_keys) \<and>
      dict_map ((dict_step 1 ^^ m) five_keys) = dict_map five_keys)"
  using rehash_terminates [OF five_keys_inv, of 1] five_keys_state by simp

section \<open>Sampling\<close>

text \<open>A random sample holds distinct entries of the dictionary, never more than asked for,
  and it is exhaustive on the drawn table: when that table holds no more entries than asked for,
  all of them are returned, whatever the generator draws.\<close>

lemma random_sample_spec:
  assumes inv: "dict_inv d" and fit: "ht_size (ht0 d) \<le> 2 ^ 64" "ht_size (ht1 d) \<le> 2 ^ 64"
  shows "length (random_sample d n r1 r2) \<le> n \<and>
    mset (random_sample d n r1 r2) \<subseteq># mset (ht_entries (sampled_table d r1)) \<and>
    distinct (map ekview (random_sample d n r1 r2)) \<and>
    (used (sampled_table d r1) \<le> n \<longrightarrow>
       mset (random_sample d n r1 r2) = mset (ht_entries (sampled_table d r1)))"
proof -
  let ?t = "sampled_table d r1"
  obtain es where es: "mset es = mset (ht_entries ?t)"
    and s: "random_sample d n r1 r2 = take (min n (dict_size d)) es"
    using random_sample_eq [OF assms] by blast
  have "distinct (map ekview (ht_entries ?t))"
    using dict_invD(5) [OF inv] by (simp add: dict_entries_def sampled_table_def)
  then have "distinct (map ekview es)" using distinct_views_mset [OF es] by simp
  then have "distinct (map ekview (take (min n (dict_size d)) es))"
    by (simp flip: take_map)
  moreover have len: "length es = used ?t"
    using arg_cong [OF es, of size] dict_invD(1,2) [OF inv] by (simp add: sampled_table_def ht_inv_def)
  moreover have "used ?t \<le> dict_size d" by (simp add: sampled_table_def dict_size_def)
  ultimately show ?thesis
    using mset_take_subset [of _ es] by (simp add: s es min_def flip: es)
qed

lemma random_sample_spec_sample:
  "length (random_sample five_keys 5 1 7) \<le> 5 \<and>
    distinct (map ekview (random_sample five_keys 5 1 7)) \<and>
    mset (random_sample five_keys 5 1 7) = mset (ht_entries (ht0 five_keys))"
proof -
  have fit: "ht_size (ht0 five_keys) \<le> 2 ^ 64" "ht_size (ht1 five_keys) \<le> 2 ^ 64"
    by (simp_all add: five_keys_state)
  have t: "sampled_table five_keys 1 = ht0 five_keys" by (simp add: sampled_table_def)
  show ?thesis
    using random_sample_spec [OF five_keys_inv fit, of 5 1 7] five_keys_state(3) by (simp add: t)
qed

end
