(* ===== verification/DictLoad.thy ===== *)
theory DictLoad
  imports DictProps
begin

text \<open>
  The load of the dictionary: what \<^verbatim>\<open>set\<close> with its call of \<^verbatim>\<open>maybe_expand\<close> keeps of the ratio of
  entries to buckets, over whole sequences of calls and in the middle of a rehash, although an
  entry that arrives during a rehash goes to the new table without another look at its load.
\<close>

section \<open>The float comparison\<close>

lemma f32_le_pow2:
  assumes "n \<le> 2 ^ k"
  shows "f32_of_usize n \<le> 2 ^ k"
proof (cases "n = 2 ^ k")
  case True
  then show ?thesis by (simp add: f32_pow2)
next
  case False
  let ?e = "bit_length n - 24"
  have n: "n < 2 ^ k" using False assms by simp
  show ?thesis
  proof (cases "?e = 0")
    case True
    then show ?thesis using assms by (simp add: f32_of_usize_def Let_def)
  next
    case e: False
    have L: "(2::nat) ^ bit_length n = 2 ^ 24 * 2 ^ ?e"
      using e by (subst power_add [symmetric]) simp
    have "n < 2 ^ 24 * 2 ^ ?e" using bit_length_lt [of n] unfolding L .
    then have "n div 2 ^ ?e < 2 ^ 24" by (rule less_mult_imp_div_less)
    then have "(n div 2 ^ ?e + 1) * 2 ^ ?e \<le> 2 ^ 24 * 2 ^ ?e" by (intro mult_right_mono) auto
    also have "\<dots> = 2 ^ bit_length n" by (rule L [symmetric])
    also have "\<dots> \<le> 2 ^ k" by (intro power_increasing bit_length_le n) simp
    finally have top: "(n div 2 ^ ?e + 1) * 2 ^ ?e \<le> 2 ^ k" .
    have "n div 2 ^ ?e * 2 ^ ?e \<le> (n div 2 ^ ?e + 1) * 2 ^ ?e" by simp
    with top e show ?thesis by (simp add: f32_of_usize_def Let_def)
  qed
qed

lemma f32_le_pow2_bound:
  assumes "f32_of_usize n \<le> 2 ^ k"
  shows "n * 2 ^ 24 \<le> 2 ^ k * (2 ^ 24 + 1)"
proof (cases "bit_length n - 24 = 0")
  case True
  then have "n \<le> 2 ^ k" using assms by (simp add: f32_of_usize_def Let_def)
  then show ?thesis by simp
next
  case False
  define e where "e = bit_length n - 24"
  define q where "q = n div 2 ^ e"
  define r where "r = n mod 2 ^ e"
  have e: "0 < e" using False by (simp add: e_def)
  then obtain e' where e': "e = Suc e'" using gr0_implies_Suc by blast
  have n: "n = q * 2 ^ e + r" unfolding q_def r_def by (rule div_mult_mod_eq [symmetric])
  have rl: "r < 2 ^ e" by (simp add: r_def)
  have f: "f32_of_usize n = (if 2 ^ e' < r \<or> (r = 2 ^ e' \<and> odd q) then (q + 1) * 2 ^ e else q * 2 ^ e)"
    using e by (simp add: f32_of_usize_def Let_def e_def [symmetric] q_def r_def e')
  have near: "n \<le> f32_of_usize n + 2 ^ e'"
  proof (cases "2 ^ e' < r \<or> (r = 2 ^ e' \<and> odd q)")
    case True
    then have "f32_of_usize n = q * 2 ^ e + 2 ^ e" by (simp add: f)
    then show ?thesis using n rl by linarith
  next
    case False
    then have "f32_of_usize n = q * 2 ^ e" "r \<le> 2 ^ e'" by (auto simp: f)
    then show ?thesis using n by linarith
  qed
  have "2 ^ (e + 23) \<le> n"
    using bit_length_ge [of n] False by (cases "n = 0") (simp_all add: e_def)
  then have "(2::nat) ^ (e + 23) \<le> 2 ^ k" using f32_ge_pow2 assms le_trans by blast
  then have "e + 23 \<le> k" by simp
  then have "(2::nat) ^ (e' + 24) \<le> 2 ^ k" by (intro power_increasing) (simp_all add: e')
  then have "2 ^ e' * 2 ^ 24 \<le> (2::nat) ^ k" by (simp add: power_add)
  moreover have "n * 2 ^ 24 \<le> (2 ^ k + 2 ^ e') * 2 ^ 24" using near assms by (intro mult_right_mono) auto
  ultimately show ?thesis by (simp add: algebra_simps)
qed

lemma expand_test:
  assumes "is_pow2 (ht_size (ht0 d))"
  shows "DICT_EXPAND_RATIO < load_factor d \<Longrightarrow> ht_size (ht0 d) < used (ht0 d)"
    and "\<not> DICT_EXPAND_RATIO < load_factor d \<Longrightarrow> used (ht0 d) * 2 ^ 24 \<le> ht_size (ht0 d) * (2 ^ 24 + 1)"
proof -
  obtain k where k: "ht_size (ht0 d) = 2 ^ k" using assms by (auto simp: is_pow2_iff)
  have "(0::rat) < of_nat (2 ^ k)" by simp
  then have test: "DICT_EXPAND_RATIO < load_factor d \<longleftrightarrow> 2 ^ k < f32_of_usize (used (ht0 d))"
    unfolding load_factor_def k f32_pow2 DICT_EXPAND_RATIO_def
    by (simp only: less_divide_eq_1_pos of_nat_less_iff power_eq_0_iff) simp
  show "DICT_EXPAND_RATIO < load_factor d \<Longrightarrow> ht_size (ht0 d) < used (ht0 d)"
    unfolding test k using f32_le_pow2 [of "used (ht0 d)" k] by linarith
  show "\<not> DICT_EXPAND_RATIO < load_factor d \<Longrightarrow> used (ht0 d) * 2 ^ 24 \<le> ht_size (ht0 d) * (2 ^ 24 + 1)"
    unfolding test k using f32_le_pow2_bound by (simp only: not_less)
qed

section \<open>The invariant\<close>

text \<open>The table that new entries go to.\<close>

definition capacity :: "'v dict \<Rightarrow> usize" where
  "capacity d = (if is_rehashing d then ht_size (ht1 d) else ht_size (ht0 d))"

text \<open>
  While a rehash that was started by growth is in progress, the new table has room for the
  entries of both tables and for one more per bucket of the old table that is still to be moved.
\<close>

definition roomy :: "'v dict \<Rightarrow> bool" where
  "roomy d \<longleftrightarrow>
     (if is_rehashing d then dict_size d + ht_size (ht0 d) \<le> ht_size (ht1 d) + nat (rehashidx d)
      else used (ht0 d) * 2 ^ 24 \<le> ht_size (ht0 d) * (2 ^ 24 + 1))"

definition tight :: "'v dict \<Rightarrow> bool" where
  "tight d \<longleftrightarrow> capacity d = 4 \<or> capacity d < 4 * dict_size d"

lemma rehashidx_bound: "dict_inv d \<Longrightarrow> is_rehashing d \<Longrightarrow> nat (rehashidx d) \<le> ht_size (ht0 d)"
  by (auto simp: dict_inv_def nat_le_iff)

lemma dict_size_idle: "dict_inv d \<Longrightarrow> \<not> is_rehashing d \<Longrightarrow> dict_size d = used (ht0 d)"
  using dict_invD(8) [of d] by (simp add: dict_size_def ht_null_table_def)

lemma roomy_load:
  assumes "dict_inv d" "roomy d"
  shows "dict_size d * 2 ^ 24 \<le> capacity d * (2 ^ 24 + 1)"
proof (cases "is_rehashing d")
  case True
  then have "dict_size d \<le> ht_size (ht1 d)"
    using assms(2) rehashidx_bound [OF assms(1)] by (simp add: roomy_def)
  then show ?thesis using True by (simp add: capacity_def)
next
  case False
  then show ?thesis using assms dict_size_idle [OF assms(1)] by (simp add: roomy_def capacity_def)
qed

lemma dict_size_same: "dict_inv d \<Longrightarrow> same_content d d' \<Longrightarrow> dict_size d' = dict_size d"
  using same_content_map [of d d'] by (simp add: dict_size_card same_content_def)

text \<open>A step of the rehash keeps both, and one that does not end the rehash makes room for one more.\<close>

lemma rehash_step_room:
  assumes inv: "dict_inv d" and r: "is_rehashing d" and room: "roomy d"
  shows "roomy (fst (rehash_step n d))" "capacity (fst (rehash_step n d)) = capacity d"
    and "0 < n \<Longrightarrow> is_rehashing (fst (rehash_step n d)) \<Longrightarrow>
      dict_size d + 1 + ht_size (ht0 (fst (rehash_step n d)))
        \<le> ht_size (ht1 (fst (rehash_step n d))) + nat (rehashidx (fst (rehash_step n d)))"
proof -
  let ?d = "fst (rehash_step n d)"
  obtain d' early where l: "rehash_loop n (int n * 10) d = (d', early)" by fastforce
  note f = rehash_loop_facts [OF inv r l] and sz = rehash_loop_size [OF l]
  have d': "dict_inv d'" "is_rehashing d'" using f by (auto simp: same_content_def)
  have sizes: "dict_size d' = dict_size d" using dict_size_same [OF inv] f by blast
  have fits: "dict_size d \<le> ht_size (ht1 d)" using room r rehashidx_bound [OF inv r] by (simp add: roomy_def)
  have all: "roomy ?d \<and> capacity ?d = capacity d \<and>
    (0 < n \<longrightarrow> is_rehashing ?d \<longrightarrow>
      dict_size d + 1 + ht_size (ht0 ?d) \<le> ht_size (ht1 ?d) + nat (rehashidx ?d))"
  proof (cases "\<not> early \<and> used (ht0 d') = 0")
    case True
    then have eq: "?d = d'\<lparr>ht0 := ht1 d', ht1 := ht_null_table, rehashidx := - 1\<rparr>"
      using r l by (simp add: rehash_step_def)
    have idle: "\<not> is_rehashing ?d" by (simp add: eq is_rehashing_def)
    have "used (ht1 d') \<le> ht_size (ht1 d)" using sizes fits True by (simp add: dict_size_def)
    then show ?thesis using idle sz r by (simp add: roomy_def capacity_def eq)
  next
    case False
    then have eq: "?d = d'" using r l by (auto simp: rehash_step_def)
    have "used (ht0 d) \<noteq> 0" if "0 < n"
    proof
      assume z: "used (ht0 d) = 0"
      then have "rehash_loop n (int n * 10) d = (d, False)" using that by (cases n) auto
      with l False z show False by simp
    qed
    then have "rehashidx d \<le> rehashidx d'" "0 < n \<longrightarrow> rehashidx d < rehashidx d'" using f by auto
    moreover have "0 \<le> rehashidx d" using r by (simp add: is_rehashing_def)
    ultimately show ?thesis
      using room r d' sz sizes unfolding eq by (simp add: roomy_def capacity_def) linarith
  qed
  then show "roomy ?d" "capacity ?d = capacity d"
    and "0 < n \<Longrightarrow> is_rehashing ?d \<Longrightarrow> dict_size d + 1 + ht_size (ht0 ?d) \<le> ht_size (ht1 ?d) + nat (rehashidx ?d)"
    by blast+
qed

lemma rehash_step_loaded:
  assumes "dict_inv d" "roomy d" "tight d"
  shows "roomy (fst (rehash_step n d)) \<and> tight (fst (rehash_step n d))"
proof (cases "is_rehashing d")
  case True
  then show ?thesis
    using rehash_step_room(1,2) [OF assms(1) True assms(2), of n] assms(3)
      dict_size_same [OF assms(1) rehash_step_same [OF assms(1), of n]] by (simp add: tight_def)
qed (use assms in \<open>simp add: rehash_step_def\<close>)

lemma rehash_if_needed_loaded:
  "dict_inv d \<Longrightarrow> roomy d \<Longrightarrow> tight d \<Longrightarrow> roomy (rehash_if_needed d) \<and> tight (rehash_if_needed d)"
  using rehash_step_loaded [of d 1] by (auto simp: rehash_if_needed_def)

section \<open>Insertion\<close>

text \<open>What \<^verbatim>\<open>set\<close> does to the sizes: an overwrite changes none, a new entry adds one to the table that
  takes it and then asks whether to expand.\<close>

lemma store_in_sizes [simp]:
  "ht_size (store_in t k h v) = ht_size t" "used (store_in t k h v) = used t"
  by (simp_all add: store_in_def Let_def)

lemma ht_prepend_sizes [simp]:
  "ht_size (ht_prepend t e) = ht_size t" "used (ht_prepend t e) = used t + 1"
  "ht_is_null (ht_prepend t e) \<longleftrightarrow> ht_is_null t"
  by (simp_all add: ht_prepend_def Let_def)

lemma release_rehashidx [simp]: "rehashidx (release v d) = rehashidx d"
  by (simp add: release_alt)

lemma dict_set_overwrites:
  assumes "dict_set d0 k v = (d', False)"
  defines "d \<equiv> rehash_if_needed d0"
  shows "rehashidx d' = rehashidx d \<and> ht_size (ht0 d') = ht_size (ht0 d) \<and> ht_size (ht1 d') = ht_size (ht1 d) \<and>
    used (ht0 d') = used (ht0 d) \<and> used (ht1 d') = used (ht1 d)"
  using assms(1) unfolding dict_set_def d_def [symmetric] Let_def
  by (auto split: option.splits if_splits)

lemma dict_set_inserts:
  assumes "dict_set d0 k v = (d', True)"
  defines "d \<equiv> rehash_if_needed d0"
  obtains t where "is_rehashing d" "d' = d\<lparr>ht1 := t\<rparr>" "ht_size t = ht_size (ht1 d)" "used t = used (ht1 d) + 1"
    | t where "\<not> is_rehashing d" "d' = maybe_expand (d\<lparr>ht0 := t\<rparr>)" "ht_size t = ht_size (ht0 d)"
      "used t = used (ht0 d) + 1" "ht_is_null t \<longleftrightarrow> ht_is_null (ht0 d)"
proof -
  let ?e = "\<lparr>ekey = buf_of_sv k, evalue = v, ehash = dict_hash d k\<rparr>"
  show ?thesis
  proof (cases "is_rehashing d")
    case True
    then have "d' = maybe_expand (d\<lparr>ht1 := ht_prepend (ht1 d) ?e\<rparr>)"
      using assms(1) unfolding dict_set_def d_def [symmetric] Let_def
      by (auto split: option.splits)
    moreover have "maybe_expand (d\<lparr>ht1 := t\<rparr>) = d\<lparr>ht1 := t\<rparr>" for t
      using True by (simp add: maybe_expand_def is_rehashing_def)
    ultimately show ?thesis using that(1) [OF True] by simp
  next
    case False
    then have "d' = maybe_expand (d\<lparr>ht0 := ht_prepend (ht0 d) ?e\<rparr>)"
      using assms(1) unfolding dict_set_def d_def [symmetric] Let_def
      by (auto split: option.splits)
    then show ?thesis using that(2) [OF False] by simp
  qed
qed

text \<open>After its look at the load, an idle table is within bounds whatever it was before.\<close>

lemma maybe_expand_loaded:
  assumes "is_pow2 (ht_size (ht0 d))" "\<not> ht_is_null (ht0 d)" "\<not> is_rehashing d" "used (ht1 d) = 0"
  shows "roomy (maybe_expand d)"
    and "ht_size (ht0 d) = 4 \<or> ht_size (ht0 d) < 4 * used (ht0 d) \<Longrightarrow> tight (maybe_expand d)"
proof -
  let ?n = "used (ht0 d)"
  have "roomy (maybe_expand d) \<and>
    (ht_size (ht0 d) = 4 \<or> ht_size (ht0 d) < 4 * ?n \<longrightarrow> tight (maybe_expand d))"
  proof (cases "DICT_EXPAND_RATIO < load_factor d")
    case True
    then have big: "ht_size (ht0 d) < ?n" using expand_test(1) [OF assms(1)] by blast
    have m: "maybe_expand d = d\<lparr>ht1 := ht_allocate (bit_ceil (?n * 2)), rehashidx := 0\<rparr>"
      using True assms by (simp add: maybe_expand_def)
    have "?n * 2 \<le> bit_ceil (?n * 2)" "bit_ceil (?n * 2) < 4 * ?n"
      using big bit_ceil_ge [of "?n * 2"] bit_ceil_less [of "?n * 2"] by auto
    then show ?thesis
      using big by (simp add: m roomy_def tight_def capacity_def is_rehashing_def dict_size_def ht_allocate_def)
  next
    case False
    then have "maybe_expand d = d" using assms(2,3) by (simp add: maybe_expand_def)
    then show ?thesis
      using expand_test(2) [OF assms(1) False] assms(3,4)
      by (simp add: roomy_def tight_def capacity_def dict_size_def)
  qed
  then show "roomy (maybe_expand d)"
    and "ht_size (ht0 d) = 4 \<or> ht_size (ht0 d) < 4 * used (ht0 d) \<Longrightarrow> tight (maybe_expand d)" by blast+
qed

lemma dict_set_loaded:
  assumes inv: "dict_inv d0" and room: "roomy d0" and tight: "tight d0"
  shows "roomy (fst (dict_set d0 k v)) \<and> tight (fst (dict_set d0 k v))"
proof -
  define d where "d = rehash_if_needed d0"
  have d: "dict_inv d" "roomy d" "tight d"
    using rehash_if_needed_inv [OF inv] rehash_if_needed_loaded [OF assms] by (simp_all add: d_def)
  obtain d' b where s: "dict_set d0 k v = (d', b)" by fastforce
  show ?thesis
  proof (cases b)
    case False
    with s have "dict_set d0 k v = (d', False)" by simp
    from dict_set_overwrites [OF this] d s show ?thesis
      by (auto simp: d_def [symmetric] roomy_def tight_def capacity_def dict_size_def is_rehashing_def
          split: if_splits)
  next
    case True
    with s have ins: "dict_set d0 k v = (d', True)" by simp
    from ins show ?thesis
    proof (cases rule: dict_set_inserts)
      case (1 t)
      then have r: "is_rehashing d" and d': "d' = d\<lparr>ht1 := t\<rparr>" by (simp_all add: d_def)
      have r0: "is_rehashing d0" and eq: "d = fst (rehash_step 1 d0)"
        using r by (simp_all add: d_def rehash_if_needed_def split: if_splits)
      have "dict_size d = dict_size d0"
        using dict_size_same [OF inv rehash_if_needed_same [OF inv]] by (simp add: d_def)
      then have "dict_size d + 1 + ht_size (ht0 d) \<le> ht_size (ht1 d) + nat (rehashidx d)"
        using rehash_step_room(3) [OF inv r0 room, of 1, folded eq] r by simp
      then show ?thesis
        using 1(3,4) d r s
        by (simp add: d' d_def [symmetric] roomy_def tight_def capacity_def dict_size_def is_rehashing_def) linarith
    next
      case (2 t)
      then have r: "\<not> is_rehashing d" and d': "d' = maybe_expand (d\<lparr>ht0 := t\<rparr>)"
        and t: "ht_size t = ht_size (ht0 d)" "used t = used (ht0 d) + 1"
        "ht_is_null t \<longleftrightarrow> ht_is_null (ht0 d)" by (simp_all add: d_def)
      let ?x = "d\<lparr>ht0 := t\<rparr>"
      have x: "is_pow2 (ht_size (ht0 ?x))" "\<not> is_rehashing ?x" "used (ht1 ?x) = 0"
        using dict_inv_pow2 [OF d(1)] dict_invD(8) [OF d(1) r] r t(1)
        by (simp_all add: is_rehashing_def ht_null_table_def)
      have grown: "ht_size (ht0 ?x) = 4 \<or> ht_size (ht0 ?x) < 4 * used (ht0 ?x)"
        using d(3) r t dict_size_idle [OF d(1) r] by (simp add: tight_def capacity_def) linarith
      have "\<not> ht_is_null (ht0 ?x)" using dict_invD(3) [OF d(1)] t(3) by simp
      then show ?thesis using maybe_expand_loaded [OF x(1) _ x(2,3)] grown s d' by simp
    qed
  qed
qed

section \<open>Sequences of calls\<close>

definition inserting :: "'v dict_cmd list \<Rightarrow> bool" where
  "inserting cs \<longleftrightarrow> (\<forall>k. CallDel k \<notin> set cs)"

lemma dict_call_loaded:
  assumes "dict_inv d" "roomy d" "tight d" "\<forall>k. c \<noteq> CallDel k"
  shows "roomy (fst (dict_call d c)) \<and> tight (fst (dict_call d c))"
proof (cases c)
  case (CallSet k v)
  then show ?thesis using dict_set_loaded [OF assms(1-3), of k v] by (simp add: case_prod_unfold)
next
  case (CallGet k)
  then show ?thesis using rehash_if_needed_loaded [OF assms(1-3)] by (simp add: dict_get_unfold)
next
  case (CallStep n)
  then show ?thesis using rehash_step_loaded [OF assms(1-3)] by simp
next
  case CallClear
  then show ?thesis
    by (simp add: dict_clear_def Let_def roomy_def tight_def capacity_def is_rehashing_def ht_allocate_def)
qed (use assms in simp_all)

lemma run_calls_loaded:
  "dict_inv d \<Longrightarrow> roomy d \<Longrightarrow> tight d \<Longrightarrow> inserting cs \<Longrightarrow>
   run_calls dict_call d cs = (d', rs) \<Longrightarrow> dict_inv d' \<and> roomy d' \<and> tight d'"
proof (induction cs arbitrary: d rs)
  case (Cons c cs)
  have c: "\<forall>k. c \<noteq> CallDel k" "inserting cs" using Cons.prems(4) by (auto simp: inserting_def)
  note l = dict_call_loaded [OF Cons.prems(1-3) c(1)] dict_call_refines(1) [OF Cons.prems(1), of c]
  obtain rs' where "run_calls dict_call (fst (dict_call d c)) cs = (d', rs')"
    using Cons.prems(5) by (auto split: prod.splits)
  from Cons.IH [OF l(2) _ _ c(2) this] l(1) show ?case by blast
qed simp

lemma new_loaded: "roomy (dict_new b)" "tight (dict_new b)"
  by (simp_all add: dict_new_def roomy_def tight_def capacity_def is_rehashing_def ht_allocate_def)

text \<open>C31. The load factor stays bounded. Over any sequence of calls without removals on a new
  dictionary -- insertions, overwrites, lookups, rehash steps in any order, so also insertions in
  the middle of a rehash, which go to the new table unchecked -- the entries of both tables never
  outnumber the buckets of the table that takes new entries by more than one in two to the 24 (the
  rounding of the two counts to float in the load factor), never at all while a rehash is under
  way, and that table is the initial one of four buckets or has less than four buckets per entry.
  Removals are excluded because they break the invariant behind it: a rehash that maybe\_shrink
  started takes new entries into the small table without looking at its load. The new size is
  what the code takes, the power of two from twice the number of entries on; dict.hpp:23 and
  documentation.md:896 say twice the capacity.\<close>

theorem dict_load_bounded:
  assumes "inserting cs" "run_calls dict_call (dict_new b) cs = (d, rs)"
  shows "dict_size d * 2 ^ 24 \<le> capacity d * (2 ^ 24 + 1) \<and>
    (is_rehashing d \<longrightarrow> dict_size d + ht_size (ht0 d) \<le> capacity d + nat (rehashidx d) \<and>
      nat (rehashidx d) \<le> ht_size (ht0 d)) \<and>
    (capacity d = 4 \<or> capacity d < 4 * dict_size d)"
proof -
  have d: "dict_inv d" "roomy d" "tight d"
    using run_calls_loaded [OF dict_inv_new new_loaded assms] by blast+
  from roomy_load [OF d(1,2)] rehashidx_bound [OF d(1)] d(2,3) show ?thesis
    by (simp add: roomy_def tight_def capacity_def)
qed

lemma dict_load_bounded_witness:
  "is_rehashing five_keys \<and> dict_size five_keys = 5 \<and> capacity five_keys = 16 \<and>
   5 * 2 ^ 24 \<le> capacity five_keys * (2 ^ 24 + 1) \<and>
   5 + ht_size (ht0 five_keys) \<le> capacity five_keys + nat (rehashidx five_keys) \<and>
   capacity five_keys < 4 * 5"
proof -
  have "inserting five_calls" by (simp add: inserting_def five_calls_def)
  moreover obtain rs where "run_calls dict_call (dict_new True) five_calls = (five_keys, rs)"
    by (cases "run_calls dict_call (dict_new True) five_calls") (simp add: five_keys_def)
  ultimately have load: "dict_size five_keys * 2 ^ 24 \<le> capacity five_keys * (2 ^ 24 + 1) \<and>
    (is_rehashing five_keys \<longrightarrow> dict_size five_keys + ht_size (ht0 five_keys) \<le> capacity five_keys + nat (rehashidx five_keys) \<and>
      nat (rehashidx five_keys) \<le> ht_size (ht0 five_keys)) \<and>
    (capacity five_keys = 4 \<or> capacity five_keys < 4 * dict_size five_keys)"
    by (rule dict_load_bounded)
  have "capacity five_keys = 16" "dict_size five_keys = 5"
    using five_keys_state dict_size_card [OF five_keys_inv]
    by (simp_all add: capacity_def dict_size_def five_keys_eq ht_allocate_def is_rehashing_def)
  with load five_keys_state(1) show ?thesis by simp
qed

end
