(* ===== verification/RespParser.thy ===== *)
theory RespParser
  imports CharConv
begin

text \<open>
  RESP2 values and the streaming parser: \<^verbatim>\<open>include/keva/protocol/resp_types.hpp\<close> and
  \<^verbatim>\<open>src/protocol/resp_parser.cpp\<close>. The parser works on the input and a cursor, as the code does.

  The recursion of \<^verbatim>\<open>parse_value\<close> through \<^verbatim>\<open>parse_array\<close> takes fuel, one unit per nesting
  level; \<open>PFuel\<close> is its exhaustion, and a fuel above the number of unread bytes is always enough.
  \<^verbatim>\<open>elements.reserve(count)\<close> asks the allocator for room for \<open>count\<close> elements before any of them has
  arrived: whether that succeeds is the parameter \<open>rsv\<close>, and a refusal (an exception that nothing
  catches) is \<open>PAbort\<close>.
\<close>

section \<open>Values\<close>

datatype resp_value =
    SimpleString string
  | RespError string
  | RespInteger i64
  | BulkString string
  | RespArray "resp_value list"
  | RespNil

fun rv_str :: "resp_value \<Rightarrow> string" where
  "rv_str (SimpleString s) = s"
| "rv_str (RespError s) = s"
| "rv_str (BulkString s) = s"
| "rv_str _ = []"

fun rv_elements :: "resp_value \<Rightarrow> resp_value list" where
  "rv_elements (RespArray vs) = vs"
| "rv_elements _ = []"

fun rv_int :: "resp_value \<Rightarrow> i64" where
  "rv_int (RespInteger n) = n"
| "rv_int _ = 0"

definition is_nil :: "resp_value \<Rightarrow> bool" where
  "is_nil v \<longleftrightarrow> v = RespNil"

fun is_array :: "resp_value \<Rightarrow> bool" where
  "is_array (RespArray _) = True"
| "is_array _ = False"

fun is_bulk_string :: "resp_value \<Rightarrow> bool" where
  "is_bulk_string (BulkString _) = True"
| "is_bulk_string _ = False"

fun is_integer :: "resp_value \<Rightarrow> bool" where
  "is_integer (RespInteger _) = True"
| "is_integer _ = False"

fun is_error :: "resp_value \<Rightarrow> bool" where
  "is_error (RespError _) = True"
| "is_error _ = False"

fun is_simple_string :: "resp_value \<Rightarrow> bool" where
  "is_simple_string (SimpleString _) = True"
| "is_simple_string _ = False"

datatype parse_result =
    PComplete resp_value usize
  | PIncomplete
  | PError
  | PAbort
  | PFuel

section \<open>Lines\<close>

fun find_crlf :: "string \<Rightarrow> usize option" where
  "find_crlf (c # d # cs) =
     (if c = CR \<and> d = LF then Some 0 else map_option Suc (find_crlf (d # cs)))"
| "find_crlf _ = None"

definition parse_line :: "string \<Rightarrow> usize \<Rightarrow> (string \<times> usize) option" where
  "parse_line input pos =
     (case find_crlf (drop pos input) of
        None \<Rightarrow> None
      | Some crlf \<Rightarrow> Some (take crlf (drop pos input), pos + crlf + 2))"

section \<open>The parser\<close>

definition parse_simple :: "string \<Rightarrow> usize \<Rightarrow> parse_result" where
  "parse_simple input pos =
     (if length input \<le> pos then PIncomplete
      else
        let prefix = input ! pos
        in case parse_line input (pos + 1) of
             None \<Rightarrow> PIncomplete
           | Some (line, pos) \<Rightarrow>
               if prefix = CHR ''+'' then PComplete (SimpleString line) pos
               else if prefix = CHR ''-'' then PComplete (RespError line) pos
               else if prefix = CHR '':'' then
                 (case from_chars line of
                    (ec, v, _) \<Rightarrow> if ec \<noteq> ErrcOk then PError else PComplete (RespInteger v) pos)
               else PError)"

definition parse_bulk_string :: "string \<Rightarrow> usize \<Rightarrow> parse_result" where
  "parse_bulk_string input pos =
     (if length input \<le> pos then PIncomplete
      else case parse_line input (pos + 1) of
             None \<Rightarrow> PIncomplete
           | Some (len_str, pos) \<Rightarrow>
               (case from_chars len_str of
                  (ec, len, _) \<Rightarrow>
                    if ec \<noteq> ErrcOk then PError
                    else if len = - 1 then PComplete RespNil pos
                    else if len < 0 then PError
                    else
                      let payload_end = pos + nat len + 2
                      in if length input < payload_end then PIncomplete
                         else
                           let payload = take (nat len) (drop pos input)
                           in if input ! (pos + nat len) \<noteq> CR \<or> input ! (pos + nat len + 1) \<noteq> LF
                              then PError
                              else PComplete (BulkString payload) (pos + nat len + 2)))"

datatype elems_result = EComplete "resp_value list" usize | EStop parse_result

text \<open>
  \<open>parse_array\<close> is the last case of \<open>parse_value\<close>; its loop over the elements is \<open>parse_elems\<close>. The
  machine stack is unbounded here; the code has no limit on the nesting of arrays.
\<close>

function parse_value :: "(nat \<Rightarrow> bool) \<Rightarrow> nat \<Rightarrow> string \<Rightarrow> usize \<Rightarrow> parse_result"
  and parse_array :: "(nat \<Rightarrow> bool) \<Rightarrow> nat \<Rightarrow> string \<Rightarrow> usize \<Rightarrow> parse_result"
  and parse_elems :: "(nat \<Rightarrow> bool) \<Rightarrow> nat \<Rightarrow> string \<Rightarrow> usize \<Rightarrow> nat \<Rightarrow> resp_value list \<Rightarrow> elems_result" where
  "parse_value rsv fuel input pos =
     (if length input \<le> pos then PIncomplete
      else
        let prefix = input ! pos
        in if prefix = CHR ''+'' \<or> prefix = CHR ''-'' \<or> prefix = CHR '':'' then parse_simple input pos
           else if prefix = CHR ''$'' then parse_bulk_string input pos
           else if prefix = CHR ''*'' then parse_array rsv fuel input pos
           else PError)"
| "parse_array rsv fuel input pos =
     (if length input \<le> pos then PIncomplete
      else case parse_line input (pos + 1) of
             None \<Rightarrow> PIncomplete
           | Some (count_str, pos) \<Rightarrow>
               (case from_chars count_str of
                  (ec, cnt, _) \<Rightarrow>
                    if ec \<noteq> ErrcOk then PError
                    else if cnt = - 1 then PComplete RespNil pos
                    else if cnt < 0 then PError
                    else if \<not> rsv (nat cnt) then PAbort
                    else case fuel of
                           0 \<Rightarrow> PFuel
                         | Suc fuel \<Rightarrow>
                             (case parse_elems rsv fuel input pos (nat cnt) [] of
                                EComplete elements pos \<Rightarrow> PComplete (RespArray elements) pos
                              | EStop r \<Rightarrow> r)))"
| "parse_elems rsv fuel input pos todo elements =
     (case todo of
        0 \<Rightarrow> EComplete elements pos
      | Suc todo \<Rightarrow>
          (case parse_value rsv fuel input pos of
             PComplete elem pos \<Rightarrow> parse_elems rsv fuel input pos todo (elements @ [elem])
           | r \<Rightarrow> EStop r))"
  by pat_completeness auto
termination
proof (relation "inv_image (less_than <*lex*> less_than)
    (\<lambda>x. case x of Inl (_, f, _, _) \<Rightarrow> (f, 1) | Inr (Inl (_, f, _, _)) \<Rightarrow> (f, 0)
                 | Inr (Inr (_, f, _, _, t, _)) \<Rightarrow> (f, Suc (Suc t)))", goal_cases)
qed auto

declare parse_value.simps [simp del] parse_array.simps [simp del] parse_elems.simps [simp del]

definition parse :: "(nat \<Rightarrow> bool) \<Rightarrow> string \<Rightarrow> parse_result" where
  "parse rsv input = parse_value rsv (length input + 1) input 0"

text \<open>\<^verbatim>\<open>reset\<close>: the parser keeps no state between calls.\<close>

definition parser_reset :: "unit \<Rightarrow> unit" where
  "parser_reset _ = ()"

section \<open>Lines and extension of the input\<close>

lemma find_crlf_le: "find_crlf s = Some i \<Longrightarrow> i + 2 \<le> length s"
  by (induction s arbitrary: i rule: find_crlf.induct) (auto split: if_splits)

lemma find_crlf_append: "find_crlf s = Some i \<Longrightarrow> find_crlf (s @ t) = Some i"
  by (induction s arbitrary: i rule: find_crlf.induct) (auto split: if_splits)

lemma find_crlf_exact: "find_crlf s = None \<Longrightarrow> find_crlf (s @ CRLF @ t) = Some (length s)"
proof (induction s rule: find_crlf.induct)
  case (1 c d cs)
  then show ?case by (auto split: if_splits)
qed simp_all

lemma find_crlf_no_CR: "CR \<notin> set s \<Longrightarrow> find_crlf s = None"
  by (induction s rule: find_crlf.induct) auto

lemma parse_line_mono: "parse_line s p = Some (l, q) \<Longrightarrow> p < q"
  by (auto simp: parse_line_def split: option.splits)

lemma parse_line_le: "parse_line s p = Some (l, q) \<Longrightarrow> p \<le> length s \<Longrightarrow> q \<le> length s"
  by (auto simp: parse_line_def split: option.splits dest!: find_crlf_le)

lemma parse_line_append: "parse_line s p = Some (l, q) \<Longrightarrow> p \<le> length s \<Longrightarrow> parse_line (s @ t) p = Some (l, q)"
  using find_crlf_append [of "drop p s" _ t]
  by (auto simp: parse_line_def split: option.splits dest: find_crlf_le)

fun settled :: "parse_result \<Rightarrow> bool" where
  "settled PIncomplete = False"
| "settled PFuel = False"
| "settled _ = True"

lemma parse_simple_append: "settled (parse_simple s p) \<Longrightarrow> parse_simple (s @ t) p = parse_simple s p"
  using parse_line_append [of s "p + 1" _ _ t]
  by (auto simp: parse_simple_def Let_def nth_append split: option.splits if_splits)

lemma parse_bulk_append: "settled (parse_bulk_string s p) \<Longrightarrow> parse_bulk_string (s @ t) p = parse_bulk_string s p"
proof (cases "length s \<le> p \<or> parse_line s (p + 1) = None")
  case False
  assume st: "settled (parse_bulk_string s p)"
  obtain l q where l: "parse_line s (p + 1) = Some (l, q)" using False by auto
  have p: "p + 1 \<le> length s" using False by simp
  have q: "q \<le> length s" using parse_line_le [OF l p] .
  note l' = parse_line_append [OF l p, of t]
  obtain ec v n where fc: "from_chars l = (ec, v, n)" by (cases "from_chars l")
  show ?thesis
    using st p q l l' fc
    by (auto simp: parse_bulk_string_def Let_def nth_append split: if_splits)
qed (auto simp: parse_bulk_string_def split: if_splits)

lemma parse_append:
  "settled (parse_value rsv f s p) \<Longrightarrow> parse_value rsv f (s @ t) p = parse_value rsv f s p"
  "settled (parse_array rsv f s p) \<Longrightarrow> parse_array rsv f (s @ t) p = parse_array rsv f s p"
  "(case parse_elems rsv f s p n es of EStop r \<Rightarrow> settled r | _ \<Rightarrow> True) \<Longrightarrow>
     parse_elems rsv f (s @ t) p n es = parse_elems rsv f s p n es"
proof (induction rsv f s p and rsv f s p and rsv f s p n es rule: parse_value_parse_array_parse_elems.induct)
  case (1 rsv fuel input pos)
  then show ?case
    using parse_simple_append [of input pos t] parse_bulk_append [of input pos t]
    by (auto simp: parse_value.simps [of rsv fuel _ pos] Let_def nth_append split: if_splits)
next
  case (2 rsv fuel input pos)
  show ?case
  proof (cases "length input \<le> pos \<or> parse_line input (pos + 1) = None")
    case True
    then show ?thesis using 2(2) by (auto simp: parse_array.simps [of rsv fuel input])
  next
    case False
    then obtain l q where l: "parse_line input (pos + 1) = Some (l, q)" by auto
    have p: "pos + 1 \<le> length input" using False by simp
    note l' = parse_line_append [OF l p, of t]
    obtain ec v n where fc: "from_chars l = (ec, v, n)" by (cases "from_chars l")
    show ?thesis
    proof (cases "ec \<noteq> ErrcOk \<or> v < 0 \<or> \<not> rsv (nat v) \<or> fuel = 0")
      case True
      then show ?thesis
        using l l' fc p by (auto simp: parse_array.simps [of rsv fuel] split: nat.splits)
    next
      case False
      then obtain g where g: "fuel = Suc g" by (cases fuel) auto
      have "parse_elems rsv g (input @ t) q (nat v) [] = parse_elems rsv g input q (nat v) []"
      proof (rule 2(1) [OF _ l refl fc [symmetric] refl _ _ _ _ g])
        show "case parse_elems rsv g input q (nat v) [] of EComplete _ _ \<Rightarrow> True | EStop r \<Rightarrow> settled r"
          using 2(2) l fc p False g
          by (auto simp: parse_array.simps [of rsv "Suc g"] split: elems_result.splits)
      qed (use p False in auto)
      then show ?thesis
        using l l' fc p False g by (auto simp: parse_array.simps [of rsv "Suc g"])
    qed
  qed
next
  case (3 rsv fuel input pos todo elements)
  show ?case
  proof (cases todo)
    case 0
    then show ?thesis by (simp add: parse_elems.simps)
  next
    case (Suc m)
    show ?thesis
    proof (cases "parse_value rsv fuel input pos")
      case (PComplete e q)
      then have "parse_value rsv fuel (input @ t) pos = PComplete e q" using 3(1) [OF Suc] by simp
      then show ?thesis
        using 3(2) [OF Suc PComplete] 3(3) Suc PComplete
        by (simp add: parse_elems.simps [of rsv fuel _ pos])
    qed (use 3 Suc in \<open>auto simp: parse_elems.simps [of rsv fuel _ pos]\<close>)
  qed
qed

section \<open>The cursor stays inside the input\<close>

lemma parse_simple_bounds: "parse_simple s p = PComplete v q \<Longrightarrow> p < q \<and> q \<le> length s"
proof -
  assume pc: "parse_simple s p = PComplete v q"
  then have p: "p < length s" by (auto simp: parse_simple_def split: if_splits)
  then obtain l r where l: "parse_line s (p + 1) = Some (l, r)"
    using pc by (auto simp: parse_simple_def Let_def split: option.splits)
  have "q = r" using pc p l by (auto simp: parse_simple_def Let_def split: if_splits prod.splits)
  then show ?thesis using parse_line_mono [OF l] parse_line_le [OF l] p by simp
qed

lemma parse_bulk_bounds: "parse_bulk_string s p = PComplete v q \<Longrightarrow> p < q \<and> q \<le> length s"
proof -
  assume pc: "parse_bulk_string s p = PComplete v q"
  then have p: "p < length s" by (auto simp: parse_bulk_string_def split: if_splits)
  then obtain l r where l: "parse_line s (p + 1) = Some (l, r)"
    using pc by (auto simp: parse_bulk_string_def split: option.splits)
  note m = parse_line_mono [OF l] parse_line_le [OF l]
  have "r \<le> q \<and> q \<le> length s"
    using pc p l m by (auto simp: parse_bulk_string_def Let_def split: if_splits prod.splits)
  then show ?thesis using m by simp
qed

lemma parse_elems_stop: "parse_elems rsv f s p n es \<noteq> EStop (PComplete v q)"
proof (induction n arbitrary: p es)
  case (Suc n)
  then show ?case
    by (cases "parse_value rsv f s p") (simp_all add: parse_elems.simps [of rsv f s p])
qed (simp add: parse_elems.simps)

lemma parse_bounds:
  "parse_value rsv f s p = PComplete v q \<Longrightarrow> p < q \<and> q \<le> length s"
  "parse_array rsv f s p = PComplete v q \<Longrightarrow> p < q \<and> q \<le> length s"
  "parse_elems rsv f s p n es = EComplete vs q \<Longrightarrow> p \<le> length s \<Longrightarrow> p \<le> q \<and> q \<le> length s"
proof (induction rsv f s p and rsv f s p and rsv f s p n es arbitrary: v q and v q and vs q
    rule: parse_value_parse_array_parse_elems.induct)
  case (1 rsv fuel input pos)
  then show ?case
    by (auto simp: parse_value.simps [of rsv fuel input pos] Let_def dest: parse_simple_bounds parse_bulk_bounds
        split: if_splits)
next
  case (2 rsv fuel input pos)
  then have p: "pos < length input" by (auto simp: parse_array.simps [of rsv fuel input pos] split: if_splits)
  then obtain l r where l: "parse_line input (pos + 1) = Some (l, r)"
    using 2(2) by (auto simp: parse_array.simps [of rsv fuel input pos] split: option.splits)
  have m: "pos + 1 < r" "r \<le> length input" using parse_line_mono [OF l] parse_line_le [OF l] p by auto
  obtain ec c n where fc: "from_chars l = (ec, c, n)" by (cases "from_chars l")
  show ?case
  proof (cases "ec = ErrcOk \<and> 0 \<le> c \<and> rsv (nat c) \<and> fuel \<noteq> 0")
    case False
    then show ?thesis
      using 2(2) l fc m p by (auto simp: parse_array.simps [of rsv fuel input pos] split: if_splits nat.splits)
  next
    case True
    then obtain g where g: "fuel = Suc g" by (cases fuel) auto
    obtain es where "parse_elems rsv g input r (nat c) [] = EComplete es q"
      using 2(2) l fc p True g
      by (auto simp: parse_array.simps [of rsv "Suc g" input pos] parse_elems_stop split: elems_result.splits)
    then have "r \<le> q \<and> q \<le> length input"
      using p True m(2) by (intro 2(1) [OF _ l refl fc [symmetric] refl _ _ _ _ g]) auto
    then show ?thesis using m by simp
  qed
next
  case (3 rsv fuel input pos todo elements)
  show ?case
  proof (cases todo)
    case 0
    then show ?thesis using 3 by (simp add: parse_elems.simps)
  next
    case (Suc m)
    then obtain e r where e: "parse_value rsv fuel input pos = PComplete e r"
      "parse_elems rsv fuel input r m (elements @ [e]) = EComplete vs q"
      using 3(3) by (auto simp: parse_elems.simps [of rsv fuel input pos] split: parse_result.splits)
    show ?thesis using 3(1) [OF Suc e(1)] 3(2) [OF Suc e] by simp
  qed
qed

section \<open>Fuel\<close>

lemma parse_simple_fuel: "parse_simple s p \<noteq> PFuel"
  and parse_bulk_fuel: "parse_bulk_string s p \<noteq> PFuel"
  by (auto simp: parse_simple_def parse_bulk_string_def Let_def split: option.splits prod.splits if_splits)

text \<open>Fuel above the number of unread bytes suffices, and more fuel changes nothing.\<close>

lemma parse_enough_fuel:
  "length s < p + f \<Longrightarrow> parse_value rsv f s p \<noteq> PFuel"
  "length s < p + f \<Longrightarrow> parse_array rsv f s p \<noteq> PFuel"
  "length s < p + f \<Longrightarrow> parse_elems rsv f s p n es \<noteq> EStop PFuel"
proof (induction rsv f s p and rsv f s p and rsv f s p n es rule: parse_value_parse_array_parse_elems.induct)
  case (1 rsv fuel input pos)
  then show ?case
    using parse_simple_fuel parse_bulk_fuel by (auto simp: parse_value.simps [of rsv fuel input pos] Let_def)
next
  case (2 rsv fuel input pos)
  show ?case
  proof
    assume pf: "parse_array rsv fuel input pos = PFuel"
    then have p: "pos < length input" by (auto simp: parse_array.simps [of rsv fuel input pos] split: if_splits)
    then obtain l r where l: "parse_line input (pos + 1) = Some (l, r)"
      using pf by (auto simp: parse_array.simps [of rsv fuel input pos] split: option.splits)
    have m: "pos + 1 < r" using parse_line_mono [OF l] .
    obtain ec c n where fc: "from_chars l = (ec, c, n)" by (cases "from_chars l")
    obtain g where g: "fuel = Suc g" using 2(2) p by (cases fuel) auto
    have ok: "ec = ErrcOk" "\<not> c < 0" "rsv (nat c)" "parse_elems rsv g input r (nat c) [] = EStop PFuel"
      using pf p l fc g by (auto simp: parse_array.simps [of rsv "Suc g" input pos] split: if_splits elems_result.splits)
    have "parse_elems rsv g input r (nat c) [] \<noteq> EStop PFuel"
      using ok p 2(2) m g by (intro 2(1) [OF _ l refl fc [symmetric] refl _ _ _ _ g]) auto
    with ok show False by simp
  qed
next
  case (3 rsv fuel input pos todo elements)
  show ?case
  proof (cases todo)
    case 0
    then show ?thesis by (simp add: parse_elems.simps)
  next
    case (Suc m)
    show ?thesis
    proof (cases "parse_value rsv fuel input pos")
      case (PComplete e r)
      then have "length input < r + fuel" using 3(3) parse_bounds(1) [OF PComplete] by simp
      from 3(2) [OF Suc PComplete this] show ?thesis
        using Suc PComplete by (simp add: parse_elems.simps [of rsv fuel input pos])
    next
      case PFuel
      then show ?thesis using 3(1) [OF Suc 3(3)] by simp
    qed (use Suc in \<open>auto simp: parse_elems.simps [of rsv fuel input pos]\<close>)
  qed
qed

lemma parse_fuel_mono:
  "parse_value rsv f s p \<noteq> PFuel \<Longrightarrow> f \<le> g \<Longrightarrow> parse_value rsv g s p = parse_value rsv f s p"
  "parse_array rsv f s p \<noteq> PFuel \<Longrightarrow> f \<le> g \<Longrightarrow> parse_array rsv g s p = parse_array rsv f s p"
  "parse_elems rsv f s p n es \<noteq> EStop PFuel \<Longrightarrow> f \<le> g \<Longrightarrow> parse_elems rsv g s p n es = parse_elems rsv f s p n es"
proof (induction rsv f s p and rsv f s p and rsv f s p n es arbitrary: g and g and g
    rule: parse_value_parse_array_parse_elems.induct)
  case (1 rsv fuel input pos)
  show ?case
  proof (cases "length input \<le> pos \<or> input ! pos \<noteq> CHR ''*''")
    case True
    then show ?thesis by (auto simp: parse_value.simps [of rsv _ input pos] Let_def)
  next
    case False
    then have v: "parse_value rsv f input pos = parse_array rsv f input pos" for f
      by (simp add: parse_value.simps [of rsv _ input pos])
    have "parse_array rsv fuel input pos \<noteq> PFuel" using 1(2) v by simp
    then have "parse_array rsv g input pos = parse_array rsv fuel input pos"
      using False 1(3) by (intro 1(1)) auto
    then show ?thesis by (simp only: v)
  qed
next
  case (2 rsv fuel input pos)
  show ?case
  proof (cases "length input \<le> pos \<or> parse_line input (pos + 1) = None")
    case True
    then show ?thesis by (auto simp: parse_array.simps [of rsv _ input pos])
  next
    case False
    then obtain l r where l: "parse_line input (pos + 1) = Some (l, r)" by auto
    have p: "pos < length input" using False by simp
    obtain ec c n where fc: "from_chars l = (ec, c, n)" by (cases "from_chars l")
    show ?thesis
    proof (cases "ec \<noteq> ErrcOk \<or> c < 0 \<or> \<not> rsv (nat c)")
      case True
      then show ?thesis using l fc p by (auto simp: parse_array.simps [of rsv _ input pos])
    next
      case ok: False
      then obtain f' where f': "fuel = Suc f'"
        using 2(2) l fc p by (cases fuel) (auto simp: parse_array.simps [of rsv _ input pos])
      then obtain g' where g': "g = Suc g'" "f' \<le> g'" using 2(3) by (cases g) auto
      have "parse_elems rsv f' input r (nat c) [] \<noteq> EStop PFuel"
        using 2(2) l fc p ok f'
        by (auto simp: parse_array.simps [of rsv _ input pos] split: elems_result.splits)
      then have "parse_elems rsv g' input r (nat c) [] = parse_elems rsv f' input r (nat c) []"
        using ok p g'(2) by (intro 2(1) [OF _ l refl fc [symmetric] refl _ _ _ _ f']) auto
      then show ?thesis using l fc p ok f' g' by (auto simp: parse_array.simps [of rsv _ input pos])
    qed
  qed
next
  case (3 rsv fuel input pos todo elements)
  show ?case
  proof (cases todo)
    case 0
    then show ?thesis by (simp add: parse_elems.simps)
  next
    case (Suc m)
    have nf: "parse_value rsv fuel input pos \<noteq> PFuel"
      using 3(3) Suc by (auto simp: parse_elems.simps [of rsv fuel input pos])
    note v = 3(1) [OF Suc nf 3(4)]
    show ?thesis
    proof (cases "parse_value rsv fuel input pos")
      case (PComplete e r)
      have "parse_elems rsv fuel input r m (elements @ [e]) \<noteq> EStop PFuel"
        using 3(3) Suc PComplete by (auto simp: parse_elems.simps [of rsv fuel input pos])
      from 3(2) [OF Suc PComplete this 3(4)] show ?thesis
        using Suc PComplete v by (simp add: parse_elems.simps [of rsv _ input pos])
    qed (use Suc v nf in \<open>auto simp: parse_elems.simps [of rsv _ input pos]\<close>)
  qed
qed

lemma parse_total: "parse rsv s \<noteq> PFuel"
  unfolding parse_def by (rule parse_enough_fuel(1)) simp

lemma parse_by_fuel: "parse_value rsv f s 0 \<noteq> PFuel \<Longrightarrow> parse rsv s = parse_value rsv f s 0"
  using parse_fuel_mono(1) [of rsv f s 0 "max f (length s + 1)"] parse_fuel_mono(1) [of rsv "length s + 1" s 0 "max f (length s + 1)"]
    parse_total [of rsv s]
  by (simp add: parse_def)

lemma settled_parse_append: "settled (parse rsv s) \<Longrightarrow> parse rsv (s @ t) = parse rsv s"
proof -
  assume st: "settled (parse rsv s)"
  have "parse_value rsv (length s + 1) (s @ t) 0 = parse rsv s"
    using parse_append(1) [of rsv "length s + 1" s 0 t] st by (simp add: parse_def)
  moreover from this have "parse rsv (s @ t) = parse_value rsv (length s + 1) (s @ t) 0"
    using parse_by_fuel [of rsv "length s + 1" "s @ t"] parse_total [of rsv s] by simp
  ultimately show ?thesis by simp
qed

end
