(* ===== verification/UnitTests.thy ===== *)
theory UnitTests
  imports DictProps RespParser
begin

text \<open>
  The unit tests of the repository (\<^verbatim>\<open>tests/unit\<close>), case by case, as predicates on the model. That all
  of them hold checks the model against what the authors expect of the code. The addresses that the
  tests store in a dictionary are numbers here.
\<close>

section \<open>Buffer\<close>

definition buffer_default_construct :: bool where
  "buffer_default_construct \<longleftrightarrow> (let b = buf_empty in buf_size b = 0 \<and> buf_view b = [])"

definition buffer_from_string_view :: bool where
  "buffer_from_string_view \<longleftrightarrow> (let b = buf_of_sv ''hello'' in buf_size b = 5 \<and> buf_view b = ''hello'')"

definition buffer_binary_safe :: bool where
  "buffer_binary_safe \<longleftrightarrow>
     (let b = buf_of_raw [CHR ''a'', NUL, CHR ''b'', NUL, CHR ''c''] 5
      in buf_size b = 5 \<and> map_option (\<lambda>cells. cells ! 2) (buf_data b) = Some (Some (CHR ''b'')))"

definition buffer_append_grows :: bool where
  "buffer_append_grows \<longleftrightarrow>
     (let b = buf_append (buf_of_sv ''hello'') '', world'' in buf_size b = 12 \<and> buf_view b = ''hello, world'')"

definition buffer_equality :: bool where
  "buffer_equality \<longleftrightarrow>
     (let a = buf_of_sv ''keva''; b = buf_of_sv ''keva''; c = buf_of_sv ''redis''
      in buf_eq a b \<and> \<not> buf_eq a c \<and> buf_eq_sv a ''keva'')"

definition buffer_parses_integers :: bool where
  "buffer_parses_integers \<longleftrightarrow>
     try_parse_int (buf_of_sv ''42'') = Some 42 \<and> try_parse_int (buf_of_sv ''-9999'') = Some (- 9999) \<and>
     try_parse_int (buf_of_sv ''0'') = Some 0"

definition buffer_rejects_others :: bool where
  "buffer_rejects_others \<longleftrightarrow>
     try_parse_int (buf_of_sv ''3.14'') = None \<and> try_parse_int (buf_of_sv ''hello'') = None \<and>
     try_parse_int (buf_of_sv []) = None"

lemma buffer_tests:
  buffer_default_construct buffer_from_string_view buffer_binary_safe buffer_append_grows buffer_equality
  buffer_parses_integers buffer_rejects_others
  by code_simp+

section \<open>Parser\<close>

text \<open>The helper demands that the whole input is one value.\<close>

definition parse_complete :: "string \<Rightarrow> (resp_value \<Rightarrow> bool) \<Rightarrow> bool" where
  "parse_complete inp demands \<longleftrightarrow>
     (case parse (\<lambda>_. True) inp of PComplete v consumed \<Rightarrow> consumed = length inp \<and> demands v | _ \<Rightarrow> False)"

definition resp_simple_string_case :: bool where
  "resp_simple_string_case \<longleftrightarrow> parse_complete (''+OK'' @ CRLF) (\<lambda>v. is_simple_string v \<and> rv_str v = ''OK'')"

definition resp_error_case :: bool where
  "resp_error_case \<longleftrightarrow>
     parse_complete (''-ERR unknown command'' @ CRLF) (\<lambda>v. is_error v \<and> rv_str v = ''ERR unknown command'')"

definition resp_integer_case :: bool where
  "resp_integer_case \<longleftrightarrow> parse_complete ('':1000'' @ CRLF) (\<lambda>v. is_integer v \<and> rv_int v = 1000)"

definition resp_bulk_string_case :: bool where
  "resp_bulk_string_case \<longleftrightarrow>
     parse_complete (''$5'' @ CRLF @ ''hello'' @ CRLF) (\<lambda>v. is_bulk_string v \<and> rv_str v = ''hello'')"

definition resp_nil_case :: bool where
  "resp_nil_case \<longleftrightarrow> parse_complete (''$-1'' @ CRLF) is_nil"

definition resp_array_case :: bool where
  "resp_array_case \<longleftrightarrow>
     parse_complete (''*2'' @ CRLF @ ''$3'' @ CRLF @ ''GET'' @ CRLF @ ''$3'' @ CRLF @ ''key'' @ CRLF)
       (\<lambda>v. is_array v \<and> length (rv_elements v) = 2 \<and> rv_str (rv_elements v ! 0) = ''GET'' \<and>
          rv_str (rv_elements v ! 1) = ''key'')"

definition resp_incomplete_case :: bool where
  "resp_incomplete_case \<longleftrightarrow> parse (\<lambda>_. True) (''$5'' @ CRLF @ ''hel'') = PIncomplete"

definition resp_invalid_prefix_case :: bool where
  "resp_invalid_prefix_case \<longleftrightarrow> parse (\<lambda>_. True) (''@invalid'' @ CRLF) = PError"

definition resp_nested_array_case :: bool where
  "resp_nested_array_case \<longleftrightarrow>
     parse_complete (''*3'' @ CRLF @ ''$3'' @ CRLF @ ''SET'' @ CRLF @ ''$4'' @ CRLF @ ''name'' @ CRLF @ ''$5'' @ CRLF @
         ''Alice'' @ CRLF)
       (\<lambda>v. is_array v \<and> length (rv_elements v) = 3 \<and> rv_str (rv_elements v ! 0) = ''SET'' \<and>
          rv_str (rv_elements v ! 1) = ''name'' \<and> rv_str (rv_elements v ! 2) = ''Alice'')"

lemma resp_tests:
  resp_simple_string_case resp_error_case resp_integer_case resp_bulk_string_case resp_nil_case resp_array_case
  resp_incomplete_case resp_invalid_prefix_case resp_nested_array_case
  by code_simp+

section \<open>Dictionary\<close>

text \<open>A test is a sequence of calls, some with the reply that is required.\<close>

definition dict_test :: "'v dict \<Rightarrow> ('v dict_cmd \<times> 'v dict_reply option) list \<Rightarrow> bool" where
  "dict_test d script \<longleftrightarrow>
     list_all2 (\<lambda>r x. x = None \<or> x = Some r) (snd (run_calls dict_call d (map fst script))) (map snd script)"

definition dict_basic_set_and_get :: bool where
  "dict_basic_set_and_get \<longleftrightarrow>
     (let val1 = 1; val2 = 2 :: nat
      in dict_test (seed_hash (dict_new False) 0xdeadbeef 0xcafebabe)
           [(CallSet ''hello'' (Some val1), Some (ReplyBool True)), (CallSet ''world'' (Some val2), Some (ReplyBool True)),
            (CallGet ''hello'', Some (ReplyValue (Some val1))), (CallGet ''world'', Some (ReplyValue (Some val2))),
            (CallGet ''missing'', Some (ReplyValue None)), (CallSize, Some (ReplySize 2))])"

definition dict_overwrite :: bool where
  "dict_overwrite \<longleftrightarrow>
     (let a = 1; b = 2 :: nat
      in dict_test (dict_new False)
           [(CallSet ''key'' (Some a), Some (ReplyBool True)), (CallSet ''key'' (Some b), Some (ReplyBool False)),
            (CallGet ''key'', Some (ReplyValue (Some b))), (CallSize, Some (ReplySize 1))])"

definition dict_del_removes :: bool where
  "dict_del_removes \<longleftrightarrow>
     (let v = 1 :: nat
      in dict_test (dict_new False)
           [(CallSet ''k'' (Some v), None), (CallExists ''k'', Some (ReplyBool True)), (CallDel ''k'', Some (ReplyBool True)),
            (CallExists ''k'', Some (ReplyBool False)), (CallDel ''k'', Some (ReplyBool False)),
            (CallSize, Some (ReplySize 0))])"

definition load_key :: "nat \<Rightarrow> string" where
  "load_key i = ''key:'' @ to_chars (int i)"

definition dict_load_script :: "nat \<Rightarrow> (nat dict_cmd \<times> nat dict_reply option) list" where
  "dict_load_script n =
     concat (map (\<lambda>i. [(CallSet (load_key i) (Some i), None), (CallStep 1, None)]) [0..<n]) @
     map (\<lambda>i. (CallGet (load_key i), Some (ReplyValue (Some i)))) [0..<n] @
     [(CallSize, Some (ReplySize n))]"

definition dict_rehash_under_load :: bool where
  "dict_rehash_under_load \<longleftrightarrow> dict_test (seed_hash (dict_new False) 0x1234 0x5678) (dict_load_script 200)"

definition dict_for_each_visits_all :: bool where
  "dict_for_each_visits_all \<longleftrightarrow>
     (let a = 1; b = 2; c = 3 :: nat;
          d = fst (run_calls dict_call (dict_new False)
                [CallSet ''a'' (Some a), CallSet ''b'' (Some b), CallSet ''c'' (Some c)])
      in length (dict_for_each d) = 3)"

text \<open>By the refinement, the calls can be run on a map.\<close>

lemma seeded: "dict_inv (seed_hash (dict_new b) k0 k1)" "dict_map (seed_hash (dict_new b) k0 k1) = Map.empty"
  by (simp_all add: dict_inv_def dict_new_def dict_map_def dict_entries_def is_rehashing_def seed_hash_def)

lemma dict_test_on_map:
  assumes "dict_inv d" "dict_map d = Map.empty"
  shows "dict_test d script \<longleftrightarrow>
    list_all2 (\<lambda>r x. x = None \<or> x = Some r) (snd (run_calls map_call Map.empty (map fst script))) (map snd script)"
  using run_calls_refines [OF assms(1), of "map fst script"] assms(2)
  by (cases "run_calls dict_call d (map fst script)") (auto simp: dict_test_def)

lemma run_calls_append:
  "run_calls f s (xs @ ys) =
     (case run_calls f s xs of (s1, rs) \<Rightarrow> case run_calls f s1 ys of (s2, rs') \<Rightarrow> (s2, rs @ rs'))"
  by (induction xs arbitrary: s) (simp_all add: case_prod_unfold)

lemma load_key_inj: "inj_on load_key {..<2 ^ 62}"
proof (rule inj_onI)
  fix i j :: nat
  assume ij: "i \<in> {..<2 ^ 62}" "j \<in> {..<2 ^ 62}" "load_key i = load_key j"
  then have "in_i64 (int i)" "in_i64 (int j)" by (simp_all add: in_i64_def LLONG_MIN_def LLONG_MAX_def)
  then have "from_chars (to_chars (int i)) = (ErrcOk, int i, length (to_chars (int i)))"
    "from_chars (to_chars (int j)) = (ErrcOk, int j, length (to_chars (int j)))" by simp_all
  moreover have "to_chars (int i) = to_chars (int j)" using ij(3) by (simp add: load_key_def)
  ultimately have "int i = int j" by (metis prod.inject)
  then show "i = j" by (simp only: of_nat_eq_iff)
qed

lemma loading:
  assumes "n < 2 ^ 62"
  obtains m rs where
    "run_calls map_call Map.empty (concat (map (\<lambda>i. [CallSet (load_key i) (Some i), CallStep 1]) [0..<n])) = (m, rs)"
    "length rs = 2 * n" "\<forall>i<n. m (load_key i) = Some (Some i)" "dom m = load_key ` {..<n}"
  using assms
proof (induction n arbitrary: thesis)
  case (Suc n)
  then obtain m rs where m:
    "run_calls map_call Map.empty (concat (map (\<lambda>i. [CallSet (load_key i) (Some i), CallStep 1]) [0..<n])) = (m, rs)"
    "length rs = 2 * n" "\<forall>i<n. m (load_key i) = Some (Some i)" "dom m = load_key ` {..<n}" by auto
  have "load_key i \<noteq> load_key n" if "i < n" for i
    using inj_onD [OF load_key_inj, of i n] that Suc.prems(2) by auto
  then have "\<forall>i<Suc n. (m(load_key n \<mapsto> Some n)) (load_key i) = Some (Some i)"
    using m(3) by (auto simp: less_Suc_eq)
  moreover have "dom (m(load_key n \<mapsto> Some n)) = load_key ` {..<Suc n}" using m(4) by (auto simp: less_Suc_eq)
  ultimately show ?case
    using m(1,2) by (intro Suc.prems(1)) (auto simp: run_calls_append)
qed simp

text \<open>The test under load holds for any number of keys, not only for 200.\<close>

lemma dict_load_test:
  assumes "n < 2 ^ 62" "dict_inv d" "dict_map d = Map.empty"
  shows "dict_test d (dict_load_script n)"
proof -
  obtain m rs where m:
    "run_calls map_call Map.empty (concat (map (\<lambda>i. [CallSet (load_key i) (Some i), CallStep 1]) [0..<n])) = (m, rs)"
    "length rs = 2 * n" "\<forall>i<n. m (load_key i) = Some (Some i)" "dom m = load_key ` {..<n}"
    by (rule loading [OF assms(1)])
  have gets: "run_calls map_call m (map (\<lambda>i. CallGet (load_key i)) is) = (m, map (\<lambda>i. ReplyValue (flat (m (load_key i)))) is)"
    for "is" by (induction "is") simp_all
  have card: "card (dom m) = n"
    using card_image [OF inj_on_subset [OF load_key_inj, of "{..<n}"]] assms(1) m(4) by auto
  have fsts: "map fst (dict_load_script n) =
      concat (map (\<lambda>i. [CallSet (load_key i) (Some i), CallStep 1]) [0..<n]) @
      map (\<lambda>i. CallGet (load_key i)) [0..<n] @ [CallSize]"
    by (simp add: dict_load_script_def map_concat comp_def)
  have snds: "map snd (dict_load_script n) =
      replicate (2 * n) None @ map (\<lambda>i. Some (ReplyValue (Some i))) [0..<n] @ [Some (ReplySize n)]"
  proof -
    have "concat (map (\<lambda>i. [None, None]) [0..<k]) = replicate (2 * k) None" for k :: nat
      by (induction k) (simp_all add: replicate_app_Cons_same)
    then show ?thesis by (simp add: dict_load_script_def map_concat comp_def)
  qed
  show ?thesis
    unfolding dict_test_on_map [OF assms(2,3)] fsts snds run_calls_append m(1) prod.case gets
    using m(2,3) card
    by (simp, intro list_all2_appendI) (auto simp: list_all2_conv_all_nth)
qed

lemma dict_tests:
  dict_basic_set_and_get dict_overwrite dict_del_removes dict_rehash_under_load dict_for_each_visits_all
proof -
  show dict_basic_set_and_get dict_overwrite dict_del_removes
    unfolding dict_basic_set_and_get_def dict_overwrite_def dict_del_removes_def Let_def
    by (simp_all add: dict_test_on_map seeded flat_def)
  show dict_rehash_under_load
    unfolding dict_rehash_under_load_def by (rule dict_load_test [OF _ seeded]) simp
  let ?calls = "[CallSet ''a'' (Some 1), CallSet ''b'' (Some 2), CallSet ''c'' (Some (3 :: nat))]"
  obtain d rs where d: "run_calls dict_call (dict_new False) ?calls = (d, rs)" by fastforce
  from run_calls_refines [OF dict_inv_new this] have inv: "dict_inv d" and map: "dict_map d = [''a'' \<mapsto> Some 1, ''b'' \<mapsto> Some 2, ''c'' \<mapsto> Some 3]"
    by auto
  have "length (dict_for_each d) = card (dom (dict_map d))"
    using dict_size_card [OF inv] dict_size_entries [OF inv] by (simp add: dict_for_each_entries [OF inv])
  then show dict_for_each_visits_all
    unfolding dict_for_each_visits_all_def Let_def d by (simp add: map)
qed

end
