(* ===== verification/Status.thy ===== *)
theory Status
  imports Prelude
begin

text \<open>
  \<^verbatim>\<open>keva::Status\<close> (\<^verbatim>\<open>include/keva/common/status.hpp\<close>), the result type of the fallible
  operations: a code and a message. The operator \<open>and_then\<close> is the early return
  \<^verbatim>\<open>if (auto s = ...; !s.ok()) return s\<close> on a state that is passed along.
\<close>

datatype status_code =
    CodeOk | CodeErr | CodeIOError | CodeProtocolError | CodeNotFound | CodeWrongType
  | CodeOutOfMemory | CodeInvalidArgs | CodeTimeout | CodeOverflow

record status =
  st_code :: status_code
  st_message :: string

definition success :: status where
  "success = \<lparr>st_code = CodeOk, st_message = []\<rparr>"

definition io_error :: "string \<Rightarrow> status" where
  "io_error msg = \<lparr>st_code = CodeIOError, st_message = msg\<rparr>"

definition proto_error :: "string \<Rightarrow> status" where
  "proto_error msg = \<lparr>st_code = CodeProtocolError, st_message = msg\<rparr>"

definition not_found :: status where
  "not_found = \<lparr>st_code = CodeNotFound, st_message = ''key not found''\<rparr>"

definition err_status :: "string \<Rightarrow> status" where
  "err_status msg = \<lparr>st_code = CodeErr, st_message = msg\<rparr>"

definition wrong_type_status :: status where
  "wrong_type_status =
     \<lparr>st_code = CodeWrongType,
      st_message = ''WRONGTYPE Operation against a key holding the wrong kind of value''\<rparr>"

definition oom_status :: status where
  "oom_status =
     \<lparr>st_code = CodeOutOfMemory,
      st_message = ''OOM command not allowed when used memory > '' @ [CHR 0x27] @ ''maxmemory'' @ [CHR 0x27]\<rparr>"

definition invalid_args_status :: "string \<Rightarrow> status" where
  "invalid_args_status msg = \<lparr>st_code = CodeInvalidArgs, st_message = msg\<rparr>"

definition overflow_status :: status where
  "overflow_status = \<lparr>st_code = CodeOverflow, st_message = ''ERR increment or decrement would overflow''\<rparr>"

definition is_wrong_type :: "status \<Rightarrow> bool" where
  "is_wrong_type s \<longleftrightarrow> st_code s = CodeWrongType"

definition is_oom :: "status \<Rightarrow> bool" where
  "is_oom s \<longleftrightarrow> st_code s = CodeOutOfMemory"

definition st_ok :: "status \<Rightarrow> bool" where
  "st_ok s \<longleftrightarrow> st_code s = CodeOk"

definition is_not_found :: "status \<Rightarrow> bool" where
  "is_not_found s \<longleftrightarrow> st_code s = CodeNotFound"

definition and_then :: "'s \<times> status \<Rightarrow> ('s \<Rightarrow> 's \<times> status) \<Rightarrow> 's \<times> status" where
  "and_then r f = (case r of (x, s) \<Rightarrow> if st_ok s then f x else (x, s))"

lemma st_ok_simps [simp]: "st_ok success" "\<not> st_ok (io_error m)" "\<not> st_ok (proto_error m)" "\<not> st_ok not_found"
  by (simp_all add: st_ok_def success_def io_error_def proto_error_def not_found_def)

lemma is_not_found_simps [simp]:
  "is_not_found not_found" "\<not> is_not_found (io_error m)" "\<not> is_not_found (proto_error m)" "\<not> is_not_found success"
  by (simp_all add: is_not_found_def success_def io_error_def proto_error_def not_found_def)

lemma and_then_ok [simp]: "and_then (x, success) f = f x"
  by (simp add: and_then_def)

lemma and_then_err [simp]: "\<not> st_ok s \<Longrightarrow> and_then (x, s) f = (x, s)"
  by (simp add: and_then_def)

end
