(* ===== verification/EventLoop.thy ===== *)
theory EventLoop
  imports Status
begin

text \<open>
  \<^verbatim>\<open>EventLoop\<close> (\<^verbatim>\<open>src/net/event_loop.cpp\<close>): the registry of callbacks, the timer, the dispatch of a
  batch of events. The kernel's epoll instance is a state \<open>'k\<close> with an operation \<open>ctl\<close>, an argument
  of the definitions; its documented behaviour is the locale \<open>epoll_kernel\<close>. A \<^verbatim>\<open>std::function\<close> is a value
  of a type \<open>'c\<close> of callbacks, whose effect \<open>call\<close> on the state \<open>'w\<close> of the program is an argument too.
\<close>

section \<open>State\<close>

datatype epoll_op = CtlAdd | CtlMod | CtlDel

text \<open>The errors of \<^verbatim>\<open>epoll_ctl\<close>; the two that \<^verbatim>\<open>remove\<close> tells apart have their own constructor.\<close>

datatype ctl_error = ENOENT | EBADF | OtherErrno string

type_synonym 'k epoll_ctl = "epoll_op \<Rightarrow> int \<Rightarrow> u32 \<Rightarrow> 'k \<Rightarrow> 'k \<times> ctl_error option"

definition EPOLLIN :: u32 where "EPOLLIN = 1"
definition EPOLLOUT :: u32 where "EPOLLOUT = 4"
definition EPOLLERR :: u32 where "EPOLLERR = 8"
definition EPOLLHUP :: u32 where "EPOLLHUP = 0x10"

record 'c fd_handlers =
  on_readable :: "'c option"
  on_writable :: "'c option"

record ('k, 'c) event_loop =
  epoll :: 'k
  handlers :: "int \<rightharpoonup> 'c fd_handlers"
  running :: bool
  timer_callback :: "'c option"
  timer_interval_ms :: int
  last_timer_fire_ms :: int

definition loop_new :: "'k \<Rightarrow> ('k, 'c) event_loop" where
  "loop_new k =
     \<lparr>epoll = k, handlers = Map.empty, running = False, timer_callback = None, timer_interval_ms = 0,
      last_timer_fire_ms = 0\<rparr>"

section \<open>Registration\<close>

definition strerror :: "ctl_error \<Rightarrow> string" where
  "strerror e =
     (case e of ENOENT \<Rightarrow> ''No such file or directory'' | EBADF \<Rightarrow> ''Bad file descriptor'' | OtherErrno m \<Rightarrow> m)"

definition epoll_ctl_op ::
    "'k epoll_ctl \<Rightarrow> epoll_op \<Rightarrow> int \<Rightarrow> u32 \<Rightarrow> ('k, 'c) event_loop \<Rightarrow> ('k, 'c) event_loop \<times> status" where
  "epoll_ctl_op ctl operation fd events lp =
     (case ctl operation fd events (epoll lp) of
        (k, None) \<Rightarrow> (lp\<lparr>epoll := k\<rparr>, success)
      | (k, Some e) \<Rightarrow> (lp\<lparr>epoll := k\<rparr>, io_error (strerror e)))"

text \<open>\<^verbatim>\<open>handlers_[fd]\<close> creates the entry when there is none.\<close>

definition handlers_of :: "('k, 'c) event_loop \<Rightarrow> int \<Rightarrow> 'c fd_handlers" where
  "handlers_of lp fd = (case handlers lp fd of None \<Rightarrow> \<lparr>on_readable = None, on_writable = None\<rparr> | Some h \<Rightarrow> h)"

definition add_or_modify ::
    "'k epoll_ctl \<Rightarrow> int \<Rightarrow> u32 \<Rightarrow> ('k, 'c) event_loop \<Rightarrow> ('k, 'c) event_loop \<times> status" where
  "add_or_modify ctl fd events lp =
     (case epoll_ctl_op ctl CtlAdd fd events lp of
        (lp, s) \<Rightarrow> if \<not> st_ok s then epoll_ctl_op ctl CtlMod fd events lp else (lp, success))"

definition add_readable ::
    "'k epoll_ctl \<Rightarrow> int \<Rightarrow> 'c \<Rightarrow> ('k, 'c) event_loop \<Rightarrow> ('k, 'c) event_loop \<times> status" where
  "add_readable ctl fd callback lp =
     (let h = (handlers_of lp fd)\<lparr>on_readable := Some callback\<rparr>;
          lp = lp\<lparr>handlers := (handlers lp)(fd \<mapsto> h)\<rparr>;
          events = (if on_writable h \<noteq> None then EPOLLIN OR EPOLLOUT else EPOLLIN)
      in add_or_modify ctl fd events lp)"

definition add_writable ::
    "'k epoll_ctl \<Rightarrow> int \<Rightarrow> 'c \<Rightarrow> ('k, 'c) event_loop \<Rightarrow> ('k, 'c) event_loop \<times> status" where
  "add_writable ctl fd callback lp =
     (let h = (handlers_of lp fd)\<lparr>on_writable := Some callback\<rparr>;
          lp = lp\<lparr>handlers := (handlers lp)(fd \<mapsto> h)\<rparr>;
          events = (if on_readable h \<noteq> None then EPOLLOUT OR EPOLLIN else EPOLLOUT)
      in add_or_modify ctl fd events lp)"

definition loop_remove :: "'k epoll_ctl \<Rightarrow> int \<Rightarrow> ('k, 'c) event_loop \<Rightarrow> ('k, 'c) event_loop \<times> status" where
  "loop_remove ctl fd lp =
     (let lp = lp\<lparr>handlers := (handlers lp)(fd := None)\<rparr>
      in case ctl CtlDel fd 0 (epoll lp) of
           (k, None) \<Rightarrow> (lp\<lparr>epoll := k\<rparr>, success)
         | (k, Some e) \<Rightarrow>
             (lp\<lparr>epoll := k\<rparr>, if e \<noteq> ENOENT \<and> e \<noteq> EBADF then io_error (strerror e) else success))"

definition remove_writable :: "'k epoll_ctl \<Rightarrow> int \<Rightarrow> ('k, 'c) event_loop \<Rightarrow> ('k, 'c) event_loop \<times> status" where
  "remove_writable ctl fd lp =
     (case handlers lp fd of
        None \<Rightarrow> (lp, success)
      | Some h \<Rightarrow>
          let lp = lp\<lparr>handlers := (handlers lp)(fd \<mapsto> h\<lparr>on_writable := None\<rparr>)\<rparr>
          in if on_readable h \<noteq> None then epoll_ctl_op ctl CtlMod fd EPOLLIN lp else loop_remove ctl fd lp)"

lemma epoll_ctl_op_timer: "timer_callback (fst (epoll_ctl_op ctl b fd ev lp)) = timer_callback lp"
  by (simp add: epoll_ctl_op_def split: prod.split option.split)

lemma loop_remove_timer: "timer_callback (fst (loop_remove ctl fd lp)) = timer_callback lp"
  by (simp add: loop_remove_def Let_def split: prod.split option.split)

lemma add_or_modify_timer: "timer_callback (fst (add_or_modify ctl fd ev lp)) = timer_callback lp"
  using epoll_ctl_op_timer [of ctl CtlAdd fd ev lp]
  by (cases "epoll_ctl_op ctl CtlAdd fd ev lp") (simp add: add_or_modify_def epoll_ctl_op_timer)

text \<open>Registration does not touch the timer.\<close>

lemma registration_timer [simp]:
  "timer_callback (fst (add_readable ctl fd c lp)) = timer_callback lp"
  "timer_callback (fst (add_writable ctl fd c lp)) = timer_callback lp"
  "timer_callback (fst (remove_writable ctl fd lp)) = timer_callback lp"
  "timer_callback (fst (loop_remove ctl fd lp)) = timer_callback lp"
  by (simp_all add: add_readable_def add_writable_def remove_writable_def Let_def add_or_modify_timer
      loop_remove_timer epoll_ctl_op_timer split: option.split)

section \<open>Timer\<close>

definition set_timer :: "int \<Rightarrow> 'c \<Rightarrow> int \<Rightarrow> ('k, 'c) event_loop \<Rightarrow> ('k, 'c) event_loop" where
  "set_timer interval_ms callback now lp =
     lp\<lparr>timer_interval_ms := interval_ms, timer_callback := Some callback, last_timer_fire_ms := now\<rparr>"

text \<open>The loop after the check of the timer, and the callback to be run, if any.\<close>

definition maybe_run_timer :: "int \<Rightarrow> ('k, 'c) event_loop \<Rightarrow> ('k, 'c) event_loop \<times> 'c option" where
  "maybe_run_timer current lp =
     (if timer_callback lp = None \<or> timer_interval_ms lp \<le> 0 then (lp, None)
      else if timer_interval_ms lp \<le> current - last_timer_fire_ms lp
      then (lp\<lparr>last_timer_fire_ms := current\<rparr>, timer_callback lp)
      else (lp, None))"

definition wait_timeout :: "('k, 'c) event_loop \<Rightarrow> int" where
  "wait_timeout lp = (if 0 < timer_interval_ms lp then timer_interval_ms lp else 100)"

definition loop_stop :: "('k, 'c) event_loop \<Rightarrow> ('k, 'c) event_loop" where
  "loop_stop lp = lp\<lparr>running := False\<rparr>"

section \<open>The batch of events\<close>

text \<open>
  The state \<open>'w\<close> of the program holds the loop: \<open>get\<close> reads it. \<open>call c fd w\<close> runs the callback \<open>c\<close>.
\<close>

definition call_if :: "('c \<Rightarrow> int \<Rightarrow> 'w \<Rightarrow> 'w) \<Rightarrow> bool \<Rightarrow> 'c option \<Rightarrow> int \<Rightarrow> 'w \<Rightarrow> 'w" where
  "call_if call b c fd w = (case c of None \<Rightarrow> w | Some c \<Rightarrow> if b then call c fd w else w)"

definition dispatch_event ::
    "('w \<Rightarrow> ('k, 'c) event_loop) \<Rightarrow> ('c \<Rightarrow> int \<Rightarrow> 'w \<Rightarrow> 'w) \<Rightarrow> int \<times> u32 \<Rightarrow> 'w \<Rightarrow> 'w" where
  "dispatch_event get call ev w =
     (case ev of (fd, evmask) \<Rightarrow>
        case handlers (get w) fd of
          None \<Rightarrow> w
        | Some h \<Rightarrow>
            if evmask AND (EPOLLERR OR EPOLLHUP) \<noteq> 0 then call_if call True (on_readable h) fd w
            else
              let w = call_if call (evmask AND EPOLLIN \<noteq> 0) (on_readable h) fd w
              in case handlers (get w) fd of
                   None \<Rightarrow> w
                 | Some h \<Rightarrow> call_if call (evmask AND EPOLLOUT \<noteq> 0) (on_writable h) fd w)"

definition dispatch_events ::
    "('w \<Rightarrow> ('k, 'c) event_loop) \<Rightarrow> ('c \<Rightarrow> int \<Rightarrow> 'w \<Rightarrow> 'w) \<Rightarrow> (int \<times> u32) list \<Rightarrow> 'w \<Rightarrow> 'w" where
  "dispatch_events get call evs w = fold (dispatch_event get call) evs w"

text \<open>What \<^verbatim>\<open>epoll_wait\<close> answers to a turn of \<^verbatim>\<open>run\<close>.\<close>

datatype wait_result = Events "(int \<times> u32) list" | WaitIntr | WaitError

definition timer_fd :: int where
  "timer_fd = - 1"

text \<open>
  One turn of \<^verbatim>\<open>run\<close>: \<open>put\<close> stores the loop, \<open>current\<close> is the clock at the check of the timer. The
  answer tells whether the loop goes on to its condition.
\<close>

definition run_turn ::
    "('w \<Rightarrow> ('k, 'c) event_loop) \<Rightarrow> (('k, 'c) event_loop \<Rightarrow> 'w \<Rightarrow> 'w) \<Rightarrow> ('c \<Rightarrow> int \<Rightarrow> 'w \<Rightarrow> 'w) \<Rightarrow>
     wait_result \<times> int \<Rightarrow> 'w \<Rightarrow> 'w \<times> bool" where
  "run_turn get put call wait w =
     (case wait of
        (WaitIntr, _) \<Rightarrow> (w, True)
      | (WaitError, _) \<Rightarrow> (w, False)
      | (Events evs, current) \<Rightarrow>
          let w = dispatch_events get call evs w
          in case maybe_run_timer current (get w) of
               (lp, c) \<Rightarrow> (call_if call True c timer_fd (put lp w), True))"

text \<open>
  The loop itself, on the answers of the kernel. The second component tells whether it has ended; it
  has not when these answers are used up and it would wait for more.
\<close>

fun run_loop ::
    "('w \<Rightarrow> ('k, 'c) event_loop) \<Rightarrow> (('k, 'c) event_loop \<Rightarrow> 'w \<Rightarrow> 'w) \<Rightarrow> ('c \<Rightarrow> int \<Rightarrow> 'w \<Rightarrow> 'w) \<Rightarrow>
     (wait_result \<times> int) list \<Rightarrow> 'w \<Rightarrow> 'w \<times> bool" where
  "run_loop get put call waits w =
     (if \<not> running (get w) then (w, True)
      else case waits of
             [] \<Rightarrow> (w, False)
           | wait # waits \<Rightarrow>
               case run_turn get put call wait w of
                 (w, go) \<Rightarrow> if go then run_loop get put call waits w else (w, True))"

declare run_loop.simps [simp del]

definition loop_run ::
    "('w \<Rightarrow> ('k, 'c) event_loop) \<Rightarrow> (('k, 'c) event_loop \<Rightarrow> 'w \<Rightarrow> 'w) \<Rightarrow> ('c \<Rightarrow> int \<Rightarrow> 'w \<Rightarrow> 'w) \<Rightarrow>
     (wait_result \<times> int) list \<Rightarrow> 'w \<Rightarrow> 'w \<times> bool" where
  "loop_run get put call waits w = run_loop get put call waits (put ((get w)\<lparr>running := True\<rparr>) w)"

section \<open>Invariants of the loop\<close>

text \<open>
  \<open>ok c fd w\<close> says that the callback \<open>c\<close> may be run in \<open>w\<close>; the predicates below ask it of every
  callback that the batch of events runs, at the moment it is run.
\<close>

definition allowed_if :: "('c \<Rightarrow> int \<Rightarrow> 'w \<Rightarrow> bool) \<Rightarrow> bool \<Rightarrow> 'c option \<Rightarrow> int \<Rightarrow> 'w \<Rightarrow> bool" where
  "allowed_if ok b c fd w = (case c of None \<Rightarrow> True | Some c \<Rightarrow> b \<longrightarrow> ok c fd w)"

definition event_allowed ::
    "('w \<Rightarrow> ('k, 'c) event_loop) \<Rightarrow> ('c \<Rightarrow> int \<Rightarrow> 'w \<Rightarrow> 'w) \<Rightarrow> ('c \<Rightarrow> int \<Rightarrow> 'w \<Rightarrow> bool) \<Rightarrow> int \<times> u32 \<Rightarrow> 'w \<Rightarrow> bool" where
  "event_allowed get call ok ev w =
     (case ev of (fd, evmask) \<Rightarrow>
        case handlers (get w) fd of
          None \<Rightarrow> True
        | Some h \<Rightarrow>
            if evmask AND (EPOLLERR OR EPOLLHUP) \<noteq> 0 then allowed_if ok True (on_readable h) fd w
            else
              allowed_if ok (evmask AND EPOLLIN \<noteq> 0) (on_readable h) fd w \<and>
              (let w = call_if call (evmask AND EPOLLIN \<noteq> 0) (on_readable h) fd w
               in case handlers (get w) fd of
                    None \<Rightarrow> True
                  | Some h \<Rightarrow> allowed_if ok (evmask AND EPOLLOUT \<noteq> 0) (on_writable h) fd w))"

fun events_allowed ::
    "('w \<Rightarrow> ('k, 'c) event_loop) \<Rightarrow> ('c \<Rightarrow> int \<Rightarrow> 'w \<Rightarrow> 'w) \<Rightarrow> ('c \<Rightarrow> int \<Rightarrow> 'w \<Rightarrow> bool) \<Rightarrow>
     (int \<times> u32) list \<Rightarrow> 'w \<Rightarrow> bool" where
  "events_allowed get call ok [] w \<longleftrightarrow> True"
| "events_allowed get call ok (ev # evs) w \<longleftrightarrow>
     event_allowed get call ok ev w \<and> events_allowed get call ok evs (dispatch_event get call ev w)"

lemma dispatch_event_keeps:
  assumes keep: "\<And>c fd w. good w \<Longrightarrow> ok c fd w \<Longrightarrow> good (call c fd w)"
    and "good w" "event_allowed get call ok ev w"
  shows "good (dispatch_event get call ev w)"
proof -
  obtain fd evmask where ev: "ev = (fd, evmask)" by fastforce
  have step: "good (call_if call b c k u)" if "good u" "allowed_if ok b c k u" for b c k u
    using that keep by (auto simp: call_if_def allowed_if_def split: option.splits)
  show ?thesis
  proof (cases "handlers (get w) fd")
    case (Some h)
    let ?w = "call_if call (evmask AND EPOLLIN \<noteq> 0) (on_readable h) fd w"
    show ?thesis
    proof (cases "evmask AND (EPOLLERR OR EPOLLHUP) \<noteq> 0")
      case True
      then have "allowed_if ok True (on_readable h) fd w" using assms(3) Some by (simp add: event_allowed_def ev)
      with True show ?thesis using step assms(2) Some by (simp add: dispatch_event_def ev)
    next
      case False
      then have a: "allowed_if ok (evmask AND EPOLLIN \<noteq> 0) (on_readable h) fd w"
        and b: "\<And>h'. handlers (get ?w) fd = Some h' \<Longrightarrow> allowed_if ok (evmask AND EPOLLOUT \<noteq> 0) (on_writable h') fd ?w"
        using assms(3) Some by (simp_all add: event_allowed_def ev Let_def)
      have "good ?w" by (rule step [OF assms(2) a])
      then show ?thesis using False Some step b
        by (simp add: dispatch_event_def ev Let_def split: option.split)
    qed
  qed (use assms(2) in \<open>simp add: dispatch_event_def ev\<close>)
qed

lemma dispatch_events_keep:
  assumes keep: "\<And>c fd w. good w \<Longrightarrow> ok c fd w \<Longrightarrow> good (call c fd w)"
    and "good w" "events_allowed get call ok evs w"
  shows "good (dispatch_events get call evs w)"
  using assms(2,3)
proof (induction evs arbitrary: w)
  case (Cons ev evs)
  have "good (dispatch_event get call ev w)" by (rule dispatch_event_keeps [of good ok, OF keep]) (use Cons.prems in simp_all)
  then show ?case using Cons by (simp add: dispatch_events_def)
qed (simp add: dispatch_events_def)

section \<open>The contract of epoll\<close>

text \<open>
  What the manual page of \<^verbatim>\<open>epoll_ctl\<close> promises, on a machine that does not run out of memory: the
  interest list is a map from descriptors to event masks, adding needs a new descriptor, modifying
  and deleting a registered one.
\<close>

locale epoll_kernel =
  fixes ctl :: "'k epoll_ctl" and interest :: "'k \<Rightarrow> int \<rightharpoonup> u32"
  assumes add_new: "interest k fd = None \<Longrightarrow>
      \<exists>k'. ctl CtlAdd fd ev k = (k', None) \<and> interest k' = (interest k)(fd \<mapsto> ev)"
    and add_old: "interest k fd \<noteq> None \<Longrightarrow> \<exists>k' e. ctl CtlAdd fd ev k = (k', Some e) \<and> interest k' = interest k"
    and mod_old: "interest k fd \<noteq> None \<Longrightarrow>
      \<exists>k'. ctl CtlMod fd ev k = (k', None) \<and> interest k' = (interest k)(fd \<mapsto> ev)"
    and del_any: "\<exists>k' e. ctl CtlDel fd ev k = (k', e) \<and> interest k' = (interest k)(fd := None) \<and>
      e \<in> {None, Some ENOENT, Some EBADF}"

definition event_mask :: "'c fd_handlers \<Rightarrow> u32" where
  "event_mask h = (if on_readable h = None then 0 else EPOLLIN) OR (if on_writable h = None then 0 else EPOLLOUT)"

text \<open>The kernel watches exactly what the registry has callbacks for.\<close>

definition in_sync :: "('k \<Rightarrow> int \<rightharpoonup> u32) \<Rightarrow> ('k, 'c) event_loop \<Rightarrow> bool" where
  "in_sync interest lp \<longleftrightarrow> interest (epoll lp) = (\<lambda>fd. map_option event_mask (handlers lp fd))"

text \<open>Only the registry and the kernel's state may differ.\<close>

definition same_timer :: "('k, 'c) event_loop \<Rightarrow> ('k, 'c) event_loop \<Rightarrow> bool" where
  "same_timer lp lp' \<longleftrightarrow> running lp' = running lp \<and> timer_callback lp' = timer_callback lp \<and>
     timer_interval_ms lp' = timer_interval_ms lp \<and> last_timer_fire_ms lp' = last_timer_fire_ms lp"

lemma same_timer_refl [simp]: "same_timer lp lp"
  by (simp add: same_timer_def)

lemma in_sync_frame [simp]:
  "in_sync interest (lp\<lparr>running := b\<rparr>) = in_sync interest lp"
  "in_sync interest (lp\<lparr>last_timer_fire_ms := t\<rparr>) = in_sync interest lp"
  "in_sync interest (set_timer i c t lp) = in_sync interest lp"
  by (simp_all add: in_sync_def set_timer_def)

context epoll_kernel
begin

lemma add_or_modify_facts:
  "\<exists>k. add_or_modify ctl fd ev lp = (lp\<lparr>epoll := k\<rparr>, success) \<and> interest k = (interest (epoll lp))(fd \<mapsto> ev)"
proof (cases "interest (epoll lp) fd = None")
  case True
  from add_new [OF this, of ev] show ?thesis by (auto simp: add_or_modify_def epoll_ctl_op_def)
next
  case False
  from add_old [OF this, of ev] obtain k1 e where 1: "ctl CtlAdd fd ev (epoll lp) = (k1, Some e)"
    "interest k1 = interest (epoll lp)" by blast
  then have "interest k1 fd \<noteq> None" using False by simp
  from mod_old [OF this, of ev] obtain k2 where "ctl CtlMod fd ev k1 = (k2, None)"
    "interest k2 = (interest k1)(fd \<mapsto> ev)" by blast
  then show ?thesis using 1 by (auto simp: add_or_modify_def epoll_ctl_op_def)
qed

text \<open>Each operation succeeds, has its effect on the registry, and keeps the kernel in step.\<close>

lemma add_readable_facts:
  assumes "in_sync interest lp" "add_readable ctl fd c lp = (lp', s)"
  shows "s = success" "in_sync interest lp'" "same_timer lp lp'"
    "handlers lp' = (handlers lp)(fd \<mapsto> (handlers_of lp fd)\<lparr>on_readable := Some c\<rparr>)"
proof -
  let ?h = "(handlers_of lp fd)\<lparr>on_readable := Some c\<rparr>"
  let ?lp = "lp\<lparr>handlers := (handlers lp)(fd \<mapsto> ?h)\<rparr>"
  have mask: "(if on_writable ?h \<noteq> None then EPOLLIN OR EPOLLOUT else EPOLLIN) = event_mask ?h"
    by (simp add: event_mask_def)
  obtain k where "(lp', s) = (?lp\<lparr>epoll := k\<rparr>, success)" "interest k = (interest (epoll ?lp))(fd \<mapsto> event_mask ?h)"
    using add_or_modify_facts [of fd "event_mask ?h" ?lp] assms(2) unfolding add_readable_def Let_def mask by auto
  then show "s = success" "in_sync interest lp'" "same_timer lp lp'" "handlers lp' = (handlers lp)(fd \<mapsto> ?h)"
    using assms(1) by (auto simp: in_sync_def same_timer_def fun_eq_iff)
qed

lemma add_writable_facts:
  assumes "in_sync interest lp" "add_writable ctl fd c lp = (lp', s)"
  shows "s = success" "in_sync interest lp'" "same_timer lp lp'"
    "handlers lp' = (handlers lp)(fd \<mapsto> (handlers_of lp fd)\<lparr>on_writable := Some c\<rparr>)"
proof -
  let ?h = "(handlers_of lp fd)\<lparr>on_writable := Some c\<rparr>"
  let ?lp = "lp\<lparr>handlers := (handlers lp)(fd \<mapsto> ?h)\<rparr>"
  have mask: "(if on_readable ?h \<noteq> None then EPOLLOUT OR EPOLLIN else EPOLLOUT) = event_mask ?h"
    by (simp add: event_mask_def or.commute)
  obtain k where "(lp', s) = (?lp\<lparr>epoll := k\<rparr>, success)" "interest k = (interest (epoll ?lp))(fd \<mapsto> event_mask ?h)"
    using add_or_modify_facts [of fd "event_mask ?h" ?lp] assms(2) unfolding add_writable_def Let_def mask by auto
  then show "s = success" "in_sync interest lp'" "same_timer lp lp'" "handlers lp' = (handlers lp)(fd \<mapsto> ?h)"
    using assms(1) by (auto simp: in_sync_def same_timer_def fun_eq_iff)
qed

lemma loop_remove_facts:
  assumes "in_sync interest lp" "loop_remove ctl fd lp = (lp', s)"
  shows "s = success" "in_sync interest lp'" "same_timer lp lp'" "handlers lp' = (handlers lp)(fd := None)"
proof -
  obtain k e where "ctl CtlDel fd 0 (epoll lp) = (k, e)" "interest k = (interest (epoll lp))(fd := None)"
    "e \<in> {None, Some ENOENT, Some EBADF}" using del_any by blast
  then show "s = success" "in_sync interest lp'" "same_timer lp lp'" "handlers lp' = (handlers lp)(fd := None)"
    using assms by (auto simp: loop_remove_def in_sync_def same_timer_def fun_eq_iff)
qed

lemma remove_writable_facts:
  assumes "in_sync interest lp" "handlers lp fd = Some h" "on_readable h \<noteq> None"
    and "remove_writable ctl fd lp = (lp', s)"
  shows "s = success" "in_sync interest lp'" "same_timer lp lp'"
    "handlers lp' = (handlers lp)(fd \<mapsto> h\<lparr>on_writable := None\<rparr>)"
proof -
  have "interest (epoll lp) fd \<noteq> None" using assms(1,2) by (simp add: in_sync_def)
  from mod_old [OF this, of EPOLLIN] obtain k where "ctl CtlMod fd EPOLLIN (epoll lp) = (k, None)"
    "interest k = (interest (epoll lp))(fd \<mapsto> EPOLLIN)" by blast
  moreover have "event_mask (h\<lparr>on_writable := None\<rparr>) = EPOLLIN" using assms(3) by (cases "on_readable h") (simp_all add: event_mask_def)
  ultimately show "s = success" "in_sync interest lp'" "same_timer lp lp'"
    "handlers lp' = (handlers lp)(fd \<mapsto> h\<lparr>on_writable := None\<rparr>)"
    using assms by (auto simp: remove_writable_def epoll_ctl_op_def in_sync_def same_timer_def fun_eq_iff)
qed

end

text \<open>The contract has a model: the interest list itself.\<close>

fun map_ctl :: "(int \<rightharpoonup> u32) epoll_ctl" where
  "map_ctl CtlAdd fd ev m = (if m fd = None then (m(fd \<mapsto> ev), None) else (m, Some (OtherErrno ''File exists'')))"
| "map_ctl CtlMod fd ev m = (if m fd = None then (m, Some ENOENT) else (m(fd \<mapsto> ev), None))"
| "map_ctl CtlDel fd ev m = (if m fd = None then (m, Some ENOENT) else (m(fd := None), None))"

interpretation map_kernel: epoll_kernel map_ctl "\<lambda>m. m"
  by unfold_locales auto

end
