(* ===== verification/Connection.thy ===== *)
theory Connection
  imports CharConv
begin

text \<open>
  \<^verbatim>\<open>keva::net::Connection\<close> (\<^verbatim>\<open>src/net/connection.cpp\<close>): the read buffer with its consume
  cursor, the write buffer with its send cursor, and the connection state.

  What the kernel answers to the successive \<^verbatim>\<open>read\<close> and \<^verbatim>\<open>write\<close> calls on the socket is a
  script, a list of results; a script that is used up answers EAGAIN.
\<close>

section \<open>State\<close>

datatype conn_state = Connected | WriteOnly | Closed

record connection =
  client_id :: u64
  conn_state :: conn_state
  read_buf :: string
  read_pos :: usize
  write_buf :: string
  write_pos :: usize

definition conn_new :: "u64 \<Rightarrow> connection" where
  "conn_new cid =
     \<lparr>client_id = cid, conn_state = Connected, read_buf = [], read_pos = 0, write_buf = [], write_pos = 0\<rparr>"

datatype read_result = ReadData string | ReadEof | ReadAgain | ReadError

datatype write_result = Wrote usize | WriteAgain | WriteError

definition set_state :: "conn_state \<Rightarrow> connection \<Rightarrow> connection" where
  "set_state s c = c\<lparr>conn_state := s\<rparr>"

definition is_closed :: "connection \<Rightarrow> bool" where
  "is_closed c \<longleftrightarrow> conn_state c = Closed"

definition vec_resize :: "usize \<Rightarrow> string \<Rightarrow> string" where
  "vec_resize n v = take n v @ replicate (n - length v) (CHR 0x00)"

definition compact_read_buffer :: "connection \<Rightarrow> connection" where
  "compact_read_buffer c =
     (if read_pos c = 0 then c
      else
        let remaining = length (read_buf c) - read_pos c;
            moved = (if 0 < remaining
                     then take remaining (drop (read_pos c) (read_buf c)) @ drop remaining (read_buf c)
                     else read_buf c)
        in c\<lparr>read_buf := vec_resize remaining moved, read_pos := 0\<rparr>)"

text \<open>The loop of \<^verbatim>\<open>fill_read_buffer\<close>: the connection, the return value, the rest of the script.\<close>

fun fill_loop :: "read_result list \<Rightarrow> connection \<Rightarrow> int \<Rightarrow> connection \<times> int \<times> read_result list" where
  "fill_loop script c total_read =
     (let current_size = length (read_buf c);
          speculative = vec_resize (current_size + READ_BUFFER_SIZE) (read_buf c)
      in case script of
           [] \<Rightarrow> (c\<lparr>read_buf := vec_resize current_size speculative\<rparr>, total_read, [])
         | ReadData bytes # script \<Rightarrow>
             let filled = take current_size speculative @ bytes @ drop (current_size + length bytes) speculative
             in fill_loop script (c\<lparr>read_buf := vec_resize (current_size + length bytes) filled\<rparr>)
                  (total_read + int (length bytes))
         | ReadEof # script \<Rightarrow>
             (c\<lparr>read_buf := vec_resize current_size speculative, conn_state := Closed\<rparr>, 0, script)
         | ReadAgain # script \<Rightarrow>
             (c\<lparr>read_buf := vec_resize current_size speculative\<rparr>, total_read, script)
         | ReadError # script \<Rightarrow>
             (c\<lparr>read_buf := vec_resize current_size speculative, conn_state := Closed\<rparr>, - 1, script))"

declare fill_loop.simps [simp del]

definition fill_read_buffer :: "read_result list \<Rightarrow> connection \<Rightarrow> connection \<times> int \<times> read_result list" where
  "fill_read_buffer script c =
     (let c = (if length (read_buf c) div 2 < read_pos c \<and> 0 < read_pos c
               then compact_read_buffer c else c)
      in fill_loop script c 0)"

text \<open>The loop of \<^verbatim>\<open>flush_write_buffer\<close>: the bytes handed to the kernel come with the result.\<close>

fun flush_loop :: "write_result list \<Rightarrow> connection \<Rightarrow> connection \<times> bool \<times> string \<times> write_result list" where
  "flush_loop script c =
     (if \<not> write_pos c < length (write_buf c) then (c, True, [], script)
      else case script of
             [] \<Rightarrow> (c, True, [], [])
           | Wrote n # script \<Rightarrow>
               let remaining = length (write_buf c) - write_pos c;
                   bytes = take n (drop (write_pos c) (write_buf c))
               in case flush_loop script (c\<lparr>write_pos := write_pos c + min n remaining\<rparr>) of
                    (c, ok, sent, script) \<Rightarrow> (c, ok, bytes @ sent, script)
           | WriteAgain # script \<Rightarrow> (c, True, [], script)
           | WriteError # script \<Rightarrow> (c\<lparr>conn_state := Closed\<rparr>, False, [], script))"

declare flush_loop.simps [simp del]

definition flush_write_buffer ::
    "write_result list \<Rightarrow> connection \<Rightarrow> connection \<times> bool \<times> string \<times> write_result list" where
  "flush_write_buffer script c =
     (case flush_loop script c of
        (c, ok, sent, script) \<Rightarrow>
          (if ok \<and> length (write_buf c) \<le> write_pos c then c\<lparr>write_buf := [], write_pos := 0\<rparr> else c,
           ok, sent, script))"

definition read_view :: "connection \<Rightarrow> string" where
  "read_view c = take (length (read_buf c) - read_pos c) (drop (read_pos c) (read_buf c))"

definition consume :: "usize \<Rightarrow> connection \<Rightarrow> connection" where
  "consume n c =
     (let c = c\<lparr>read_pos := read_pos c + n\<rparr>
      in if length (read_buf c) < read_pos c then c\<lparr>read_pos := length (read_buf c)\<rparr> else c)"

definition append_response :: "connection \<Rightarrow> string \<Rightarrow> connection" where
  "append_response c sv = c\<lparr>write_buf := write_buf c @ sv\<rparr>"

definition has_pending_writes :: "connection \<Rightarrow> bool" where
  "has_pending_writes c \<longleftrightarrow> write_pos c < length (write_buf c)"

section \<open>The cursors\<close>

definition conn_inv :: "connection \<Rightarrow> bool" where
  "conn_inv c \<longleftrightarrow> read_pos c \<le> length (read_buf c) \<and> write_pos c \<le> length (write_buf c)"

text \<open>The bytes that are still to be sent.\<close>

definition pending :: "connection \<Rightarrow> string" where
  "pending c = drop (write_pos c) (write_buf c)"

lemma read_view_drop [simp]: "read_view c = drop (read_pos c) (read_buf c)"
  by (simp add: read_view_def)

lemma conn_inv_new [simp]: "conn_inv (conn_new n)"
  by (simp add: conn_inv_def conn_new_def)

lemma append_response_simps [simp]:
  "read_buf (append_response c s) = read_buf c" "read_pos (append_response c s) = read_pos c"
  "conn_state (append_response c s) = conn_state c" "write_buf (append_response c s) = write_buf c @ s"
  "write_pos (append_response c s) = write_pos c" "client_id (append_response c s) = client_id c"
  "append_response (append_response c s) t = append_response c (s @ t)"
  by (simp_all add: append_response_def)

lemma append_response_Nil [simp]: "append_response c [] = c"
  by (simp add: append_response_def)

lemma conn_inv_append [simp]: "conn_inv c \<Longrightarrow> conn_inv (append_response c s)"
  by (simp add: conn_inv_def)

lemma conn_inv_set_state [simp]: "conn_inv (set_state st c) \<longleftrightarrow> conn_inv c"
  by (simp add: conn_inv_def set_state_def)

lemma pending_append: "conn_inv c \<Longrightarrow> pending (append_response c s) = pending c @ s"
  by (simp add: pending_def conn_inv_def)

lemma consume_facts:
  assumes "conn_inv c" "n \<le> length (read_view c)"
  shows "read_view (consume n c) = drop n (read_view c)" "conn_inv (consume n c)"
    "write_buf (consume n c) = write_buf c" "write_pos (consume n c) = write_pos c"
    "conn_state (consume n c) = conn_state c"
  using assms by (auto simp: consume_def conn_inv_def Let_def add.commute)

text \<open>
  What answering requests does to a connection: replies are added at the end of the write buffer,
  nothing is taken from it, and the state is kept or becomes \<open>WriteOnly\<close>.
\<close>

definition answered :: "connection \<Rightarrow> connection \<Rightarrow> bool" where
  "answered c c' \<longleftrightarrow>
     write_pos c' = write_pos c \<and> client_id c' = client_id c \<and> conn_state c' \<in> {conn_state c, WriteOnly} \<and>
     (\<exists>w. write_buf c' = write_buf c @ w)"

lemma answered_refl [simp]: "answered c c"
  by (simp add: answered_def)

lemma answered_trans: "answered a b \<Longrightarrow> answered b c \<Longrightarrow> answered a c"
  by (auto simp: answered_def)

lemma answered_consume [simp]: "answered c (consume n c)"
  by (simp add: answered_def consume_def Let_def)

lemma answered_append [simp]: "answered c (append_response c s)"
  by (auto simp: answered_def)

lemma answered_write_only: "answered c c' \<Longrightarrow> answered c (set_state WriteOnly c')"
  by (simp add: answered_def set_state_def)

lemma answered_pending:
  assumes "answered c c'" "conn_inv c"
  obtains out where "pending c' = pending c @ out"
  using assms by (auto simp: answered_def conn_inv_def pending_def)

lemma vec_resize_shrink: "n \<le> length v \<Longrightarrow> vec_resize n v = take n v"
  by (simp add: vec_resize_def)

lemma take_vec_resize: "length v \<le> n \<Longrightarrow> take (length v) (vec_resize n v) = v"
  by (simp add: vec_resize_def)

lemma length_vec_resize [simp]: "length (vec_resize n v) = n"
  by (simp add: vec_resize_def)

lemma undo_resize: "vec_resize (length v) (vec_resize (length v + n) v) = v"
  by (subst vec_resize_shrink) (simp_all add: take_vec_resize)

lemma compact_facts:
  assumes "conn_inv c"
  shows "read_view (compact_read_buffer c) = read_view c" "conn_inv (compact_read_buffer c)"
    "write_buf (compact_read_buffer c) = write_buf c" "write_pos (compact_read_buffer c) = write_pos c"
    "conn_state (compact_read_buffer c) = conn_state c" "read_pos (compact_read_buffer c) = 0"
  using assms by (auto simp: compact_read_buffer_def Let_def vec_resize_def conn_inv_def)

section \<open>Reading\<close>

text \<open>The data a script delivers before it stops, and how it stops.\<close>

fun script_data :: "read_result list \<Rightarrow> string" where
  "script_data (ReadData bs # script) = bs @ script_data script"
| "script_data _ = []"

fun script_end :: "read_result list \<Rightarrow> read_result" where
  "script_end (ReadData bs # script) = script_end script"
| "script_end (r # script) = r"
| "script_end [] = ReadAgain"

definition reads_fit :: "read_result list \<Rightarrow> bool" where
  "reads_fit script \<longleftrightarrow> (\<forall>bs. ReadData bs \<in> set script \<longrightarrow> 0 < length bs \<and> length bs \<le> READ_BUFFER_SIZE)"

lemma fill_loop_facts:
  assumes "reads_fit script" "fill_loop script c n = (c', r, rest)"
  shows "c' = c\<lparr>read_buf := read_buf c @ script_data script,
      conn_state := (if script_end script \<in> {ReadEof, ReadError} then Closed else conn_state c)\<rparr>"
    and "r = (if script_end script = ReadEof then 0
              else if script_end script = ReadError then - 1 else n + int (length (script_data script)))"
proof -
  have "c' = c\<lparr>read_buf := read_buf c @ script_data script,
      conn_state := (if script_end script \<in> {ReadEof, ReadError} then Closed else conn_state c)\<rparr> \<and>
    r = (if script_end script = ReadEof then 0
         else if script_end script = ReadError then - 1 else n + int (length (script_data script)))"
    using assms
  proof (induction script arbitrary: c n)
    case Nil
    then show ?case by (simp add: fill_loop.simps [of "[]"] undo_resize)
  next
    case (Cons x script)
    show ?case
    proof (cases x)
      case (ReadData bs)
      have len: "length bs \<le> READ_BUFFER_SIZE" using Cons.prems(1) ReadData by (auto simp: reads_fit_def)
      let ?n = "length (read_buf c)" and ?s = "vec_resize (length (read_buf c) + READ_BUFFER_SIZE) (read_buf c)"
      have "vec_resize (?n + length bs) (take ?n ?s @ bs @ drop (?n + length bs) ?s) = read_buf c @ bs"
        using len by (subst vec_resize_shrink) (simp_all add: take_vec_resize)
      then have "fill_loop script (c\<lparr>read_buf := read_buf c @ bs\<rparr>) (n + int (length bs)) = (c', r, rest)"
        using Cons.prems(2) by (simp add: ReadData Let_def fill_loop.simps [of "_ # _"])
      moreover have "reads_fit script" using Cons.prems(1) by (simp add: reads_fit_def)
      ultimately show ?thesis using Cons.IH by (force simp: ReadData)
    qed (use Cons.prems(2) in \<open>auto simp: fill_loop.simps [of "_ # _"] Let_def undo_resize\<close>)
  qed
  then show "c' = c\<lparr>read_buf := read_buf c @ script_data script,
      conn_state := (if script_end script \<in> {ReadEof, ReadError} then Closed else conn_state c)\<rparr>"
    and "r = (if script_end script = ReadEof then 0
              else if script_end script = ReadError then - 1 else n + int (length (script_data script)))"
    by blast+
qed

lemma fill_read_buffer_facts:
  assumes inv: "conn_inv c" and fit: "reads_fit script" and f: "fill_read_buffer script c = (c', r, rest)"
  shows "conn_inv c'" and "read_view c' = read_view c @ script_data script" and "pending c' = pending c"
    and "conn_state c' = (if script_end script \<in> {ReadEof, ReadError} then Closed else conn_state c)"
    and "r = (if script_end script = ReadEof then 0
              else if script_end script = ReadError then - 1 else int (length (script_data script)))"
proof -
  define d where "d = (if length (read_buf c) div 2 < read_pos c \<and> 0 < read_pos c
      then compact_read_buffer c else c)"
  have d: "conn_inv d" "read_view d = read_view c" "write_buf d = write_buf c" "write_pos d = write_pos c"
    "conn_state d = conn_state c"
    using compact_facts [OF inv] inv by (auto simp: d_def)
  have "fill_loop script d 0 = (c', r, rest)"
    using f unfolding fill_read_buffer_def Let_def d_def by simp
  note fl = fill_loop_facts [OF fit this]
  show "conn_inv c'" and "read_view c' = read_view c @ script_data script" and "pending c' = pending c"
    and "conn_state c' = (if script_end script \<in> {ReadEof, ReadError} then Closed else conn_state c)"
    using d by (simp_all add: fl(1) conn_inv_def pending_def)
  show "r = (if script_end script = ReadEof then 0
      else if script_end script = ReadError then - 1 else int (length (script_data script)))"
    using fl(2) by simp
qed

section \<open>Writing\<close>

lemma flush_loop_facts:
  "conn_inv c \<Longrightarrow> flush_loop script c = (c', ok, sent, rest) \<Longrightarrow>
   conn_inv c' \<and> pending c = sent @ pending c' \<and> read_view c' = read_view c \<and>
   (conn_state c' = (if ok then conn_state c else Closed))"
proof (induction script arbitrary: c sent)
  case Nil
  then show ?case by (auto simp: flush_loop.simps [of "[]"] split: if_splits)
next
  case (Cons x script)
  show ?case
  proof (cases "write_pos c < length (write_buf c)")
    case False
    then show ?thesis using Cons.prems by (simp add: flush_loop.simps [of "_ # _"])
  next
    case True
    show ?thesis
    proof (cases x)
      case (Wrote n)
      let ?m = "min n (length (write_buf c) - write_pos c)"
      let ?c = "c\<lparr>write_pos := write_pos c + ?m\<rparr>"
      obtain sent' where s: "flush_loop script ?c = (c', ok, sent', rest)"
        "sent = take n (drop (write_pos c) (write_buf c)) @ sent'"
        using Cons.prems(2) True Wrote by (auto simp: flush_loop.simps [of "_ # _"] Let_def split: prod.splits)
      have "conn_inv ?c" using Cons.prems(1) True by (simp add: conn_inv_def)
      from Cons.IH [OF this s(1)]
      have ih: "conn_inv c'" "pending ?c = sent' @ pending c'" "read_view c' = read_view c"
        "conn_state c' = (if ok then conn_state c else Closed)" by auto
      have "pending c = take n (drop (write_pos c) (write_buf c)) @ pending ?c"
        by (cases "n \<le> length (write_buf c) - write_pos c")
          (simp_all add: pending_def append_take_drop_id [of n, symmetric] add.commute min_def
            flip: drop_drop)
      then show ?thesis using ih s(2) by simp
    qed (use Cons.prems True in \<open>auto simp: flush_loop.simps [of "_ # _"] conn_inv_def pending_def\<close>)
  qed
qed

lemma flush_loop_id: "client_id (fst (flush_loop script c)) = client_id c"
proof (induction script arbitrary: c)
  case Nil
  then show ?case by (simp add: flush_loop.simps [of "[]"])
next
  case (Cons x script)
  have "client_id d = client_id c" if "flush_loop script (c\<lparr>write_pos := k\<rparr>) = (d, r)" for d r k
    using Cons.IH [of "c\<lparr>write_pos := k\<rparr>"] that by simp
  then show ?case by (cases x) (simp_all add: flush_loop.simps [of "_ # _"] Let_def split: prod.split)
qed

lemma flush_write_buffer_id: "client_id (fst (flush_write_buffer script c)) = client_id c"
  using flush_loop_id [of script c] by (cases "flush_loop script c") (simp add: flush_write_buffer_def)

lemma flush_write_buffer_facts:
  assumes "conn_inv c" "flush_write_buffer script c = (c', ok, sent, rest)"
  shows "conn_inv c'" and "pending c = sent @ pending c'" and "read_view c' = read_view c"
    and "conn_state c' = (if ok then conn_state c else Closed)"
proof -
  obtain d where f: "flush_loop script c = (d, ok, sent, rest)"
    and c': "c' = (if ok \<and> length (write_buf d) \<le> write_pos d then d\<lparr>write_buf := [], write_pos := 0\<rparr> else d)"
    using assms(2) by (auto simp: flush_write_buffer_def split: prod.splits)
  from flush_loop_facts [OF assms(1) f]
  show "conn_inv c'" and "pending c = sent @ pending c'" and "read_view c' = read_view c"
    and "conn_state c' = (if ok then conn_state c else Closed)"
    by (auto simp: c' conn_inv_def pending_def)
qed

end
