(* ===== verification/Socket.thy ===== *)
theory Socket
  imports Status
begin

text \<open>
  \<^verbatim>\<open>Socket\<close> (\<^verbatim>\<open>src/net/socket.cpp\<close>): a descriptor with a single owner, closed when the owner
  dies, and the construction of the listening socket. What the system calls answer is an argument;
  every operation also returns the trace of the calls it makes, the destructor's \<^verbatim>\<open>close\<close> included.
\<close>

section \<open>State\<close>

datatype bind_address = AnyAddress | Dotted string

datatype sys_call =
    SysSocket
  | SysReuseAddr int
  | SysNoDelay int
  | SysGetFlags int
  | SysSetFlags int int
  | SysBind int bind_address u16
  | SysListen int int
  | SysClose int

text \<open>\<open>Inl\<close> and \<open>Some\<close> carry the text of an error.\<close>

record sock_answers =
  a_socket :: "string + int"
  a_reuse :: "string option"
  a_nodelay :: "string option"
  a_getfl :: "string + int"
  a_setfl :: "string option"
  a_pton :: bool
  a_bind :: "string option"
  a_listen :: "string option"

type_synonym socket = int

definition INVALID_FD :: socket where "INVALID_FD = - 1"
definition TCP_BACKLOG :: int where "TCP_BACKLOG = 511"
definition O_NONBLOCK :: int where "O_NONBLOCK = 2048"

definition sock_valid :: "socket \<Rightarrow> bool" where
  "sock_valid s \<longleftrightarrow> s \<noteq> INVALID_FD"

section \<open>Ownership\<close>

definition close_fd :: "socket \<Rightarrow> socket \<times> sys_call list" where
  "close_fd s = (if s \<noteq> INVALID_FD then (INVALID_FD, [SysClose s]) else (s, []))"

definition sock_destroy :: "socket \<Rightarrow> sys_call list" where
  "sock_destroy s = snd (close_fd s)"

text \<open>The new socket and what is left in the source.\<close>

definition sock_move :: "socket \<Rightarrow> socket \<times> socket" where
  "sock_move other = (other, INVALID_FD)"

text \<open>Move assignment to another object; the self-assignment does nothing.\<close>

definition sock_assign :: "socket \<Rightarrow> socket \<Rightarrow> (socket \<times> socket) \<times> sys_call list" where
  "sock_assign self other = (case close_fd self of (_, calls) \<Rightarrow> ((other, INVALID_FD), calls))"

section \<open>Configuration\<close>

definition set_nonblocking :: "string + int \<Rightarrow> string option \<Rightarrow> socket \<Rightarrow> status \<times> sys_call list" where
  "set_nonblocking getfl setfl fd =
     (case getfl of
        Inl e \<Rightarrow> (io_error e, [SysGetFlags fd])
      | Inr flags \<Rightarrow>
          (case setfl of Some e \<Rightarrow> io_error e | None \<Rightarrow> success,
           [SysGetFlags fd, SysSetFlags fd (flags OR O_NONBLOCK)]))"

definition set_nodelay :: "string option \<Rightarrow> socket \<Rightarrow> status \<times> sys_call list" where
  "set_nodelay answer fd = (case answer of Some e \<Rightarrow> io_error e | None \<Rightarrow> success, [SysNoDelay fd])"

text \<open>An early return of \<^verbatim>\<open>create_server\<close>: the status, and the death of the local socket.\<close>

definition give_up :: "socket \<Rightarrow> status \<Rightarrow> sys_call list \<Rightarrow> (socket \<times> status) \<times> sys_call list" where
  "give_up sock s calls = ((INVALID_FD, s), calls @ sock_destroy sock)"

definition create_server :: "sock_answers \<Rightarrow> string \<Rightarrow> u16 \<Rightarrow> (socket \<times> status) \<times> sys_call list" where
  "create_server a host port =
     (case a_socket a of
        Inl e \<Rightarrow> ((INVALID_FD, io_error e), [SysSocket])
      | Inr fd \<Rightarrow>
          let calls = [SysSocket, SysReuseAddr fd] in
          case a_reuse a of Some e \<Rightarrow> give_up fd (io_error e) calls
        | None \<Rightarrow>
          let calls = calls @ [SysNoDelay fd] in
          case a_nodelay a of Some e \<Rightarrow> give_up fd (io_error e) calls
        | None \<Rightarrow>
          case set_nonblocking (a_getfl a) (a_setfl a) fd of (s, flag_calls) \<Rightarrow>
          let calls = calls @ flag_calls in
          if \<not> st_ok s then give_up fd s calls
          else
          let any = (host = ''0.0.0.0'' \<or> host = []) in
          if \<not> any \<and> \<not> a_pton a then give_up fd (io_error ''Invalid bind address'') calls
          else
          let calls = calls @ [SysBind fd (if any then AnyAddress else Dotted host) port] in
          case a_bind a of Some e \<Rightarrow> give_up fd (io_error e) calls
        | None \<Rightarrow>
          let calls = calls @ [SysListen fd TCP_BACKLOG] in
          case a_listen a of Some e \<Rightarrow> give_up fd (io_error e) calls
        | None \<Rightarrow> case sock_move fd of (result, sock) \<Rightarrow> ((result, success), calls @ sock_destroy sock))"

section \<open>Properties\<close>

lemma sock_assign_keeps_owner:
  "fst (sock_assign self other) = (other, INVALID_FD)"
  "snd (sock_assign self other) = (if sock_valid self then [SysClose self] else [])"
  by (simp_all add: sock_assign_def close_fd_def sock_valid_def)

text \<open>C40. The listening socket is never leaked and never half-configured: whichever system call fails,
  an error status comes with an invalid socket, and the descriptor, once created, is closed exactly
  once, by the last call; success comes with the open descriptor after all seven calls in order.\<close>

theorem create_server_no_leak:
  assumes "create_server a host port = ((sock, s), calls)" "a_socket a = Inr fd" "0 \<le> fd"
  shows "if st_ok s
    then sock = fd \<and> (\<exists>flags addr. calls = [SysSocket, SysReuseAddr fd, SysNoDelay fd, SysGetFlags fd,
           SysSetFlags fd (flags OR O_NONBLOCK), SysBind fd addr port, SysListen fd TCP_BACKLOG])
    else sock = INVALID_FD \<and> (\<exists>pre. calls = pre @ [SysClose fd] \<and> (\<forall>k. SysClose k \<notin> set pre))"
proof -
  have "fd \<noteq> INVALID_FD" using assms(3) by (simp add: INVALID_FD_def)
  then show ?thesis
    using assms(1,2)
    by (auto simp: create_server_def Let_def give_up_def sock_destroy_def close_fd_def set_nonblocking_def
        sock_move_def split: option.splits sum.splits if_splits)
qed

lemma create_server_no_leak_witness:
  "fst (fst (create_server \<lparr>a_socket = Inr 4, a_reuse = None, a_nodelay = None, a_getfl = Inr 2, a_setfl = None,
      a_pton = True, a_bind = Some ''Address already in use'', a_listen = None\<rparr> ''127.0.0.1'' 6379)) = INVALID_FD"
proof -
  let ?a = "\<lparr>a_socket = Inr 4, a_reuse = None, a_nodelay = None, a_getfl = Inr 2, a_setfl = None,
    a_pton = True, a_bind = Some ''Address already in use'', a_listen = None\<rparr>"
  obtain sock s calls where c: "create_server ?a ''127.0.0.1'' 6379 = ((sock, s), calls)" by (metis surj_pair)
  have "\<not> st_ok s" using c
    by (auto simp: create_server_def Let_def give_up_def set_nonblocking_def split: if_splits)
  then show ?thesis using create_server_no_leak [OF c, of 4] by (simp add: c)
qed

end
