(* ===== verification/TcpServer.thy ===== *)
theory TcpServer
  imports EventLoop Connection Socket
begin

text \<open>
  \<^verbatim>\<open>TcpServer\<close> (\<^verbatim>\<open>src/net/tcp_server.cpp\<close>): the table of clients and its three callbacks. What the
  kernel answers to the system calls of one callback (the descriptors that \<^verbatim>\<open>accept4\<close> returns, the
  results of \<^verbatim>\<open>read\<close> and \<^verbatim>\<open>write\<close>) is an element of the list \<open>answers\<close>, taken when the callback runs.
  The request handler is a function on the state \<open>'a\<close> of the application and the connection; its
  input \<open>'e\<close> comes with the answers, and its result is \<open>None\<close> when an exception leaves it. Nobody
  catches that exception: it ends the process, and \<open>crashed\<close> records it.
\<close>

section \<open>State\<close>

datatype callback = OnNewConnection | OnClientReadable | OnClientWritable | OnSignal | OnTimer

datatype accept_result = Accepted int | AcceptAgain | AcceptError

record 'e io_answer =
  accepts :: "accept_result list"
  reads :: "read_result list"
  writes :: "write_result list"
  input :: 'e

record ('k, 'a, 'e) tcp_server =
  ev_loop :: "('k, callback) event_loop"
  listen_fd :: socket
  clients :: "int \<rightharpoonup> connection"
  next_client_id :: u64
  request_handler :: "('e \<Rightarrow> 'a \<times> connection \<Rightarrow> ('a \<times> connection) option) option"
  app :: 'a
  answers :: "'e io_answer list"
  crashed :: bool
  received :: "(u64 \<times> string) list"
  delivered :: "(u64 \<times> string) list"

text \<open>
  \<open>received\<close> is a record of the bytes with which which client's requests were handled, in order;
  \<open>delivered\<close> one of what the kernel took from which client's write buffer.
\<close>

definition tcp_new :: "('k, callback) event_loop \<Rightarrow> 'a \<Rightarrow> 'e io_answer list \<Rightarrow> ('k, 'a, 'e) tcp_server" where
  "tcp_new lp a ans =
     \<lparr>ev_loop = lp, listen_fd = INVALID_FD, clients = Map.empty, next_client_id = 1, request_handler = None, app = a,
      answers = ans, crashed = False, received = [], delivered = []\<rparr>"

definition set_request_handler ::
    "('e \<Rightarrow> 'a \<times> connection \<Rightarrow> ('a \<times> connection) option) \<Rightarrow> ('k, 'a, 'e) tcp_server \<Rightarrow> ('k, 'a, 'e) tcp_server" where
  "set_request_handler handler w = w\<lparr>request_handler := Some handler\<rparr>"

definition client_count :: "('k, 'a, 'e) tcp_server \<Rightarrow> usize" where
  "client_count w = card (dom (clients w))"

section \<open>Operations\<close>

text \<open>\<open>created\<close> is the result of \<^verbatim>\<open>Socket::create_server\<close>.\<close>

definition tcp_start ::
    "'k epoll_ctl \<Rightarrow> socket \<times> status \<Rightarrow> ('k, 'a, 'e) tcp_server \<Rightarrow> ('k, 'a, 'e) tcp_server \<times> status" where
  "tcp_start ctl created w =
     (case created of (sock, s) \<Rightarrow>
        if \<not> st_ok s then (w, s)
        else
          let w = w\<lparr>listen_fd := sock\<rparr>
          in case add_readable ctl (listen_fd w) OnNewConnection (ev_loop w) of
               (lp, s) \<Rightarrow> (w\<lparr>ev_loop := lp\<rparr>, if \<not> st_ok s then s else success))"

text \<open>\<open>order\<close> is the iteration order of the table.\<close>

definition tcp_stop :: "'k epoll_ctl \<Rightarrow> int list \<Rightarrow> ('k, 'a, 'e) tcp_server \<Rightarrow> ('k, 'a, 'e) tcp_server" where
  "tcp_stop ctl order w =
     (let lp = fst (loop_remove ctl (listen_fd w) (ev_loop w));
          lp = fold (\<lambda>fd lp. fst (loop_remove ctl fd lp)) order lp
      in w\<lparr>ev_loop := lp, clients := Map.empty\<rparr>)"

definition close_connection :: "'k epoll_ctl \<Rightarrow> int \<Rightarrow> ('k, 'a, 'e) tcp_server \<Rightarrow> ('k, 'a, 'e) tcp_server" where
  "close_connection ctl client_fd w =
     w\<lparr>ev_loop := fst (loop_remove ctl client_fd (ev_loop w)), clients := (clients w)(client_fd := None)\<rparr>"

text \<open>The answers for the next callback; with none left, every call would block.\<close>

definition next_answer :: "('k, 'a, 'e) tcp_server \<Rightarrow> ('e io_answer \<times> ('k, 'a, 'e) tcp_server) option" where
  "next_answer w = (case answers w of [] \<Rightarrow> None | an # ans \<Rightarrow> Some (an, w\<lparr>answers := ans\<rparr>))"

definition accept_client :: "'k epoll_ctl \<Rightarrow> int \<Rightarrow> ('k, 'a, 'e) tcp_server \<Rightarrow> ('k, 'a, 'e) tcp_server" where
  "accept_client ctl client_fd w =
     (let cid = next_client_id w;
          conn = conn_new cid;
          lp = fst (add_readable ctl client_fd OnClientReadable (ev_loop w))
      in w\<lparr>next_client_id := cid + 1, ev_loop := lp,
           clients := (if clients w client_fd = None then (clients w)(client_fd \<mapsto> conn) else clients w)\<rparr>)"

fun accept_loop :: "'k epoll_ctl \<Rightarrow> accept_result list \<Rightarrow> ('k, 'a, 'e) tcp_server \<Rightarrow> ('k, 'a, 'e) tcp_server" where
  "accept_loop ctl (Accepted client_fd # rest) w = accept_loop ctl rest (accept_client ctl client_fd w)"
| "accept_loop ctl (AcceptAgain # rest) w = w"
| "accept_loop ctl (AcceptError # rest) w = w"
| "accept_loop ctl [] w = w"

definition on_new_connection :: "'k epoll_ctl \<Rightarrow> 'e io_answer \<Rightarrow> ('k, 'a, 'e) tcp_server \<Rightarrow> ('k, 'a, 'e) tcp_server" where
  "on_new_connection ctl an w = accept_loop ctl (accepts an) w"

text \<open>A call of \<^verbatim>\<open>flush_write_buffer\<close> on the connection of a client.\<close>

definition flush_client ::
    "write_result list \<Rightarrow> connection \<Rightarrow> ('k, 'a, 'e) tcp_server \<Rightarrow> connection \<times> ('k, 'a, 'e) tcp_server" where
  "flush_client script conn w =
     (case flush_write_buffer script conn of
        (conn, ok, out, rest) \<Rightarrow> (conn, w\<lparr>delivered := delivered w @ [(client_id conn, out)]\<rparr>))"

definition on_client_readable ::
    "'k epoll_ctl \<Rightarrow> 'e io_answer \<Rightarrow> int \<Rightarrow> ('k, 'a, 'e) tcp_server \<Rightarrow> ('k, 'a, 'e) tcp_server" where
  "on_client_readable ctl an client_fd w =
     (case clients w client_fd of
        None \<Rightarrow> w
      | Some conn \<Rightarrow>
          case fill_read_buffer (reads an) conn of
            (conn, n, _) \<Rightarrow>
              if n = 0 then close_connection ctl client_fd w
              else if n < 0 then close_connection ctl client_fd w
              else
                case (case request_handler w of
                        None \<Rightarrow> Some (app w, conn)
                      | Some handler \<Rightarrow> handler (input an) (app w, conn)) of
                  None \<Rightarrow> w\<lparr>crashed := True\<rparr>
                | Some (a, conn) \<Rightarrow>
                let w = w\<lparr>app := a, received := received w @ [(client_id conn, script_data (reads an))]\<rparr>;
                    (conn, w) =
                      (if has_pending_writes conn then
                         case flush_client (writes an) conn w of
                           (conn, w) \<Rightarrow>
                             (conn,
                              if has_pending_writes conn
                              then w\<lparr>ev_loop := fst (add_writable ctl client_fd OnClientWritable (ev_loop w))\<rparr>
                              else w)
                       else (conn, w));
                    w = w\<lparr>clients := (clients w)(client_fd \<mapsto> conn)\<rparr>
                in if is_closed conn then close_connection ctl client_fd w else w)"

definition on_client_writable ::
    "'k epoll_ctl \<Rightarrow> 'e io_answer \<Rightarrow> int \<Rightarrow> ('k, 'a, 'e) tcp_server \<Rightarrow> ('k, 'a, 'e) tcp_server" where
  "on_client_writable ctl an client_fd w =
     (case clients w client_fd of
        None \<Rightarrow> w
      | Some conn \<Rightarrow>
          case flush_client (writes an) conn w of
            (conn, w) \<Rightarrow>
              let w = (if \<not> has_pending_writes conn
                       then w\<lparr>ev_loop := fst (remove_writable ctl client_fd (ev_loop w))\<rparr> else w);
                  w = w\<lparr>clients := (clients w)(client_fd \<mapsto> conn)\<rparr>
              in if is_closed conn then close_connection ctl client_fd w else w)"

text \<open>The kernel hands out descriptors that are not in use.\<close>

fun accepts_fresh :: "'k epoll_ctl \<Rightarrow> accept_result list \<Rightarrow> ('k, 'a, 'e) tcp_server \<Rightarrow> bool" where
  "accepts_fresh ctl (Accepted fd # rest) w \<longleftrightarrow>
     handlers (ev_loop w) fd = None \<and> accepts_fresh ctl rest (accept_client ctl fd w)"
| "accepts_fresh ctl _ w \<longleftrightarrow> True"

end
