(* ===== verification/TcpInv.thy ===== *)
theory TcpInv
  imports TcpServer
begin

text \<open>
  The client table, the registry of callbacks and the kernel's interest list agree at every moment.
  The locale \<open>request_contract\<close> is what the server relies on in its request handler; \<open>tcp_contract\<close>
  adds the contract of epoll. Its lemmas show for each callback that the invariant is kept.
\<close>

section \<open>The invariant\<close>

lemma has_pending_iff: "has_pending_writes c \<longleftrightarrow> pending c \<noteq> []"
  by (auto simp: has_pending_writes_def pending_def)

definition client_ok :: "('k, callback) event_loop \<Rightarrow> int \<Rightarrow> connection \<Rightarrow> bool" where
  "client_ok lp fd c \<longleftrightarrow>
     conn_inv c \<and> \<not> is_closed c \<and>
     (\<exists>h. handlers lp fd = Some h \<and> on_readable h = Some OnClientReadable \<and>
        on_writable h \<in> {None, Some OnClientWritable} \<and> (has_pending_writes c \<longrightarrow> on_writable h \<noteq> None))"

definition client_handlers :: "callback fd_handlers \<Rightarrow> bool" where
  "client_handlers h \<longleftrightarrow> on_readable h = Some OnClientReadable \<or> on_writable h \<noteq> None"

text \<open>
  Kernel and registry agree; every client is open, consistent, watched for input, and watched for
  output whenever bytes are waiting; no callback of a client outlives it.
\<close>

definition tcp_inv :: "('k \<Rightarrow> int \<rightharpoonup> u32) \<Rightarrow> ('a \<Rightarrow> bool) \<Rightarrow> ('k, 'a, 'e) tcp_server \<Rightarrow> bool" where
  "tcp_inv interest app_ok w \<longleftrightarrow>
     in_sync interest (ev_loop w) \<and> app_ok (app w) \<and> finite (dom (clients w)) \<and>
     (\<forall>fd c. clients w fd = Some c \<longrightarrow> client_ok (ev_loop w) fd c) \<and>
     (\<forall>fd h. handlers (ev_loop w) fd = Some h \<longrightarrow> client_handlers h \<longrightarrow> clients w fd \<noteq> None)"

lemma tcp_invI:
  assumes "in_sync interest (ev_loop w)" "app_ok (app w)" "finite (dom (clients w))"
    and "\<And>fd c. clients w fd = Some c \<Longrightarrow> client_ok (ev_loop w) fd c"
    and "\<And>fd h. handlers (ev_loop w) fd = Some h \<Longrightarrow> client_handlers h \<Longrightarrow> clients w fd \<noteq> None"
  shows "tcp_inv interest app_ok w"
  using assms by (simp add: tcp_inv_def)

lemma tcp_invD:
  assumes "tcp_inv interest app_ok w"
  shows "in_sync interest (ev_loop w)" "app_ok (app w)" "finite (dom (clients w))"
    and "clients w fd = Some c \<Longrightarrow> client_ok (ev_loop w) fd c"
    and "handlers (ev_loop w) fd = Some h \<Longrightarrow> client_handlers h \<Longrightarrow> clients w fd \<noteq> None"
  using assms by (auto simp: tcp_inv_def)

text \<open>A step that changes only one descriptor needs to be looked at only there.\<close>

lemma tcp_inv_update:
  assumes inv: "tcp_inv interest app_ok w" and sync: "in_sync interest (ev_loop w')" and "app_ok (app w')"
    and h: "\<And>k. k \<noteq> fd \<Longrightarrow> handlers (ev_loop w') k = handlers (ev_loop w) k"
    and c: "\<And>k. k \<noteq> fd \<Longrightarrow> clients w' k = clients w k"
    and fd: "\<And>c. clients w' fd = Some c \<Longrightarrow> client_ok (ev_loop w') fd c"
    and no: "clients w' fd = None \<Longrightarrow> handlers (ev_loop w') fd = None"
  shows "tcp_inv interest app_ok w'"
proof (rule tcp_invI)
  note d = tcp_invD [OF inv]
  show "in_sync interest (ev_loop w')" "app_ok (app w')" by fact+
  have "dom (clients w') \<subseteq> insert fd (dom (clients w))" using c by (auto simp: dom_def)
  then show "finite (dom (clients w'))" using d(3) finite_subset by blast
  show "client_ok (ev_loop w') k c'" if "clients w' k = Some c'" for k c'
  proof (cases "k = fd")
    case False
    then have "client_ok (ev_loop w) k c'" using d(4) c that by simp
    then show ?thesis using h [OF False] by (simp add: client_ok_def)
  qed (use fd that in blast)
  show "clients w' k \<noteq> None" if "handlers (ev_loop w') k = Some hs" "client_handlers hs" for k hs
    using that no d(5) [of k hs] h [of k] c [of k] by (cases "k = fd") auto
qed

section \<open>The interfaces\<close>

locale request_contract =
  fixes handler :: "'e \<Rightarrow> 'a \<times> connection \<Rightarrow> ('a \<times> connection) option"
    and app_ok :: "'a \<Rightarrow> bool" and input_ok :: "'e \<Rightarrow> bool"
  assumes handler_keeps: "app_ok a \<Longrightarrow> conn_inv c \<Longrightarrow> input_ok e \<Longrightarrow> handler e (a, c) = Some (a', c') \<Longrightarrow>
      app_ok a' \<and> conn_inv c' \<and> answered c c'"

locale tcp_contract = epoll_kernel ctl interest + request_contract handler app_ok input_ok
  for ctl :: "'k epoll_ctl" and interest :: "'k \<Rightarrow> int \<rightharpoonup> u32"
    and handler :: "'e \<Rightarrow> 'a \<times> connection \<Rightarrow> ('a \<times> connection) option" and app_ok :: "'a \<Rightarrow> bool" and input_ok :: "'e \<Rightarrow> bool"
begin

lemma close_inv:
  assumes "tcp_inv interest app_ok w"
  shows "tcp_inv interest app_ok (close_connection ctl fd w)"
proof -
  obtain lp s where lp: "loop_remove ctl fd (ev_loop w) = (lp, s)" by fastforce
  note f = loop_remove_facts [OF tcp_invD(1) [OF assms] lp]
  show ?thesis
    by (rule tcp_inv_update [OF assms, of _ fd]) (use f tcp_invD(2) [OF assms] in \<open>simp_all add: close_connection_def lp\<close>)
qed

lemma accept_inv:
  assumes "tcp_inv interest app_ok w" "handlers (ev_loop w) fd = None"
  shows "tcp_inv interest app_ok (accept_client ctl fd w)"
proof -
  obtain lp s where lp: "add_readable ctl fd OnClientReadable (ev_loop w) = (lp, s)" by fastforce
  note f = add_readable_facts [OF tcp_invD(1) [OF assms(1)] lp]
  have "clients w fd = None" using tcp_invD(4) [OF assms(1), of fd] assms(2) by (cases "clients w fd") (auto simp: client_ok_def)
  then show ?thesis
    by (intro tcp_inv_update [OF assms(1), of _ fd])
      (use f tcp_invD(2) [OF assms(1)] assms(2) in
        \<open>auto simp: accept_client_def lp Let_def client_ok_def handlers_of_def is_closed_def conn_new_def
           has_pending_writes_def conn_inv_def\<close>)
qed

lemma accept_loop_inv:
  "tcp_inv interest app_ok w \<Longrightarrow> accepts_fresh ctl rs w \<Longrightarrow> tcp_inv interest app_ok (accept_loop ctl rs w)"
proof (induction rs arbitrary: w)
  case (Cons x rs)
  then show ?case by (cases x) (auto intro: accept_inv)
qed simp

lemma on_new_connection_inv:
  "tcp_inv interest app_ok w \<Longrightarrow> accepts_fresh ctl (accepts an) w \<Longrightarrow>
    tcp_inv interest app_ok (on_new_connection ctl an w)"
  by (simp add: on_new_connection_def accept_loop_inv)

text \<open>The end of both client callbacks: the connection is stored, and closed if it is to be.\<close>

lemma finish_inv:
  assumes inv: "tcp_inv interest app_ok w" and sync: "in_sync interest (ev_loop w1)" and app: "app_ok (app w1)"
    and cl: "clients w1 = (clients w)(fd \<mapsto> c)"
    and h: "\<And>k. k \<noteq> fd \<Longrightarrow> handlers (ev_loop w1) k = handlers (ev_loop w) k"
    and ok: "\<not> is_closed c \<Longrightarrow> client_ok (ev_loop w1) fd c"
  shows "tcp_inv interest app_ok (if is_closed c then close_connection ctl fd w1 else w1)"
proof (cases "is_closed c")
  case True
  obtain lp s where lp: "loop_remove ctl fd (ev_loop w1) = (lp, s)" by fastforce
  note f = loop_remove_facts [OF sync lp]
  show ?thesis using True
    by (intro tcp_inv_update [OF inv, of _ fd]) (use f app cl h in \<open>simp_all add: close_connection_def lp\<close>)
next
  case False
  then show ?thesis using tcp_inv_update [OF inv sync app, of fd] cl h ok by simp
qed

lemma crashed_inv [simp]: "tcp_inv interest app_ok (w\<lparr>crashed := b\<rparr>) = tcp_inv interest app_ok w"
  by (simp add: tcp_inv_def)

lemma on_client_writable_inv:
  assumes inv: "tcp_inv interest app_ok w"
  shows "tcp_inv interest app_ok (on_client_writable ctl an fd w)"
proof (cases "clients w fd")
  case (Some c)
  note ok = tcp_invD(4) [OF inv Some]
  obtain c' good out rest where fl: "flush_write_buffer (writes an) c = (c', good, out, rest)" by (metis surj_pair)
  have c: "conn_inv c" "\<not> is_closed c" using ok by (simp_all add: client_ok_def)
  note ff = flush_write_buffer_facts [OF c(1) fl]
  obtain h where h: "handlers (ev_loop w) fd = Some h" "on_readable h = Some OnClientReadable"
    "on_writable h \<in> {None, Some OnClientWritable}" "has_pending_writes c \<longrightarrow> on_writable h \<noteq> None"
    using ok by (auto simp: client_ok_def)
  obtain lp s where lp: "remove_writable ctl fd (ev_loop w) = (lp, s)" by fastforce
  have "on_readable h \<noteq> None" using h(2) by simp
  note rw = remove_writable_facts [OF tcp_invD(1) [OF inv] h(1) this lp]
  have fewer: "has_pending_writes c' \<Longrightarrow> has_pending_writes c"
    using ff(2) by (auto simp: has_pending_iff)
  let ?w1 = "w\<lparr>delivered := delivered w @ [(client_id c', out)],
    ev_loop := (if \<not> has_pending_writes c' then lp else ev_loop w), clients := (clients w)(fd \<mapsto> c')\<rparr>"
  have "on_client_writable ctl an fd w = (if is_closed c' then close_connection ctl fd ?w1 else ?w1)"
    by (simp add: on_client_writable_def Some flush_client_def fl lp Let_def)
  moreover have "tcp_inv interest app_ok (if is_closed c' then close_connection ctl fd ?w1 else ?w1)"
  proof (rule finish_inv [OF inv])
    show "in_sync interest (ev_loop ?w1)" using rw(2) tcp_invD(1) [OF inv] by simp
    show "app_ok (app ?w1)" using tcp_invD(2) [OF inv] by simp
    show "handlers (ev_loop ?w1) k = handlers (ev_loop w) k" if "k \<noteq> fd" for k using rw(4) that by simp
    show "client_ok (ev_loop ?w1) fd c'" if "\<not> is_closed c'"
      using that ff(1) h rw(4) fewer by (auto simp: client_ok_def)
  qed simp
  ultimately show ?thesis by simp
qed (use inv in \<open>simp add: on_client_writable_def\<close>)

lemma on_client_readable_inv:
  assumes inv: "tcp_inv interest app_ok w" and io: "reads_fit (reads an)" "input_ok (input an)"
    and rh: "request_handler w = Some handler"
  shows "tcp_inv interest app_ok (on_client_readable ctl an fd w)"
proof (cases "clients w fd")
  case (Some c)
  note ok = tcp_invD(4) [OF inv Some]
  have c: "conn_inv c" "\<not> is_closed c" using ok by (simp_all add: client_ok_def)
  obtain h where h: "handlers (ev_loop w) fd = Some h" "on_readable h = Some OnClientReadable"
    "on_writable h \<in> {None, Some OnClientWritable}" using ok by (auto simp: client_ok_def)
  obtain c1 n rest where fill: "fill_read_buffer (reads an) c = (c1, n, rest)" by (metis surj_pair)
  note fr = fill_read_buffer_facts [OF c(1) io(1) fill]
  show ?thesis
  proof (cases "0 < n")
    case False
    then have "on_client_readable ctl an fd w = close_connection ctl fd w"
      by (auto simp: on_client_readable_def Some fill)
    then show ?thesis using close_inv [OF inv] by simp
  next
    case True
    have open1: "\<not> is_closed c1" using fr(4,5) True c(2) by (auto simp: is_closed_def split: if_splits)
    show ?thesis
    proof (cases "handler (input an) (app w, c1)")
      case None
      then show ?thesis using True inv by (simp add: on_client_readable_def Some fill rh)
    next
      case outcome: (Some ac)
      then obtain a c2 where hd: "handler (input an) (app w, c1) = Some (a, c2)" by (cases ac) simp
      have k: "app_ok a" "conn_inv c2" "answered c1 c2"
        using handler_keeps [OF tcp_invD(2) [OF inv] fr(1) io(2) hd] by auto
      have open2: "\<not> is_closed c2" using k(3) open1 by (auto simp: answered_def is_closed_def)
      obtain c3 good out rs where fl: "flush_write_buffer (writes an) c2 = (c3, good, out, rs)" by (metis surj_pair)
      note ff = flush_write_buffer_facts [OF k(2) fl]
      obtain lp s where lp: "add_writable ctl fd OnClientWritable (ev_loop w) = (lp, s)" by fastforce
      note aw = add_writable_facts [OF tcp_invD(1) [OF inv] lp]
      define c4 where "c4 = (if has_pending_writes c2 then c3 else c2)"
      define w1 where "w1 = w\<lparr>app := a, received := received w @ [(client_id c2, script_data (reads an))], delivered := (if has_pending_writes c2 then delivered w @ [(client_id c3, out)] else delivered w),
        ev_loop := (if has_pending_writes c2 \<and> has_pending_writes c3 then lp else ev_loop w), clients := (clients w)(fd \<mapsto> c4)\<rparr>"
      have "on_client_readable ctl an fd w = (if is_closed c4 then close_connection ctl fd w1 else w1)"
        using True by (simp add: on_client_readable_def Some fill rh hd flush_client_def fl lp c4_def w1_def)
      moreover have "tcp_inv interest app_ok (if is_closed c4 then close_connection ctl fd w1 else w1)"
      proof (rule finish_inv [OF inv])
        show "in_sync interest (ev_loop w1)" using aw(2) tcp_invD(1) [OF inv] by (simp add: w1_def)
        show "app_ok (app w1)" using k(1) by (simp add: w1_def)
        show "clients w1 = (clients w)(fd \<mapsto> c4)" by (simp add: w1_def)
        show "handlers (ev_loop w1) k = handlers (ev_loop w) k" if "k \<noteq> fd" for k using aw(4) that by (simp add: w1_def)
        show "client_ok (ev_loop w1) fd c4" if "\<not> is_closed c4"
          using that k(2) ff(1) h aw(4) by (auto simp: client_ok_def w1_def c4_def handlers_of_def)
      qed
      ultimately show ?thesis by simp
    qed
  qed
qed (use inv in \<open>simp add: on_client_readable_def\<close>)

end

end
