(* ===== verification/Crc64.thy ===== *)
theory Crc64
  imports Prelude
begin

text \<open>
  The CRC-64 of the snapshot files (\<^verbatim>\<open>crc64_update\<close> of \<^verbatim>\<open>src/persistence/rdb_save.cpp\<close>, repeated
  as \<^verbatim>\<open>RdbReader::update_crc\<close> in \<^verbatim>\<open>rdb_load.cpp\<close>). The table look-up is shown to compute the
  bitwise division it stands for, and the division to be injective in the state and in the byte.
\<close>

section \<open>The code\<close>

definition CRC64_POLY :: u64 where
  "CRC64_POLY = 0xad93d23594c935a9"

text \<open>One turn of the loop over \<open>j\<close> that fills the table.\<close>

definition crc64_bit :: "u64 \<Rightarrow> u64" where
  "crc64_bit c = (if c AND 1 \<noteq> 0 then CRC64_POLY XOR drop_bit 1 c else drop_bit 1 c)"

definition crc64_entry :: "nat \<Rightarrow> u64" where
  "crc64_entry i = (crc64_bit ^^ 8) (word_of_nat i)"

definition crc64_table :: "u64 list" where
  "crc64_table = map crc64_entry [0..<256]"

definition crc64_step :: "u64 \<Rightarrow> char \<Rightarrow> u64" where
  "crc64_step crc p = crc64_table ! unat ((crc XOR of_char p) AND 0xFF) XOR drop_bit 8 crc"

definition crc64_update :: "u64 \<Rightarrow> string \<Rightarrow> u64" where
  "crc64_update crc data = NOT (foldl crc64_step (NOT crc) data)"

text \<open>
  The copy of these routines in \<^verbatim>\<open>rdb_load.cpp\<close>: \<^verbatim>\<open>ensure_crc64_table\<close> fills a table of its own, one
  entry after the other; \<^verbatim>\<open>RdbReader::update_crc\<close> works on its member in place.
\<close>

definition ensure_crc64_table :: "u64 list \<Rightarrow> u64 list" where
  "ensure_crc64_table table =
     fold (\<lambda>i table. table[i := fold (\<lambda>j c. if c AND 1 \<noteq> 0 then 0xad93d23594c935a9 XOR drop_bit 1 c else drop_bit 1 c)
       [0..<8] (word_of_nat i)]) [0..<256] table"

definition g_crc64_table :: "u64 list" where
  "g_crc64_table = ensure_crc64_table (replicate 256 0)"

definition reader_update_crc :: "u64 \<Rightarrow> string \<Rightarrow> u64" where
  "reader_update_crc crc_state data =
     (let crc_state = NOT crc_state;
          crc_state = fold (\<lambda>p st. g_crc64_table ! unat ((st XOR of_char p) AND 0xFF) XOR drop_bit 8 st) data crc_state
      in NOT crc_state)"

lemma fold_const: "fold (\<lambda>_. f) xs = f ^^ length xs"
  by (induction xs) (simp_all add: fun_eq_iff funpow_swap1)

lemma fold_list_update:
  "n \<le> length xs \<Longrightarrow> fold (\<lambda>i xs. xs[i := f i]) [0..<n] xs = map f [0..<n] @ drop n xs"
proof (induction n)
  case (Suc n)
  then have "drop n xs = xs ! n # drop (Suc n) xs" by (simp add: Cons_nth_drop_Suc)
  with Suc show ?case by (simp add: list_update_append)
qed simp

lemma g_crc64_table [simp]: "g_crc64_table = crc64_table"
proof -
  have bits: "fold (\<lambda>j c. if c AND 1 \<noteq> 0 then 0xad93d23594c935a9 XOR drop_bit 1 c else drop_bit 1 c) [0..<8] c =
      (crc64_bit ^^ 8) c" for c :: u64
    using fold_const [of crc64_bit "[0..<8]"] unfolding crc64_bit_def [abs_def] CRC64_POLY_def by simp
  show ?thesis unfolding g_crc64_table_def ensure_crc64_table_def bits crc64_table_def
    by (subst fold_list_update) (simp_all add: crc64_entry_def [abs_def])
qed

lemma reader_update_crc [simp]: "reader_update_crc crc data = crc64_update crc data"
  by (simp add: reader_update_crc_def crc64_update_def foldl_conv_fold flip: crc64_step_def)

section \<open>The division step is linear and injective\<close>

lemma crc64_bit_alt: "crc64_bit c = drop_bit 1 c XOR (if bit c 0 then CRC64_POLY else 0)"
proof -
  have "c AND 1 \<noteq> 0 \<longleftrightarrow> bit c 0" by (simp add: and_one_eq bit_0 odd_iff_mod_2_eq_one)
  then show ?thesis by (simp add: crc64_bit_def xor.commute)
qed

lemma crc64_bit_xor: "crc64_bit (a XOR b) = crc64_bit a XOR crc64_bit b"
  by (simp add: crc64_bit_alt bit_xor_iff drop_bit_xor) (simp add: ac_simps)

lemma crc64_bits_xor: "(crc64_bit ^^ n) (a XOR b) = (crc64_bit ^^ n) a XOR (crc64_bit ^^ n) b"
  by (induction n) (simp_all add: crc64_bit_xor)

lemma crc64_bits_shift: "(\<forall>i<n. \<not> bit c i) \<Longrightarrow> (crc64_bit ^^ n) c = drop_bit n c"
proof (induction n)
  case (Suc n)
  then have "(crc64_bit ^^ Suc n) c = crc64_bit (drop_bit n c)" by simp
  also have "\<dots> = drop_bit 1 (drop_bit n c)" using Suc.prems by (simp add: crc64_bit_alt bit_drop_bit_eq)
  finally show ?case by (simp add: drop_bit_drop_bit)
qed simp

lemma crc64_poly_top: "bit CRC64_POLY 63"
  unfolding CRC64_POLY_def by simp

lemma crc64_bit_inj: "crc64_bit a = crc64_bit b \<Longrightarrow> a = b"
proof (rule bit_word_eqI)
  fix n assume eq: "crc64_bit a = crc64_bit b" and n: "n < LENGTH(64)"
  have top: "bit (crc64_bit c) 63 \<longleftrightarrow> bit c 0" for c
    using crc64_poly_top bit_imp_le_length [of c 64] by (auto simp: crc64_bit_alt bit_xor_iff bit_drop_bit_eq)
  have zero: "bit a 0 \<longleftrightarrow> bit b 0" using top [of a] top [of b] eq by simp
  then have "drop_bit 1 a = drop_bit 1 b" using eq by (auto simp: crc64_bit_alt xor_right_inj split: if_splits)
  then have "bit (drop_bit 1 a) (n - 1) \<longleftrightarrow> bit (drop_bit 1 b) (n - 1)" by simp
  then show "bit a n \<longleftrightarrow> bit b n" using zero by (cases n) (simp_all add: bit_drop_bit_eq)
qed

lemma crc64_bits_inj: "(crc64_bit ^^ n) a = (crc64_bit ^^ n) b \<Longrightarrow> a = b"
  by (induction n) (auto dest: crc64_bit_inj)

section \<open>The table\<close>

lemma bit_of_char_high: "8 \<le> n \<Longrightarrow> \<not> bit (of_char p :: u64) n"
proof -
  assume n: "8 \<le> n"
  have w: "(of_char p :: u64) = take_bit 8 (of_char p)" by (cases p) (simp add: take_bit_eq_mod of_char_mod_256)
  show ?thesis using n by (subst w) (simp add: bit_take_bit_iff)
qed

lemma unat_and_byte: "unat ((x :: u64) AND 0xFF) < 256"
proof -
  have "x AND 0xFF = take_bit 8 x" by (simp add: take_bit_eq_mask mask_eq_exp_minus_1)
  then show ?thesis using take_bit_nat_less_exp [of 8 "unat x"] by (simp add: unsigned_take_bit_eq)
qed

lemma crc64_step_bits: "crc64_step c p = (crc64_bit ^^ 8) (c XOR of_char p)"
proof -
  let ?x = "c XOR of_char p" and ?low = "(c XOR of_char p) AND 0xFF" and ?high = "(c XOR of_char p) AND NOT 0xFF"
  have ff: "(0xFF :: u64) = mask 8" by (simp add: mask_eq_exp_minus_1)
  have "?x = ?low XOR ?high" by (rule bit_word_eqI) (auto simp: bit_simps)
  then have "(crc64_bit ^^ 8) ?x = (crc64_bit ^^ 8) ?low XOR (crc64_bit ^^ 8) ?high"
    by (metis crc64_bits_xor)
  also have "(crc64_bit ^^ 8) ?high = drop_bit 8 ?high"
    by (rule crc64_bits_shift) (auto simp: ff bit_simps)
  also have "\<dots> = drop_bit 8 c"
    by (rule bit_word_eqI) (auto simp: ff bit_simps bit_of_char_high dest: bit_imp_le_length)
  also have "(crc64_bit ^^ 8) ?low = crc64_table ! unat ?low"
  proof -
    have "unat ?low < 256"
      using unat_and_byte [of ?x] .
    then show ?thesis by (simp add: crc64_table_def crc64_entry_def)
  qed
  finally show ?thesis by (simp add: crc64_step_def)
qed

lemma crc64_step_inj_state: "crc64_step c p = crc64_step d p \<longleftrightarrow> c = d"
  by (auto simp: crc64_step_bits dest: crc64_bits_inj)

lemma of_char_u64_inj: "(of_char p :: u64) = of_char q \<longleftrightarrow> p = q"
proof
  assume "(of_char p :: u64) = of_char q"
  then have "unat (word_of_nat (of_char p) :: u64) = unat (word_of_nat (of_char q) :: u64)"
    by (simp add: of_nat_of_char)
  moreover have "unat (word_of_nat (of_char c) :: u64) = of_char c" for c
  proof -
    have "of_char c < (2 :: nat) ^ 64" using nat_of_char_less_256 [of c] by (rule order.strict_trans) simp
    then show ?thesis by (simp add: unsigned_of_nat take_bit_nat_eq_self del: power_numeral)
  qed
  ultimately show "p = q" by simp
qed simp

lemma crc64_step_inj_byte: "crc64_step c p = crc64_step c q \<longleftrightarrow> p = q"
proof -
  have "crc64_step c p = crc64_step c q \<longleftrightarrow> c XOR of_char p = c XOR of_char q"
    by (auto simp: crc64_step_bits dest: crc64_bits_inj)
  also have "\<dots> \<longleftrightarrow> (of_char p :: u64) = of_char q" by (metis xor.commute xor_right_inj)
  finally show ?thesis by (simp only: of_char_u64_inj)
qed

lemma crc64_steps_inj: "foldl crc64_step c s = foldl crc64_step d s \<longleftrightarrow> c = d"
  by (induction s arbitrary: c d) (simp_all add: crc64_step_inj_state)

lemma crc64_update_append: "crc64_update crc (a @ b) = crc64_update (crc64_update crc a) b"
  by (simp add: crc64_update_def)

lemma crc64_update_Nil [simp]: "crc64_update crc [] = crc"
  by (simp add: crc64_update_def)

section \<open>Properties\<close>

text \<open>C38. The table look-up computes the bitwise polynomial division, byte by byte, and the checksum of
  a file does not depend on the pieces in which it was written or read.\<close>

theorem crc64_table_is_division:
  "crc64_update crc data = NOT (foldl (\<lambda>c p. (crc64_bit ^^ 8) (c XOR of_char p)) (NOT crc) data) \<and>
   foldl crc64_update crc pieces = crc64_update crc (concat pieces)"
proof
  show "crc64_update crc data = NOT (foldl (\<lambda>c p. (crc64_bit ^^ 8) (c XOR of_char p)) (NOT crc) data)"
    by (simp add: crc64_update_def flip: crc64_step_bits)
  show "foldl crc64_update crc pieces = crc64_update crc (concat pieces)"
    by (induction pieces arbitrary: crc) (simp_all add: crc64_update_append)
qed

text \<open>C39. Every change of a single byte of a file changes its checksum, wherever the byte stands and
  whatever surrounds it.\<close>

theorem crc64_detects_byte_change:
  "crc64_update crc (a @ [x] @ b) = crc64_update crc (a @ [y] @ b) \<longleftrightarrow> x = y"
  by (simp add: crc64_update_def crc64_steps_inj crc64_step_inj_byte)

end
