(* ===== verification/RdbWriter.thy ===== *)
theory RdbWriter
  imports Crc64 Status
begin

text \<open>
  \<^verbatim>\<open>RdbWriter\<close> (\<^verbatim>\<open>src/persistence/rdb_save.cpp\<close>). What the kernel answers to the successive
  \<^verbatim>\<open>write\<close> calls is a script: a count (possibly short), an interruption, or an error with its
  text. A script that is used up accepts everything. The target is little-endian.
\<close>

section \<open>State\<close>

datatype io_result = IoDone usize | IoIntr | IoErr string

record rdb_writer =
  w_script :: "io_result list"
  w_file :: string
  w_crc :: u64
  w_bytes :: usize

definition writer_new :: "io_result list \<Rightarrow> rdb_writer" where
  "writer_new script = \<lparr>w_script = script, w_file = [], w_crc = 0, w_bytes = 0\<rparr>"

section \<open>Constants of rdb.hpp\<close>

definition RDB_MAGIC :: string where "RDB_MAGIC = ''KEVA''"
definition RDB_VERSION :: u16 where "RDB_VERSION = 1"
definition RDB_OPCODE_DB :: u8 where "RDB_OPCODE_DB = 0xFE"
definition RDB_OPCODE_EXPIRE :: u8 where "RDB_OPCODE_EXPIRE = 0xFC"
definition RDB_OPCODE_EOF :: u8 where "RDB_OPCODE_EOF = 0xFF"
definition RDB_TYPE_STRING :: u8 where "RDB_TYPE_STRING = 0"

section \<open>Operations\<close>

text \<open>The kernel took the bytes \<open>d\<close>: they are in the file and in the running checksum.\<close>

definition took :: "string \<Rightarrow> rdb_writer \<Rightarrow> rdb_writer" where
  "took d w =
     w\<lparr>w_file := w_file w @ d, w_crc := crc64_update (w_crc w) d, w_bytes := w_bytes w + length d\<rparr>"

fun write_loop :: "io_result list \<Rightarrow> string \<Rightarrow> rdb_writer \<Rightarrow> rdb_writer \<times> status" where
  "write_loop script [] w = (w\<lparr>w_script := script\<rparr>, success)"
| "write_loop [] (b # p) w = ((took (b # p) w)\<lparr>w_script := []\<rparr>, success)"
| "write_loop (IoDone n # script) (b # p) w =
     write_loop script (drop n (b # p)) (took (take n (b # p)) w)"
| "write_loop (IoIntr # script) (b # p) w = write_loop script (b # p) w"
| "write_loop (IoErr msg # script) (b # p) w = (w\<lparr>w_script := script\<rparr>, io_error msg)"

definition write_bytes :: "string \<Rightarrow> rdb_writer \<Rightarrow> rdb_writer \<times> status" where
  "write_bytes data w = (if length data = 0 then (w, success) else write_loop (w_script w) data w)"

text \<open>The \<open>k\<close> bytes of a number in memory.\<close>

fun le_bytes :: "nat \<Rightarrow> nat \<Rightarrow> string" where
  "le_bytes 0 n = []"
| "le_bytes (Suc k) n = char_of n # le_bytes k (n div 256)"

definition write_u8 :: "u8 \<Rightarrow> rdb_writer \<Rightarrow> rdb_writer \<times> status" where
  "write_u8 v = write_bytes (le_bytes 1 (unat v))"

definition write_u16 :: "u16 \<Rightarrow> rdb_writer \<Rightarrow> rdb_writer \<times> status" where
  "write_u16 v = write_bytes (le_bytes 2 (unat v))"

definition write_u32 :: "u32 \<Rightarrow> rdb_writer \<Rightarrow> rdb_writer \<times> status" where
  "write_u32 v = write_bytes (le_bytes 4 (unat v))"

definition write_i64 :: "i64 \<Rightarrow> rdb_writer \<Rightarrow> rdb_writer \<times> status" where
  "write_i64 v = write_bytes (le_bytes 8 (unat (word_of_int v :: u64)))"

definition write_string :: "string \<Rightarrow> rdb_writer \<Rightarrow> rdb_writer \<times> status" where
  "write_string sv w =
     (let len = length sv;
          prefix =
            (if len < 64 then write_u8 (word_of_nat len) w
             else if len < 16384 then
               and_then (write_u8 (word_of_nat (0x80 OR drop_bit 8 len)) w)
                 (write_u8 (word_of_nat (len AND 0xFF)))
             else and_then (write_u8 0xC0 w) (write_u32 (word_of_nat len)))
      in and_then prefix (write_bytes sv))"

text \<open>One \<^verbatim>\<open>write\<close> call, which must take all eight bytes; the checksum is not updated.\<close>

definition write_crc64 :: "rdb_writer \<Rightarrow> rdb_writer \<times> status" where
  "write_crc64 w =
     (let bytes = le_bytes 8 (unat (w_crc w))
      in case w_script w of
           [] \<Rightarrow> (w\<lparr>w_file := w_file w @ bytes\<rparr>, success)
         | IoDone n # script \<Rightarrow>
             (w\<lparr>w_script := script, w_file := w_file w @ take n bytes\<rparr>,
              if min n 8 \<noteq> 8 then io_error ''Failed to write CRC64'' else success)
         | _ # script \<Rightarrow> (w\<lparr>w_script := script\<rparr>, io_error ''Failed to write CRC64''))"

section \<open>The world of a save\<close>

type_synonym files = "string \<rightharpoonup> string"

text \<open>
  \<open>each_ms\<close> is the clock reading of \<^verbatim>\<open>for_each\<close>, \<open>visit_ms i\<close> the two readings made for the \<open>i\<close>-th
  visited key, first by \<^verbatim>\<open>pttl\<close>, then for the absolute deadline.
\<close>

record save_env =
  each_ms :: i64
  visit_ms :: "nat \<Rightarrow> i64 \<times> i64"
  open_failure :: "string option"
  io_script :: "io_result list"
  rename_failure :: "string option"

section \<open>What the operations write\<close>

definition no_errors :: "io_result list \<Rightarrow> bool" where
  "no_errors script \<longleftrightarrow> (\<forall>m. IoErr m \<notin> set script)"

lemma no_errors_simps [simp]:
  "no_errors []" "no_errors (IoDone n # s) \<longleftrightarrow> no_errors s" "no_errors (IoIntr # s) \<longleftrightarrow> no_errors s"
  "\<not> no_errors (IoErr m # s)"
  by (auto simp: no_errors_def)

text \<open>\<open>w'\<close> has the bytes \<open>d\<close> more than \<open>w\<close>, in the file and in the checksum.\<close>

definition wrote :: "rdb_writer \<Rightarrow> string \<Rightarrow> rdb_writer \<Rightarrow> bool" where
  "wrote w d w' \<longleftrightarrow>
     w_file w' = w_file w @ d \<and> w_crc w' = crc64_update (w_crc w) d \<and> w_bytes w' = w_bytes w + length d"

lemma wrote_Nil [simp]: "wrote w [] w"
  by (simp add: wrote_def)

lemma wrote_trans: "wrote w a w1 \<Longrightarrow> wrote w1 b w2 \<Longrightarrow> wrote w (a @ b) w2"
  by (simp add: wrote_def crc64_update_append)

lemma wrote_took: "wrote (took a w) b w' \<Longrightarrow> wrote w (a @ b) w'"
  by (simp add: wrote_def took_def crc64_update_append)

lemma wrote_script [simp]: "wrote w d (w'\<lparr>w_script := s\<rparr>) \<longleftrightarrow> wrote w d w'"
  by (simp add: wrote_def)

text \<open>
  Whatever happens, a prefix of the data reaches the file, and all of it on success; an error has
  the text that the kernel gave.
\<close>

definition kernel_status :: "io_result list \<Rightarrow> status \<Rightarrow> bool" where
  "kernel_status script s \<longleftrightarrow> s = success \<or> (\<exists>m. IoErr m \<in> set script \<and> s = io_error m)"

lemma kernel_status_success [simp]: "kernel_status script success"
  by (simp add: kernel_status_def)

lemma kernel_status_mono: "kernel_status t s \<Longrightarrow> set t \<subseteq> set u \<Longrightarrow> kernel_status u s"
  by (auto simp: kernel_status_def)

lemma kernel_status_no_errors: "kernel_status script s \<Longrightarrow> no_errors script \<Longrightarrow> s = success"
  by (auto simp: kernel_status_def no_errors_def)

lemma write_loop_facts:
  assumes "write_loop script data w = (w', s)"
  shows "\<exists>d r. data = d @ r \<and> wrote w d w' \<and> (st_ok s \<longrightarrow> r = [] \<and> s = success) \<and>
    kernel_status script s \<and> set (w_script w') \<subseteq> set script"
  using assms
proof (induction script data w rule: write_loop.induct)
  case (3 n script b p w)
  then obtain d r where d: "drop n (b # p) = d @ r" "wrote (took (take n (b # p)) w) d w'"
    "st_ok s \<longrightarrow> r = [] \<and> s = success" "kernel_status script s" "set (w_script w') \<subseteq> set script" by auto
  have "b # p = (take n (b # p) @ d) @ r" using d(1) append_take_drop_id [of n "b # p"] by simp
  then show ?case using d wrote_took [OF d(2)] kernel_status_mono [OF d(4), of "IoDone n # script"]
    by (intro exI [of _ "take n (b # p) @ d"] exI [of _ r]) auto
qed (auto simp: took_def wrote_def kernel_status_def)

lemma write_bytes_facts:
  assumes "write_bytes data w = (w', s)"
  shows "\<exists>d r. data = d @ r \<and> wrote w d w' \<and> (st_ok s \<longrightarrow> r = [] \<and> s = success) \<and>
    kernel_status (w_script w) s \<and> set (w_script w') \<subseteq> set (w_script w)"
proof (cases "data = []")
  case False
  then show ?thesis using assms write_loop_facts [of "w_script w" data w w' s] by (simp add: write_bytes_def)
qed (use assms in \<open>simp add: write_bytes_def\<close>)

end
