(* ===== verification/RdbReader.thy ===== *)
theory RdbReader
  imports RdbWriter
begin

text \<open>
  \<^verbatim>\<open>RdbReader\<close> (\<^verbatim>\<open>src/persistence/rdb_load.cpp\<close>): the rest of the file, the script of the
  kernel's answers to \<^verbatim>\<open>read\<close>, and the running checksum. A failed operation leaves a reader whose
  state the caller does not use.
\<close>

section \<open>State and operations\<close>

record rdb_reader =
  r_script :: "io_result list"
  r_file :: string
  r_crc :: u64
  r_bytes :: usize

type_synonym 'a read_outcome = "rdb_reader \<times> (status + 'a)"

definition reader_new :: "io_result list \<Rightarrow> string \<Rightarrow> rdb_reader" where
  "reader_new script bytes = \<lparr>r_script = script, r_file = bytes, r_crc = 0, r_bytes = 0\<rparr>"

text \<open>\<^verbatim>\<open>n\<close> bytes arrived: they leave the file and enter the checksum.\<close>

definition advance :: "nat \<Rightarrow> rdb_reader \<Rightarrow> rdb_reader" where
  "advance n r =
     r\<lparr>r_file := drop n (r_file r), r_crc := reader_update_crc (r_crc r) (take n (r_file r)),
       r_bytes := r_bytes r + n\<rparr>"

definition eof_error :: status where
  "eof_error = io_error ''Unexpected EOF in RDB file''"

fun read_loop :: "io_result list \<Rightarrow> nat \<Rightarrow> string \<Rightarrow> rdb_reader \<Rightarrow> string read_outcome" where
  "read_loop script 0 out r = (r\<lparr>r_script := script\<rparr>, Inr out)"
| "read_loop [] (Suc k) out r =
     (if length (r_file r) < Suc k then (r\<lparr>r_script := []\<rparr>, Inl eof_error)
      else ((advance (Suc k) r)\<lparr>r_script := []\<rparr>, Inr (out @ take (Suc k) (r_file r))))"
| "read_loop (IoDone m # script) (Suc k) out r =
     (let n = min m (min (Suc k) (length (r_file r)))
      in if n = 0 then (r\<lparr>r_script := script\<rparr>, Inl eof_error)
         else read_loop script (Suc k - n) (out @ take n (r_file r)) (advance n r))"
| "read_loop (IoIntr # script) (Suc k) out r = read_loop script (Suc k) out r"
| "read_loop (IoErr msg # script) (Suc k) out r = (r\<lparr>r_script := script\<rparr>, Inl (io_error msg))"

definition read_bytes :: "usize \<Rightarrow> rdb_reader \<Rightarrow> string read_outcome" where
  "read_bytes len r = read_loop (r_script r) len [] r"

text \<open>The early return on a failed read.\<close>

definition read_then :: "'a read_outcome \<Rightarrow> ('a \<Rightarrow> rdb_reader \<Rightarrow> 'b read_outcome) \<Rightarrow> 'b read_outcome" where
  "read_then x f = (case x of (r, Inl e) \<Rightarrow> (r, Inl e) | (r, Inr v) \<Rightarrow> f v r)"

text \<open>The number that bytes in memory stand for.\<close>

fun le_value :: "string \<Rightarrow> nat" where
  "le_value [] = 0"
| "le_value (c # cs) = of_char c + 256 * le_value cs"

definition read_u8 :: "rdb_reader \<Rightarrow> u8 read_outcome" where
  "read_u8 r = read_then (read_bytes 1 r) (\<lambda>bs r. (r, Inr (word_of_nat (le_value bs))))"

definition read_u16 :: "rdb_reader \<Rightarrow> u16 read_outcome" where
  "read_u16 r = read_then (read_bytes 2 r) (\<lambda>bs r. (r, Inr (word_of_nat (le_value bs))))"

definition read_u32 :: "rdb_reader \<Rightarrow> u32 read_outcome" where
  "read_u32 r = read_then (read_bytes 4 r) (\<lambda>bs r. (r, Inr (word_of_nat (le_value bs))))"

definition read_i64 :: "rdb_reader \<Rightarrow> i64 read_outcome" where
  "read_i64 r = read_then (read_bytes 8 r) (\<lambda>bs r. (r, Inr (sint (word_of_nat (le_value bs) :: u64))))"

definition read_string :: "rdb_reader \<Rightarrow> string read_outcome" where
  "read_string r =
     read_then (read_u8 r) (\<lambda>first r.
       if first AND 0xC0 = 0 then read_bytes (unat (first AND 0x3F)) r
       else if first AND 0xC0 = 0x80 then
         read_then (read_u8 r) (\<lambda>second r.
           read_bytes (push_bit 8 (unat (first AND 0x3F)) OR unat second) r)
       else if first AND 0xC0 = 0xC0 then
         read_then (read_u32 r) (\<lambda>len32 r. read_bytes (unat len32) r)
       else (r, Inl (proto_error ''Unknown RDB string length encoding'')))"

text \<open>One \<^verbatim>\<open>read\<close> call, which must give all eight bytes; the checksum is not updated.\<close>

definition verify_crc64 :: "rdb_reader \<Rightarrow> unit read_outcome" where
  "verify_crc64 r =
     (case (case r_script r of [] \<Rightarrow> (8, []) | IoDone n # script \<Rightarrow> (min n 8, script) | _ # script \<Rightarrow> (0, script)) of
        (n, script) \<Rightarrow>
          let bytes = take n (r_file r); r' = r\<lparr>r_script := script, r_file := drop n (r_file r)\<rparr>
          in if length bytes \<noteq> 8 then (r', Inl (io_error ''Failed to read CRC64 from RDB''))
             else if (word_of_nat (le_value bytes) :: u64) \<noteq> r_crc r
             then (r', Inl (io_error (''RDB CRC64 checksum mismatch '' @ [CHR 0xE2, CHR 0x80, CHR 0x94] @ '' file may be corrupt'')))
             else (r', Inr ()))"

section \<open>What the operations read\<close>

text \<open>\<open>r'\<close> is \<open>r\<close> after the bytes \<open>d\<close>, which entered the checksum.\<close>

definition ate :: "rdb_reader \<Rightarrow> string \<Rightarrow> rdb_reader \<Rightarrow> bool" where
  "ate r d r' \<longleftrightarrow>
     r_file r = d @ r_file r' \<and> r_crc r' = crc64_update (r_crc r) d \<and> r_bytes r' = r_bytes r + length d"

lemma ate_Nil [simp]: "ate r [] r"
  by (simp add: ate_def)

lemma ate_trans: "ate r a r1 \<Longrightarrow> ate r1 b r2 \<Longrightarrow> ate r (a @ b) r2"
  by (simp add: ate_def crc64_update_append)

lemma ate_script [simp]: "ate r d (r'\<lparr>r_script := s\<rparr>) \<longleftrightarrow> ate r d r'"
  by (simp add: ate_def)

lemma ate_advance: "n \<le> length (r_file r) \<Longrightarrow> ate r (take n (r_file r)) (advance n r)"
  by (simp add: ate_def advance_def)

text \<open>
  A read that succeeds returns the next bytes of the file and consumes exactly those; without
  errors and with progress in every answer it succeeds whenever the file is long enough.
\<close>

definition progresses :: "io_result list \<Rightarrow> bool" where
  "progresses script \<longleftrightarrow> no_errors script \<and> IoDone 0 \<notin> set script"

lemma progresses_simps [simp]:
  "progresses []" "progresses (IoDone n # s) \<longleftrightarrow> 0 < n \<and> progresses s" "progresses (IoIntr # s) \<longleftrightarrow> progresses s"
  "\<not> progresses (IoErr m # s)"
  by (auto simp: progresses_def)

lemma read_loop_sound:
  assumes "read_loop script k out r = (r', Inr bs)"
  shows "\<exists>d. bs = out @ d \<and> length d = k \<and> ate r d r'"
  using assms
proof (induction script k out r rule: read_loop.induct)
  case (2 k out r)
  then show ?case using ate_advance [of "Suc k" r] by (auto split: if_splits)
next
  case (3 m script k out r)
  let ?n = "min m (min (Suc k) (length (r_file r)))"
  have n: "?n \<noteq> 0" using 3(2) by (auto simp: Let_def split: if_splits)
  have "read_loop script (Suc k - ?n) (out @ take ?n (r_file r)) (advance ?n r) = (r', Inr bs)"
    using 3(2) unfolding read_loop.simps Let_def if_not_P [OF n] .
  from 3(1) [OF refl n this]
  obtain d where d: "bs = (out @ take ?n (r_file r)) @ d" "length d = Suc k - ?n" "ate (advance ?n r) d r'"
    by blast
  have "ate r (take ?n (r_file r)) (advance ?n r)" by (rule ate_advance) simp
  from ate_trans [OF this d(3)] show ?case
    using d by (intro exI [of _ "take ?n (r_file r) @ d"]) auto
qed auto

lemma read_loop_complete:
  assumes "progresses script" "k \<le> length (r_file r)"
  shows "\<exists>r'. read_loop script k out r = (r', Inr (out @ take k (r_file r))) \<and>
    set (r_script r') \<subseteq> set script"
  using assms
proof (induction script k out r rule: read_loop.induct)
  case (3 m script k out r)
  let ?n = "min m (min (Suc k) (length (r_file r)))"
  have n: "?n \<noteq> 0" "?n \<le> Suc k" using 3(2,3) by auto
  have "Suc k - ?n \<le> length (r_file (advance ?n r))" using 3(3) by (simp add: advance_def)
  moreover have "progresses script" using 3(2) by simp
  ultimately obtain r' where
    r': "read_loop script (Suc k - ?n) (out @ take ?n (r_file r)) (advance ?n r) =
      (r', Inr ((out @ take ?n (r_file r)) @ take (Suc k - ?n) (r_file (advance ?n r))))"
    "set (r_script r') \<subseteq> set script"
    using 3(1) [OF refl n(1)] by blast
  have "take ?n (r_file r) @ take (Suc k - ?n) (drop ?n (r_file r)) = take (Suc k) (r_file r)"
    using n(2) by (metis le_add_diff_inverse take_add)
  then show ?case using r' n(1) by (simp add: Let_def advance_def) blast
qed auto

lemma read_bytes_sound: "read_bytes k r = (r', Inr bs) \<Longrightarrow> length bs = k \<and> ate r bs r'"
  unfolding read_bytes_def by (drule read_loop_sound) auto

lemma read_bytes_complete:
  assumes "progresses (r_script r)" "r_file r = d @ rest"
  shows "\<exists>r'. read_bytes (length d) r = (r', Inr d) \<and> ate r d r' \<and> r_file r' = rest \<and>
    set (r_script r') \<subseteq> set (r_script r)"
proof -
  obtain r' where r': "read_bytes (length d) r = (r', Inr d)" "set (r_script r') \<subseteq> set (r_script r)"
    using read_loop_complete [OF assms(1), of "length d" r "[]"] assms(2) by (auto simp: read_bytes_def)
  have "ate r d r'" using read_bytes_sound [OF r'(1)] by simp
  then show ?thesis using r' assms(2) by (auto simp: ate_def)
qed

lemma read_then_Inr: "read_then (r, Inr v) f = f v r"
  and read_then_Inl: "read_then (r, Inl e) f = (r, Inl e)"
  by (simp_all add: read_then_def)

lemmas read_then_simps [simp] = read_then_Inr read_then_Inl

end
