(* ===== verification/RdbCodec.thy ===== *)
theory RdbCodec
  imports RdbReader
begin

text \<open>
  The contract between writer and reader: \<open>puts w d r\<close> says that the bytes \<open>d\<close> went into the file of
  \<open>w\<close> (a prefix of them when the kernel reported an error), \<open>emits f d\<close> that the writing operation
  \<open>f\<close> always does this, \<open>yields g d x\<close>
  that the reading operation \<open>g\<close> turns exactly the bytes \<open>d\<close> into \<open>x\<close>. The locale \<open>rdb_codec\<close> is a
  pair of operations that agree; each primitive of the format is an interpretation.
\<close>

section \<open>Writing and reading a fixed sequence of bytes\<close>

definition puts :: "rdb_writer \<Rightarrow> string \<Rightarrow> rdb_writer \<times> status \<Rightarrow> bool" where
  "puts w d res \<longleftrightarrow>
     (case res of (w', s) \<Rightarrow>
        (\<exists>p q. d = p @ q \<and> wrote w p w' \<and> (st_ok s \<longrightarrow> q = [] \<and> s = success) \<and>
          kernel_status (w_script w) s \<and> set (w_script w') \<subseteq> set (w_script w)))"

definition emits :: "(rdb_writer \<Rightarrow> rdb_writer \<times> status) \<Rightarrow> string \<Rightarrow> bool" where
  "emits f d \<longleftrightarrow> (\<forall>w. puts w d (f w))"

definition yields :: "(rdb_reader \<Rightarrow> 'a read_outcome) \<Rightarrow> string \<Rightarrow> 'a \<Rightarrow> bool" where
  "yields g d x \<longleftrightarrow>
     (\<forall>r rest. progresses (r_script r) \<and> r_file r = d @ rest \<longrightarrow>
        (\<exists>r'. g r = (r', Inr x) \<and> ate r d r' \<and> r_file r' = rest \<and> set (r_script r') \<subseteq> set (r_script r)))"

lemma no_errors_subset: "no_errors s \<Longrightarrow> set t \<subseteq> set s \<Longrightarrow> no_errors t"
  and progresses_subset: "progresses s \<Longrightarrow> set t \<subseteq> set s \<Longrightarrow> progresses t"
  by (auto simp: no_errors_def progresses_def)

lemma putsD:
  assumes "puts w d (w', s)"
  obtains p q where "d = p @ q" "wrote w p w'" "st_ok s \<longrightarrow> q = [] \<and> s = success"
    "kernel_status (w_script w) s" "set (w_script w') \<subseteq> set (w_script w)"
  using assms unfolding puts_def by blast

lemma puts_ok: "puts w d (w', s) \<Longrightarrow> st_ok s \<Longrightarrow> s = success \<and> wrote w d w'"
  and puts_script: "puts w d (w', s) \<Longrightarrow> set (w_script w') \<subseteq> set (w_script w)"
  and puts_status: "puts w d (w', s) \<Longrightarrow> kernel_status (w_script w) s"
  by (auto simp: puts_def)

lemma puts_no_errors: "puts w d (w', s) \<Longrightarrow> no_errors (w_script w) \<Longrightarrow> s = success"
  using puts_status kernel_status_no_errors by blast

lemma puts_Nil: "puts w [] (w, success)"
  by (simp add: puts_def)

lemma puts_stop: "puts w a (w', s) \<Longrightarrow> \<not> st_ok s \<Longrightarrow> puts w (a @ b) (w', s)"
  by (erule putsD) (auto simp: puts_def)

lemma puts_trans:
  assumes a: "puts w a (w1, s1)" "st_ok s1" and b: "puts w1 b (w', s)"
  shows "puts w (a @ b) (w', s)"
proof -
  have w1: "wrote w a w1" "set (w_script w1) \<subseteq> set (w_script w)" using a puts_ok puts_script by blast+
  from b obtain p q where p: "b = p @ q" "wrote w1 p w'" "st_ok s \<longrightarrow> q = [] \<and> s = success"
    "kernel_status (w_script w1) s" "set (w_script w') \<subseteq> set (w_script w1)" by (rule putsD)
  moreover have "kernel_status (w_script w) s" using p(4) w1(2) by (rule kernel_status_mono)
  moreover have "set (w_script w') \<subseteq> set (w_script w)" using p(5) w1(2) by (rule subset_trans)
  ultimately show ?thesis using wrote_trans [OF w1(1) p(2)]
    unfolding puts_def prod.case by (intro exI [of _ "a @ p"] exI [of _ q]) simp
qed

lemma emits_puts: "emits f d \<Longrightarrow> puts w d (f w)"
  by (simp add: emits_def)

lemma emits_total:
  assumes "emits f d" "no_errors (w_script w)"
  shows "\<exists>w'. f w = (w', success) \<and> wrote w d w' \<and> set (w_script w') \<subseteq> set (w_script w)"
proof -
  obtain w' s where f: "f w = (w', s)" by fastforce
  then have "puts w d (w', s)" using emits_puts [OF assms(1), of w] by simp
  with puts_no_errors [OF this assms(2)] puts_ok [OF this] puts_script [OF this] show ?thesis using f by simp
qed

lemma yieldsD:
  assumes "yields g d x" "progresses (r_script r)" "r_file r = d @ rest"
  obtains r' where "g r = (r', Inr x)" "ate r d r'" "r_file r' = rest" "set (r_script r') \<subseteq> set (r_script r)"
  using assms unfolding yields_def by blast

lemma emits_write_bytes: "emits (write_bytes d) d"
  unfolding emits_def puts_def using write_bytes_facts by (auto split: prod.split)

lemma puts_and_then:
  assumes f: "puts w a r" and g: "emits g b"
  shows "puts w (a @ b) (and_then r g)"
proof (cases r)
  case (Pair w1 s1)
  then show ?thesis
    using f puts_stop [of w a w1 s1 b] puts_trans [of w a w1 s1 b] emits_puts [OF g, of w1]
    by (cases "st_ok s1"; cases "g w1") (auto simp: and_then_def)
qed

lemma emits_and_then: "emits f a \<Longrightarrow> emits g b \<Longrightarrow> emits (\<lambda>w. and_then (f w) g) (a @ b)"
  using puts_and_then by (simp add: emits_def)

lemma yields_return: "yields (\<lambda>r. (r, Inr x)) [] x"
  by (simp add: yields_def)

lemma yields_read_bytes: "yields (read_bytes (length d)) d d"
  unfolding yields_def using read_bytes_complete by blast

lemma yields_read_then:
  assumes g: "yields g a x" and f: "yields (f x) b y"
  shows "yields (\<lambda>r. read_then (g r) f) (a @ b) y"
  unfolding yields_def
proof (intro allI impI, elim conjE)
  fix r :: rdb_reader and rest assume p: "progresses (r_script r)" and "r_file r = (a @ b) @ rest"
  then obtain r1 where r1: "g r = (r1, Inr x)" "ate r a r1" "r_file r1 = b @ rest" "set (r_script r1) \<subseteq> set (r_script r)"
    using yieldsD [OF g, of r "b @ rest"] by auto
  from f progresses_subset [OF p r1(4)] r1(3)
  obtain r2 where "f x r1 = (r2, Inr y)" "ate r1 b r2" "r_file r2 = rest" "set (r_script r2) \<subseteq> set (r_script r1)"
    by (rule yieldsD)
  then show "\<exists>r'. read_then (g r) f = (r', Inr y) \<and> ate r (a @ b) r' \<and> r_file r' = rest \<and> set (r_script r') \<subseteq> set (r_script r)"
    using r1 ate_trans [OF r1(2)] by auto
qed

lemma yields_map:
  assumes "yields g d x"
  shows "yields (\<lambda>r. read_then (g r) (\<lambda>v r. (r, Inr (h v)))) d (h x)"
  using yields_read_then [OF assms yields_return] by simp

section \<open>The interface\<close>

locale rdb_codec =
  fixes put :: "'a \<Rightarrow> rdb_writer \<Rightarrow> rdb_writer \<times> status"
    and get :: "rdb_reader \<Rightarrow> 'a read_outcome"
    and bytes :: "'a \<Rightarrow> string"
    and ok :: "'a \<Rightarrow> bool"
  assumes put_emits: "emits (put x) (bytes x)"
    and get_yields: "ok x \<Longrightarrow> yields get (bytes x) x"
begin

lemma round_trip:
  assumes "ok x" "no_errors (w_script w)" "progresses (r_script r)"
    and "r_file r = drop (length (w_file w)) (w_file (fst (put x w))) @ rest"
  shows "snd (put x w) = success \<and> (\<exists>r'. get r = (r', Inr x) \<and> r_file r' = rest)"
proof -
  obtain w' where w': "put x w = (w', success)" "wrote w (bytes x) w'"
    using emits_total [OF put_emits assms(2)] by blast
  then have "r_file r = bytes x @ rest" using assms(4) by (simp add: wrote_def)
  from get_yields [OF assms(1)] assms(3) this
  obtain r' where "get r = (r', Inr x)" "r_file r' = rest" by (rule yieldsD)
  then show ?thesis using w' by simp
qed

text \<open>Encodings cannot be confused, whatever follows them.\<close>

lemma prefix_free:
  assumes "ok x" "ok y" "bytes x @ a = bytes y @ b"
  shows "x = y \<and> a = b"
proof -
  let ?r = "reader_new [] (bytes x @ a)"
  have p: "progresses (r_script ?r)" by (simp add: reader_new_def)
  have f: "r_file ?r = bytes x @ a" "r_file ?r = bytes y @ b" using assms(3) by (simp_all add: reader_new_def)
  from get_yields [OF assms(1)] p f(1) obtain r1 where r1: "get ?r = (r1, Inr x)" "r_file r1 = a" by (rule yieldsD)
  from get_yields [OF assms(2)] p f(2) obtain r2 where r2: "get ?r = (r2, Inr y)" "r_file r2 = b" by (rule yieldsD)
  show ?thesis using r1 r2 by simp
qed

end

section \<open>Numbers\<close>

lemma length_le_bytes [simp]: "length (le_bytes k n) = k"
  by (induction k arbitrary: n) simp_all

lemma le_value_le_bytes: "le_value (le_bytes k n) = n mod 256 ^ k"
proof (induction k arbitrary: n)
  case (Suc k)
  have "n mod 256 + 256 * (n div 256 mod 256 ^ k) = n mod (256 * 256 ^ k)"
    by (simp add: mod_mult2_eq)
  then show ?case using Suc by simp
qed simp

lemma le_value_unat:
  "word_of_nat (le_value (le_bytes 1 (unat v))) = (v :: u8)"
  "word_of_nat (le_value (le_bytes 2 (unat v2))) = (v2 :: u16)"
  "word_of_nat (le_value (le_bytes 4 (unat v4))) = (v4 :: u32)"
  "word_of_nat (le_value (le_bytes 8 (unat v8))) = (v8 :: u64)"
proof -
  have "unat v < 2 ^ LENGTH(8)" "unat v2 < 2 ^ LENGTH(16)" "unat v4 < 2 ^ LENGTH(32)" "unat v8 < 2 ^ LENGTH(64)"
    by (rule unsigned_less)+
  then show "word_of_nat (le_value (le_bytes 1 (unat v))) = v" "word_of_nat (le_value (le_bytes 2 (unat v2))) = v2"
    "word_of_nat (le_value (le_bytes 4 (unat v4))) = v4" "word_of_nat (le_value (le_bytes 8 (unat v8))) = v8"
    unfolding le_value_le_bytes by simp_all
qed

lemma sint_of_int_i64: "in_i64 x \<Longrightarrow> sint (word_of_int x :: u64) = x"
  by (simp add: sint_sbintrunc' signed_take_bit_int_eq_self in_i64_alt)

interpretation u8: rdb_codec write_u8 read_u8 "\<lambda>v. le_bytes 1 (unat v)" "\<lambda>_. True"
  by unfold_locales
    (simp_all only: write_u8_def [abs_def] read_u8_def [abs_def] emits_write_bytes,
     metis yields_map yields_read_bytes le_value_unat(1) length_le_bytes)

interpretation u16: rdb_codec write_u16 read_u16 "\<lambda>v. le_bytes 2 (unat v)" "\<lambda>_. True"
  by unfold_locales
    (simp_all only: write_u16_def [abs_def] read_u16_def [abs_def] emits_write_bytes,
     metis yields_map yields_read_bytes le_value_unat(2) length_le_bytes)

interpretation u32: rdb_codec write_u32 read_u32 "\<lambda>v. le_bytes 4 (unat v)" "\<lambda>_. True"
  by unfold_locales
    (simp_all only: write_u32_def [abs_def] read_u32_def [abs_def] emits_write_bytes,
     metis yields_map yields_read_bytes le_value_unat(3) length_le_bytes)

definition i64_bytes :: "i64 \<Rightarrow> string" where
  "i64_bytes v = le_bytes 8 (unat (word_of_int v :: u64))"

interpretation i64: rdb_codec write_i64 read_i64 i64_bytes in_i64
proof unfold_locales
  show "emits (write_i64 x) (i64_bytes x)" for x
    by (simp add: write_i64_def i64_bytes_def emits_write_bytes)
  show "yields read_i64 (i64_bytes x) x" if "in_i64 x" for x
    using yields_map [OF yields_read_bytes [of "i64_bytes x"], of "\<lambda>bs. sint (word_of_nat (le_value bs) :: u64)"]
      sint_of_int_i64 [OF that] le_value_unat(4) [of "word_of_int x"]
    by (simp add: read_i64_def [abs_def] i64_bytes_def)
qed

section \<open>Strings\<close>

text \<open>The length prefix: 6 bits in one byte, 14 bits in two, 32 bits in five.\<close>

definition string_prefix :: "nat \<Rightarrow> string" where
  "string_prefix len =
     (if len < 64 then le_bytes 1 (unat (word_of_nat len :: u8))
      else if len < 16384 then
        le_bytes 1 (unat (word_of_nat (0x80 OR drop_bit 8 len) :: u8)) @
        le_bytes 1 (unat (word_of_nat (len AND 0xFF) :: u8))
      else le_bytes 1 (unat (0xC0 :: u8)) @ le_bytes 4 (unat (word_of_nat len :: u32)))"

definition string_bytes :: "string \<Rightarrow> string" where
  "string_bytes s = string_prefix (length s) @ s"

lemma emits_write_string: "emits (write_string s) (string_bytes s)"
proof -
  let ?prefix = "\<lambda>w. if length s < 64 then write_u8 (word_of_nat (length s)) w
    else if length s < 16384 then
      and_then (write_u8 (word_of_nat (0x80 OR drop_bit 8 (length s))) w)
        (write_u8 (word_of_nat (length s AND 0xFF)))
    else and_then (write_u8 0xC0 w) (write_u32 (word_of_nat (length s)))"
  have "emits ?prefix (string_prefix (length s))"
    unfolding string_prefix_def
    by (cases "length s < 64"; cases "length s < 16384")
      (simp_all only: if_True if_False u8.put_emits emits_and_then u32.put_emits)
  from emits_and_then [OF this emits_write_bytes] show ?thesis
    by (simp only: string_bytes_def write_string_def [abs_def] Let_def)
qed

lemma six_bits:
  assumes "n < 64"
  shows "word_of_nat n AND 0xC0 = (0 :: u8)" "unat (word_of_nat n AND 0x3F :: u8) = n"
    "word_of_nat (0x80 OR n) AND 0xC0 = (0x80 :: u8)" "unat (word_of_nat (0x80 OR n) AND 0x3F :: u8) = n"
proof -
  have "\<forall>n\<in>set [0..<64]. word_of_nat n AND 0xC0 = (0 :: u8) \<and> unat (word_of_nat n AND 0x3F :: u8) = n \<and>
      word_of_nat (0x80 OR n) AND 0xC0 = (0x80 :: u8) \<and> unat (word_of_nat (0x80 OR n) AND 0x3F :: u8) = n"
    by code_simp
  then show "word_of_nat n AND 0xC0 = (0 :: u8)" "unat (word_of_nat n AND 0x3F :: u8) = n"
    "word_of_nat (0x80 OR n) AND 0xC0 = (0x80 :: u8)" "unat (word_of_nat (0x80 OR n) AND 0x3F :: u8) = n"
    using assms by simp_all
qed

lemma two_bytes: "push_bit 8 (drop_bit 8 n) OR unat (word_of_nat (n AND 0xFF) :: u8) = (n :: nat)"
proof -
  have ff: "n AND 0xFF = take_bit 8 n" by (simp add: take_bit_eq_mask mask_eq_exp_minus_1)
  have "unat (word_of_nat (n AND 0xFF) :: u8) = take_bit 8 n"
    unfolding ff by (simp add: unsigned_of_nat)
  then show ?thesis by (simp only:) (rule bit_eqI, auto simp: bit_simps)
qed

lemma unat_of_nat_u32: "n < 2 ^ 32 \<Longrightarrow> unat (word_of_nat n :: u32) = n"
  by (simp add: unsigned_of_nat take_bit_nat_eq_self)

lemma yields_read_string:
  assumes "length s < 2 ^ 32"
  shows "yields read_string (string_bytes s) s"
proof -
  let ?n = "length s"
  let ?body = "\<lambda>(first :: u8) r. if first AND 0xC0 = 0 then read_bytes (unat (first AND 0x3F)) r
       else if first AND 0xC0 = 0x80 then
         read_then (read_u8 r) (\<lambda>second r. read_bytes (push_bit 8 (unat (first AND 0x3F)) OR unat second) r)
       else if first AND 0xC0 = 0xC0 then
         read_then (read_u32 r) (\<lambda>len32 r. read_bytes (unat len32) r)
       else (r, Inl (proto_error ''Unknown RDB string length encoding''))"
  have unfold: "read_string = (\<lambda>r. read_then (read_u8 r) ?body)" by (rule ext) (simp add: read_string_def)
  note u8y = u8.get_yields [OF TrueI] and u32y = u32.get_yields [OF TrueI]
  consider "?n < 64" | "\<not> ?n < 64" "?n < 16384" | "\<not> ?n < 64" "\<not> ?n < 16384" by linarith
  then show ?thesis
  proof cases
    case 1
    have "yields (?body (word_of_nat ?n)) s s" using six_bits [OF 1] yields_read_bytes [of s] by simp
    from yields_read_then [where f = ?body, OF u8y this] show ?thesis
      using 1 unfolding unfold by (simp add: string_bytes_def string_prefix_def)
  next
    case 2
    let ?hi = "drop_bit 8 ?n"
    have hi: "?hi < 64" using 2(2) by (simp add: drop_bit_eq_div)
    have "yields (\<lambda>r. read_bytes (push_bit 8 ?hi OR unat (word_of_nat (?n AND 0xFF) :: u8)) r) s s"
      unfolding two_bytes by (rule yields_read_bytes)
    from yields_read_then [where f = "\<lambda>second r. read_bytes (push_bit 8 ?hi OR unat second) r", OF u8y this]
    have "yields (?body (word_of_nat (0x80 OR ?hi))) (le_bytes 1 (unat (word_of_nat (?n AND 0xFF) :: u8)) @ s) s"
      using six_bits(3,4) [OF hi] by simp
    from yields_read_then [where f = ?body, OF u8y this] show ?thesis
      using 2 unfolding unfold by (simp add: string_bytes_def string_prefix_def)
  next
    case 3
    have "yields (\<lambda>r. read_bytes (unat (word_of_nat ?n :: u32)) r) s s"
      unfolding unat_of_nat_u32 [OF assms] by (rule yields_read_bytes)
    from yields_read_then [where f = "\<lambda>len32 r. read_bytes (unat len32) r", OF u32y this]
    have "yields (?body 0xC0) (le_bytes 4 (unat (word_of_nat ?n :: u32)) @ s) s" by simp
    from yields_read_then [where f = ?body, OF u8y this] show ?thesis
      using 3 unfolding unfold by (simp add: string_bytes_def string_prefix_def)
  qed
qed

interpretation str: rdb_codec write_string read_string string_bytes "\<lambda>s. length s < 2 ^ 32"
  by unfold_locales (rule emits_write_string, erule yields_read_string)

end
