(* ===== verification/Object.thy ===== *)
theory Object
  imports Buffer
begin

text \<open>
  \<^verbatim>\<open>KevaObject\<close> (\<^verbatim>\<open>src/core/object.cpp\<close>, \<^verbatim>\<open>include/keva/core/object.hpp\<close>): the packed metadata
  word, the three string encodings, the accessors and the LRU clock. The payload pointer is a
  datatype: the integer stored in the pointer slot, or the buffer it points to. The field
  \<open>blocks\<close> records the heap blocks that the object was built from; it observes the run and has
  no counterpart in the struct.
\<close>

section \<open>State\<close>

datatype object_type = ObjString | ObjList | ObjSet | ObjZSet | ObjHash

datatype object_encoding = EncRaw | EncInt | EncEmbstr

fun type_code :: "object_type \<Rightarrow> u32" where
  "type_code ObjString = 0"
| "type_code ObjList = 1"
| "type_code ObjSet = 2"
| "type_code ObjZSet = 3"
| "type_code ObjHash = 4"

fun enc_code :: "object_encoding \<Rightarrow> u32" where
  "enc_code EncRaw = 0"
| "enc_code EncInt = 1"
| "enc_code EncEmbstr = 2"

datatype payload = PInt i64 | PBuf buffer

text \<open>\<^verbatim>\<open>new KevaObject\<close>, \<^verbatim>\<open>new Buffer\<close>, and the \<^verbatim>\<open>new char[]\<close> that holds both.\<close>

datatype heap_block = ObjectBlock | BufferBlock | CharBlock

record keva_object =
  meta :: u32
  refcount :: u32
  payload :: payload
  blocks :: "heap_block list"

definition obj_type :: "keva_object \<Rightarrow> u32" where
  "obj_type ob = meta ob AND 0xF"

definition obj_encoding :: "keva_object \<Rightarrow> u32" where
  "obj_encoding ob = drop_bit 4 (meta ob) AND 0xF"

definition obj_lru :: "keva_object \<Rightarrow> u32" where
  "obj_lru ob = drop_bit 8 (meta ob) AND 0xFFFFFF"

definition set_type :: "object_type \<Rightarrow> keva_object \<Rightarrow> keva_object" where
  "set_type t ob = ob\<lparr>meta := (meta ob AND NOT 0xF) OR (type_code t AND 0xF)\<rparr>"

definition set_encoding :: "object_encoding \<Rightarrow> keva_object \<Rightarrow> keva_object" where
  "set_encoding e ob = ob\<lparr>meta := (meta ob AND NOT 0xF0) OR push_bit 4 (enc_code e AND 0xF)\<rparr>"

definition set_lru :: "u32 \<Rightarrow> keva_object \<Rightarrow> keva_object" where
  "set_lru lru_val ob = ob\<lparr>meta := (meta ob AND 0xFF) OR push_bit 8 (lru_val AND 0xFFFFFF)\<rparr>"

definition touch :: "u32 \<Rightarrow> keva_object \<Rightarrow> keva_object" where
  "touch lru_clock ob = set_lru lru_clock ob"

section \<open>The LRU clock\<close>

text \<open>The reading of \<^verbatim>\<open>time(nullptr)\<close> is an argument.\<close>

definition lru_clock_current :: "i64 \<Rightarrow> u32" where
  "lru_clock_current unix_time = word_of_int unix_time AND LRU_CLOCK_MAX"

definition idle_seconds :: "i64 \<Rightarrow> u32 \<Rightarrow> u32" where
  "idle_seconds unix_time lru_of_obj =
     (let now = lru_clock_current unix_time
      in if lru_of_obj \<le> now then now - lru_of_obj else (LRU_CLOCK_MAX - lru_of_obj) + now)"

section \<open>Factories, accessors, destructor\<close>

definition null_object :: "heap_block list \<Rightarrow> keva_object" where
  "null_object bs = \<lparr>meta = 0, refcount = 1, payload = PInt 0, blocks = bs\<rparr>"

definition alloc_object :: "object_type \<Rightarrow> object_encoding \<Rightarrow> u32 \<Rightarrow> keva_object" where
  "alloc_object t enc lru_clock_val =
     (set_lru lru_clock_val (set_encoding enc (set_type t (null_object [ObjectBlock]))))\<lparr>refcount := 1\<rparr>"

definition create_string :: "string \<Rightarrow> u32 \<Rightarrow> keva_object" where
  "create_string sv lru_clock_val =
     (case try_parse_int (buf_of_sv sv) of
        Some int_val \<Rightarrow> (alloc_object ObjString EncInt lru_clock_val)\<lparr>payload := PInt int_val\<rparr>
      | None \<Rightarrow>
          if length sv \<le> EMBSTR_MAX_LEN
          then (set_lru lru_clock_val
                 (set_encoding EncEmbstr (set_type ObjString (null_object [CharBlock]))))
                 \<lparr>refcount := 1, payload := PBuf (buf_of_sv sv)\<rparr>
          else (alloc_object ObjString EncRaw lru_clock_val)
                 \<lparr>payload := PBuf (buf_of_sv sv), blocks := [ObjectBlock, BufferBlock]\<rparr>)"

definition create_string_from_int :: "i64 \<Rightarrow> u32 \<Rightarrow> keva_object" where
  "create_string_from_int v lru_clock_val =
     (alloc_object ObjString EncInt lru_clock_val)\<lparr>payload := PInt v\<rparr>"

text \<open>
  Reading the payload with the wrong encoding reinterprets a pointer: \<open>None\<close>. The encodings
  outside the enumeration fall through to the empty view.
\<close>

definition obj_buffer :: "keva_object \<Rightarrow> buffer option" where
  "obj_buffer ob = (case payload ob of PBuf b \<Rightarrow> Some b | PInt _ \<Rightarrow> None)"

definition integer_value :: "keva_object \<Rightarrow> i64 option" where
  "integer_value ob = (case payload ob of PInt i \<Rightarrow> Some i | PBuf _ \<Rightarrow> None)"

definition obj_string_view :: "keva_object \<Rightarrow> string option" where
  "obj_string_view ob =
     (if obj_encoding ob = enc_code EncRaw \<or> obj_encoding ob = enc_code EncEmbstr
      then map_option buf_view (obj_buffer ob) else Some [])"

text \<open>The blocks that \<^verbatim>\<open>destroy\<close> returns to the heap, each with the matching operator.\<close>

definition obj_destroy :: "keva_object \<Rightarrow> heap_block list" where
  "obj_destroy ob =
     (if obj_encoding ob = enc_code EncInt then [ObjectBlock]
      else if obj_encoding ob = enc_code EncEmbstr then [CharBlock]
      else if obj_encoding ob = enc_code EncRaw then [BufferBlock, ObjectBlock]
      else [])"

section \<open>The packed fields do not disturb each other\<close>

lemma u32_eqI: "(\<And>n. n < 32 \<Longrightarrow> bit (x :: u32) n = bit y n) \<Longrightarrow> x = y"
  by (rule bit_word_eqI) simp

lemma masks_u32:
  "(0xF :: u32) = mask 4" "(0xF0 :: u32) = push_bit 4 (mask 4)" "(0xFF :: u32) = mask 8"
  "(0xFFFFFF :: u32) = mask 24"
  by (simp_all add: mask_eq_exp_minus_1)

lemmas field_defs = obj_type_def obj_encoding_def obj_lru_def set_type_def set_encoding_def set_lru_def

lemma obj_lru_set_lru [simp]: "obj_lru (set_lru x ob) = x AND 0xFFFFFF"
  and obj_lru_set_type [simp]: "obj_lru (set_type t ob) = obj_lru ob"
  and obj_lru_set_encoding [simp]: "obj_lru (set_encoding e ob) = obj_lru ob"
  and obj_type_set_lru [simp]: "obj_type (set_lru x ob) = obj_type ob"
  and obj_type_set_encoding [simp]: "obj_type (set_encoding e ob) = obj_type ob"
  and obj_encoding_set_lru [simp]: "obj_encoding (set_lru x ob) = obj_encoding ob"
  and obj_encoding_set_type [simp]: "obj_encoding (set_type t ob) = obj_encoding ob"
  unfolding field_defs masks_u32
  by (rule u32_eqI; auto simp: bit_simps)+

lemma type_code_low: "type_code t AND 0xF = type_code t"
  by (cases t) simp_all

lemma enc_code_low: "enc_code e AND 0xF = enc_code e"
  by (cases e) simp_all

lemma obj_type_set_type [simp]: "obj_type (set_type t ob) = type_code t"
proof -
  have "obj_type (set_type t ob) = type_code t AND 0xF"
    unfolding field_defs masks_u32 by (rule u32_eqI) (auto simp: bit_simps)
  then show ?thesis by (simp only: type_code_low)
qed

lemma obj_encoding_set_encoding [simp]: "obj_encoding (set_encoding e ob) = enc_code e"
proof -
  have "obj_encoding (set_encoding e ob) = enc_code e AND 0xF"
    unfolding field_defs masks_u32 by (rule u32_eqI) (auto simp: bit_simps)
  then show ?thesis by (simp only: enc_code_low)
qed

lemma payload_set [simp]:
  "payload (set_lru x ob) = payload ob" "payload (set_encoding e ob) = payload ob"
  "payload (set_type t ob) = payload ob" "blocks (set_lru x ob) = blocks ob"
  "blocks (set_encoding e ob) = blocks ob" "blocks (set_type t ob) = blocks ob"
  "refcount (set_lru x ob) = refcount ob"
  by (simp_all add: field_defs)

lemma fields_frame [simp]:
  "obj_type (ob\<lparr>payload := p\<rparr>) = obj_type ob" "obj_encoding (ob\<lparr>payload := p\<rparr>) = obj_encoding ob"
  "obj_lru (ob\<lparr>payload := p\<rparr>) = obj_lru ob"
  "obj_type (ob\<lparr>refcount := c\<rparr>) = obj_type ob" "obj_encoding (ob\<lparr>refcount := c\<rparr>) = obj_encoding ob"
  "obj_lru (ob\<lparr>refcount := c\<rparr>) = obj_lru ob"
  "obj_type (ob\<lparr>blocks := b\<rparr>) = obj_type ob" "obj_encoding (ob\<lparr>blocks := b\<rparr>) = obj_encoding ob"
  "obj_lru (ob\<lparr>blocks := b\<rparr>) = obj_lru ob"
  by (simp_all add: field_defs)

section \<open>Well-formed string objects and their content\<close>

definition object_wf :: "keva_object \<Rightarrow> bool" where
  "object_wf ob \<longleftrightarrow>
     obj_type ob = type_code ObjString \<and> mset (obj_destroy ob) = mset (blocks ob) \<and>
     (case payload ob of
        PInt i \<Rightarrow> obj_encoding ob = enc_code EncInt \<and> in_i64 i
      | PBuf b \<Rightarrow>
          (obj_encoding ob = enc_code EncRaw \<or> obj_encoding ob = enc_code EncEmbstr) \<and> buf_wf b \<and>
          try_parse_int b = None \<and>
          (obj_encoding ob = enc_code EncEmbstr \<longleftrightarrow> buf_size b \<le> EMBSTR_MAX_LEN))"

text \<open>The bytes the object stands for; every reader of a string object returns them.\<close>

definition content :: "keva_object \<Rightarrow> string" where
  "content ob = (case payload ob of PInt i \<Rightarrow> to_chars i | PBuf b \<Rightarrow> buf_view b)"

definition canonical_int :: "string \<Rightarrow> string" where
  "canonical_int s = (case try_parse_int (buf_of_sv s) of Some i \<Rightarrow> to_chars i | None \<Rightarrow> s)"

lemma object_wf_create_string [simp]: "object_wf (create_string s l)"
proof (cases "try_parse_int (buf_of_sv s)")
  case None
  have "buf_size (buf_of_sv s) = length s" using length_buf_view [OF buf_wf_of_sv, of s] by simp
  then show ?thesis
    using None by (simp add: object_wf_def create_string_def alloc_object_def obj_destroy_def null_object_def)
next
  case (Some i)
  then show ?thesis
    using try_parse_int_range [OF Some]
    by (simp add: object_wf_def create_string_def alloc_object_def obj_destroy_def null_object_def)
qed

lemma object_wf_create_int [simp]: "in_i64 i \<Longrightarrow> object_wf (create_string_from_int i l)"
  by (simp add: object_wf_def create_string_from_int_def alloc_object_def obj_destroy_def null_object_def)

lemma content_create_string [simp]: "content (create_string s l) = canonical_int s"
  by (simp add: content_def canonical_int_def create_string_def split: option.split)

lemma content_create_int [simp]: "content (create_string_from_int i l) = to_chars i"
  by (simp add: content_def create_string_from_int_def)

lemma object_wf_touch [simp]: "object_wf (touch l ob) = object_wf ob"
  and content_touch [simp]: "content (touch l ob) = content ob"
  and obj_encoding_touch [simp]: "obj_encoding (touch l ob) = obj_encoding ob"
  and payload_touch [simp]: "payload (touch l ob) = payload ob"
  and obj_type_touch [simp]: "obj_type (touch l ob) = obj_type ob"
  by (simp_all add: touch_def object_wf_def content_def obj_destroy_def split: payload.split)

lemma wf_int: "object_wf ob \<Longrightarrow> obj_encoding ob = enc_code EncInt \<longleftrightarrow> (\<exists>i. payload ob = PInt i)"
  by (auto simp: object_wf_def split: payload.splits)

lemma wf_type: "object_wf ob \<Longrightarrow> obj_type ob = type_code ObjString"
  by (simp add: object_wf_def)

lemma wf_content_int:
  "object_wf ob \<Longrightarrow> obj_encoding ob = enc_code EncInt \<Longrightarrow> content ob = to_chars (the (integer_value ob))"
  by (auto simp: object_wf_def content_def integer_value_def split: payload.splits)

lemma wf_content_view:
  "object_wf ob \<Longrightarrow> obj_encoding ob \<noteq> enc_code EncInt \<Longrightarrow> obj_string_view ob = Some (content ob)"
  by (auto simp: object_wf_def content_def obj_string_view_def obj_buffer_def split: payload.splits)

text \<open>
  An integer is stored as such exactly when the content has the shape that \<open>try_parse_int\<close>
  accepts, and rebuilding a string object from its content gives an object with that content.
\<close>

lemma option_eq_from_Some: "(\<And>v. x = Some v \<longleftrightarrow> y = Some v) \<Longrightarrow> x = y"
  by (cases x; cases y) auto

lemma try_parse_content:
  assumes "object_wf ob"
  shows "try_parse_int (buf_of_sv (content ob)) = integer_value ob"
proof (cases "payload ob")
  case (PInt i)
  then show ?thesis using assms by (simp add: object_wf_def content_def integer_value_def)
next
  case (PBuf b)
  then have b: "buf_wf b" "try_parse_int b = None" using assms by (auto simp: object_wf_def)
  have "try_parse_int (buf_of_sv (buf_view b)) = try_parse_int b"
  proof (rule option_eq_from_Some)
    fix v
    show "try_parse_int (buf_of_sv (buf_view b)) = Some v \<longleftrightarrow> try_parse_int b = Some v"
      by (simp only: try_parse_int_iff [OF b(1)] try_parse_int_iff [OF buf_wf_of_sv] buf_view_of_sv)
  qed
  then show ?thesis using PBuf b by (simp add: content_def integer_value_def)
qed

lemma canonical_content [simp]: "object_wf ob \<Longrightarrow> canonical_int (content ob) = content ob"
  using try_parse_content [of ob]
  by (auto simp: canonical_int_def content_def integer_value_def split: payload.splits)

lemma canonical_int_idem [simp]: "canonical_int (canonical_int s) = canonical_int s"
  using canonical_content [OF object_wf_create_string, of s 0] by simp

lemma canonical_int_to_chars [simp]: "in_i64 i \<Longrightarrow> canonical_int (to_chars i) = to_chars i"
  by (simp add: canonical_int_def)

lemma canonical_int_nonint: "try_parse_int (buf_of_sv s) = None \<Longrightarrow> canonical_int s = s"
  by (simp add: canonical_int_def)

lemma length_canonical_int: "length (canonical_int s) \<le> max (length s) 20"
  using try_parse_int_range [of "buf_of_sv s"] length_to_chars
  by (auto simp: canonical_int_def split: option.splits) (metis le_max_iff_disj)

section \<open>What the LRU clock can read\<close>

text \<open>
  \<^verbatim>\<open>LRU_CLOCK_MAX\<close> is the modulus 2 to the 24, used as a mask: one bit of the clock survives,
  and it lies just above the 24 bits that \<^verbatim>\<open>set_lru\<close> keeps.
\<close>

lemma bit_LRU_CLOCK_MAX: "bit LRU_CLOCK_MAX n \<longleftrightarrow> n = 24"
  unfolding LRU_CLOCK_MAX_def bit_push_bit_iff bit_1_iff by auto

lemma lru_clock_values: "lru_clock_current t = 0 \<or> lru_clock_current t = LRU_CLOCK_MAX"
proof -
  have "lru_clock_current t = (if bit (word_of_int t :: u32) 24 then LRU_CLOCK_MAX else 0)"
    unfolding lru_clock_current_def
    by (rule u32_eqI) (auto simp: bit_and_iff bit_LRU_CLOCK_MAX)
  then show ?thesis by simp
qed

lemma lru_clock_stored: "lru_clock_current t AND 0xFFFFFF = 0"
  unfolding lru_clock_current_def masks_u32
  by (rule u32_eqI) (auto simp: bit_simps bit_LRU_CLOCK_MAX)

section \<open>Properties\<close>

text \<open>The three fields packed into the metadata word are independent: writing one field makes
  its reader return the written value (the LRU value cut to 24 bits) and leaves the other two
  readers, the payload and the reference count as they were.\<close>

lemma metadata_fields_independent:
  "obj_type (set_type t ob) = type_code t \<and> obj_encoding (set_type t ob) = obj_encoding ob \<and>
   obj_lru (set_type t ob) = obj_lru ob \<and>
   obj_encoding (set_encoding e ob) = enc_code e \<and> obj_type (set_encoding e ob) = obj_type ob \<and>
   obj_lru (set_encoding e ob) = obj_lru ob \<and>
   obj_lru (touch l ob) = l AND 0xFFFFFF \<and> obj_type (touch l ob) = obj_type ob \<and>
   obj_encoding (touch l ob) = obj_encoding ob \<and>
   payload (touch l ob) = payload ob \<and> refcount (touch l ob) = refcount ob"
  by (simp add: touch_def)


text \<open>C34. The LRU clock carries no time: because the modulus 2 to the 24 is applied as a mask,
  every access stores the value zero, and the idle time computed for a touched object is zero or
  the constant \<^verbatim>\<open>LRU_CLOCK_MAX\<close>, whatever the time of the access and of the query.\<close>

theorem lru_clock_is_stuck:
  "obj_lru (touch (lru_clock_current t) ob) = 0 \<and>
   idle_seconds t' (obj_lru (touch (lru_clock_current t) ob)) \<in> {0, LRU_CLOCK_MAX}"
  using lru_clock_values [of t'] by (auto simp: touch_def lru_clock_stored idle_seconds_def Let_def)

text \<open>The integer encoding is lossy: a value that parses as an integer but is not written
  canonically is stored, and read back, as a different byte string.\<close>

lemma create_string_drops_leading_zeros:
  "content (create_string ''007'' l) = ''7'' \<and> content (create_string ''-0'' l) = ''0''"
  by (simp add: canonical_int_def) code_simp

end
