(* ===== verification/Database.thy ===== *)
theory Database
  imports DictIndex Object
begin

text \<open>
  \<^verbatim>\<open>KevaDatabase\<close> (\<^verbatim>\<open>src/core/db.cpp\<close>): the key space and the expiry dictionary, lazy and active
  expiry, iteration. Clock readings are arguments: \<open>now\<close> is the result of
  \<^verbatim>\<open>now_milliseconds()\<close> and \<open>secs\<close> that of \<^verbatim>\<open>time(nullptr)\<close> in \<^verbatim>\<open>lru_clock::current()\<close>.
  The two overloads of \<^verbatim>\<open>Dict::get\<close> are told apart: only the non-const one advances a rehash.
\<close>

section \<open>State and operations\<close>

record keva_db =
  db_id :: int
  keys :: "keva_object dict"
  expires :: "i64 dict"

definition db_new :: "int \<Rightarrow> keva_db" where
  "db_new n = \<lparr>db_id = n, keys = dict_new True, expires = dict_new True\<rparr>"

definition delete_key :: "keva_db \<Rightarrow> string \<Rightarrow> keva_db" where
  "delete_key db key =
     db\<lparr>keys := fst (dict_del (keys db) key), expires := fst (dict_del (expires db) key)\<rparr>"

definition is_expired :: "keva_db \<Rightarrow> string \<Rightarrow> i64 \<Rightarrow> bool" where
  "is_expired db key now_ms =
     (case dict_get_const (expires db) key of None \<Rightarrow> False | Some ts \<Rightarrow> ts \<le> now_ms)"

definition db_get :: "keva_db \<Rightarrow> string \<Rightarrow> i64 \<Rightarrow> i64 \<Rightarrow> keva_db \<times> keva_object option" where
  "db_get db key now secs =
     (case dict_get (keys db) key of
        (ks, None) \<Rightarrow> (db\<lparr>keys := ks\<rparr>, None)
      | (ks, Some ob) \<Rightarrow>
          let db = db\<lparr>keys := ks\<rparr>
          in if is_expired db key now then (delete_key db key, None)
             else let ob = touch (lru_clock_current secs) ob
                  in (db\<lparr>keys := dict_poke ks key ob\<rparr>, Some ob))"

definition db_peek :: "keva_db \<Rightarrow> string \<Rightarrow> i64 \<Rightarrow> keva_db \<times> keva_object option" where
  "db_peek db key now =
     (case dict_get (keys db) key of
        (ks, None) \<Rightarrow> (db\<lparr>keys := ks\<rparr>, None)
      | (ks, Some ob) \<Rightarrow>
          let db = db\<lparr>keys := ks\<rparr>
          in if is_expired db key now then (db, None) else (db, Some ob))"

definition db_set :: "keva_db \<Rightarrow> string \<Rightarrow> keva_object \<Rightarrow> keva_db" where
  "db_set db key ob =
     (let db = db\<lparr>expires := fst (dict_del (expires db) key)\<rparr>
      in db\<lparr>keys := fst (dict_set (keys db) key (Some ob))\<rparr>)"

definition db_del :: "keva_db \<Rightarrow> string \<Rightarrow> keva_db \<times> bool" where
  "db_del db key = (let existed = dict_exists (keys db) key in (delete_key db key, existed))"

definition db_exists :: "keva_db \<Rightarrow> string \<Rightarrow> i64 \<Rightarrow> i64 \<Rightarrow> keva_db \<times> bool" where
  "db_exists db key now secs = (case db_get db key now secs of (db, r) \<Rightarrow> (db, r \<noteq> None))"

definition dbsize :: "keva_db \<Rightarrow> usize" where
  "dbsize db = dict_size (keys db)"

definition set_expire :: "keva_db \<Rightarrow> string \<Rightarrow> i64 \<Rightarrow> keva_db" where
  "set_expire db key expire_ms =
     (case dict_get (expires db) key of
        (es, Some _) \<Rightarrow> db\<lparr>expires := dict_poke es key expire_ms\<rparr>
      | (es, None) \<Rightarrow> db\<lparr>expires := fst (dict_set es key (Some expire_ms))\<rparr>)"

definition remove_expire :: "keva_db \<Rightarrow> string \<Rightarrow> keva_db" where
  "remove_expire db key = db\<lparr>expires := fst (dict_del (expires db) key)\<rparr>"

definition db_pttl :: "keva_db \<Rightarrow> string \<Rightarrow> i64 \<Rightarrow> keva_db \<times> i64" where
  "db_pttl db key now =
     (if \<not> dict_exists (keys db) key then (db, - 2)
      else case dict_get (expires db) key of
             (es, None) \<Rightarrow> (db\<lparr>expires := es\<rparr>, - 1)
           | (es, Some ts) \<Rightarrow>
               let remaining = wrap_i64 (ts - now)
               in (db\<lparr>expires := es\<rparr>, if 0 < remaining then remaining else 0))"

text \<open>
  One turn of the loop of \<^verbatim>\<open>active_expire_cycle\<close>: the sample, the keys to delete, and the
  deletions, in order. The sampled entries are read before any of them is deleted.
\<close>

definition expired_keys_of :: "i64 \<Rightarrow> i64 dict_entry list \<Rightarrow> string list" where
  "expired_keys_of now sampled =
     map ekview (filter (\<lambda>e. case evalue e of None \<Rightarrow> False | Some ts \<Rightarrow> ts \<le> now) sampled)"

fun expire_cycles :: "(u64 \<times> u64) list \<Rightarrow> i64 \<Rightarrow> keva_db \<Rightarrow> usize \<Rightarrow> keva_db \<times> usize" where
  "expire_cycles [] now db total_deleted = (db, total_deleted)"
| "expire_cycles ((draw1, draw2) # draws) now db total_deleted =
     (let sampled = random_sample (expires db) ACTIVE_EXPIRE_SAMPLE_SIZE draw1 draw2;
          n = length sampled
      in if n = 0 then (db, total_deleted)
         else
           let expired = expired_keys_of now sampled;
               db = foldl delete_key db expired;
               deleted_this_round = length expired;
               total_deleted = total_deleted + deleted_this_round
           in if deleted_this_round * 4 < n then (db, total_deleted) else expire_cycles draws now db total_deleted)"

text \<open>\<^verbatim>\<open>MAX_CYCLES\<close> is 3; the draws of the three possible turns are arguments.\<close>

definition active_expire_cycle ::
    "(u64 \<times> u64) \<times> (u64 \<times> u64) \<times> (u64 \<times> u64) \<Rightarrow> i64 \<Rightarrow> keva_db \<Rightarrow> keva_db \<times> usize" where
  "active_expire_cycle draws now db =
     (if dict_size (expires db) = 0 then (db, 0)
      else case draws of (d1, d2, d3) \<Rightarrow> expire_cycles [d1, d2, d3] now db 0)"

text \<open>The stub: every call succeeds and changes nothing.\<close>

definition evict_if_needed :: "usize \<Rightarrow> keva_db \<Rightarrow> keva_db \<times> bool" where
  "evict_if_needed maxmemory db = (db, True)"

definition db_rehash_step :: "keva_db \<Rightarrow> keva_db" where
  "db_rehash_step db = db\<lparr>keys := dict_step 100 (keys db), expires := dict_step 100 (expires db)\<rparr>"

definition db_for_each :: "keva_db \<Rightarrow> i64 \<Rightarrow> (string \<times> keva_object option) list" where
  "db_for_each db now =
     filter (\<lambda>(key, val). \<not> (case dict_get_const (expires db) key of None \<Rightarrow> False | Some ts \<Rightarrow> ts \<le> now))
       (dict_for_each (keys db))"

definition db_flush :: "keva_db \<Rightarrow> keva_db" where
  "db_flush db = db\<lparr>keys := dict_clear (keys db), expires := dict_clear (expires db)\<rparr>"

section \<open>The invariant and the abstract database\<close>

definition db_inv :: "keva_db \<Rightarrow> bool" where
  "db_inv db \<longleftrightarrow>
     dict_ok (keys db) \<and> dict_ok (expires db) \<and> dom (dict_abs (expires db)) \<subseteq> dom (dict_abs (keys db)) \<and>
     (\<forall>ob \<in> ran (dict_abs (keys db)). object_wf ob) \<and> (\<forall>ts \<in> ran (dict_abs (expires db)). in_i64 ts)"

text \<open>The database at the level of the protocol: byte strings and deadlines.\<close>

definition vals :: "keva_db \<Rightarrow> string \<rightharpoonup> string" where
  "vals db k = map_option content (dict_abs (keys db) k)"

definition ttls :: "keva_db \<Rightarrow> string \<rightharpoonup> i64" where
  "ttls db = dict_abs (expires db)"

definition dead :: "keva_db \<Rightarrow> i64 \<Rightarrow> string \<Rightarrow> bool" where
  "dead db now k \<longleftrightarrow> (case ttls db k of None \<Rightarrow> False | Some ts \<Rightarrow> ts \<le> now)"

text \<open>What a client sees at time \<open>now\<close>.\<close>

definition live :: "keva_db \<Rightarrow> i64 \<Rightarrow> string \<rightharpoonup> string" where
  "live db now k = (if dead db now k then None else vals db k)"

named_theorems db_facts \<open>effect of the operations on values and deadlines\<close>

lemma db_invD:
  assumes "db_inv db"
  shows "dict_ok (keys db)" "dict_ok (expires db)"
    "dict_abs (expires db) k \<noteq> None \<Longrightarrow> dict_abs (keys db) k \<noteq> None"
    "dict_abs (keys db) k = Some ob \<Longrightarrow> object_wf ob"
    "dict_abs (expires db) k = Some ts \<Longrightarrow> in_i64 ts"
  using assms by (auto simp: db_inv_def ran_def)

lemma db_invI:
  assumes "dict_ok (keys db)" "dict_ok (expires db)"
    "\<And>k. dict_abs (expires db) k \<noteq> None \<Longrightarrow> dict_abs (keys db) k \<noteq> None"
    "\<And>k ob. dict_abs (keys db) k = Some ob \<Longrightarrow> object_wf ob"
    "\<And>k ts. dict_abs (expires db) k = Some ts \<Longrightarrow> in_i64 ts"
  shows "db_inv db"
  using assms by (auto simp: db_inv_def ran_def)

lemmas index_facts = index.set_inv index.set_abs index.get_inv index.get_abs index.get_val index.peek_val
  index.del_inv index.del_abs index.poke_inv index.poke_abs index.step_inv index.step_abs
  index.clear_inv index.clear_abs

lemma is_expired_dead: "db_inv db \<Longrightarrow> is_expired db k now \<longleftrightarrow> dead db now k"
  by (simp add: is_expired_def dead_def ttls_def index.peek_val [OF db_invD(2)])

lemma dict_exists_abs: "dict_ok d \<Longrightarrow> dict_exists d k \<longleftrightarrow> dict_abs d k \<noteq> None"
  by (simp add: dict_exists_def index.peek_val)

subsection \<open>Each operation\<close>

lemma db_new_facts [db_facts]: "db_inv (db_new n)" "vals (db_new n) = Map.empty" "ttls (db_new n) = Map.empty"
  by (auto simp: db_inv_def db_new_def vals_def ttls_def fun_eq_iff)

lemma delete_key_facts [db_facts]:
  assumes "db_inv db"
  shows "db_inv (delete_key db k)" "vals (delete_key db k) = (vals db)(k := None)"
    "ttls (delete_key db k) = (ttls db)(k := None)"
proof -
  note d = db_invD [OF assms]
  show "db_inv (delete_key db k)"
    by (rule db_invI) (use d in \<open>auto simp: delete_key_def index_facts split: if_splits\<close>)
  show "vals (delete_key db k) = (vals db)(k := None)" "ttls (delete_key db k) = (ttls db)(k := None)"
    using d(1,2) by (auto simp: delete_key_def vals_def ttls_def index_facts fun_eq_iff)
qed

lemma db_set_facts [db_facts]:
  assumes "db_inv db" "object_wf ob"
  shows "db_inv (db_set db k ob)" "vals (db_set db k ob) = (vals db)(k \<mapsto> content ob)"
    "ttls (db_set db k ob) = (ttls db)(k := None)"
proof -
  note d = db_invD [OF assms(1)]
  show "db_inv (db_set db k ob)"
    by (rule db_invI) (use d assms(2) in \<open>auto simp: db_set_def Let_def index_facts split: if_splits\<close>)
  show "vals (db_set db k ob) = (vals db)(k \<mapsto> content ob)" "ttls (db_set db k ob) = (ttls db)(k := None)"
    using d(1,2) by (auto simp: db_set_def Let_def vals_def ttls_def index_facts fun_eq_iff)
qed

lemma db_inv_keys:
  assumes "db_inv db" "dict_ok ks" "dict_abs ks = dict_abs (keys db)"
  shows "db_inv (db\<lparr>keys := ks\<rparr>)" "vals (db\<lparr>keys := ks\<rparr>) = vals db" "ttls (db\<lparr>keys := ks\<rparr>) = ttls db"
  using assms by (simp_all add: db_inv_def vals_def [abs_def] ttls_def)

lemma db_inv_expires:
  assumes "db_inv db" "dict_ok es" "dict_abs es = dict_abs (expires db)"
  shows "db_inv (db\<lparr>expires := es\<rparr>)" "vals (db\<lparr>expires := es\<rparr>) = vals db" "ttls (db\<lparr>expires := es\<rparr>) = ttls db"
  using assms by (simp_all add: db_inv_def vals_def [abs_def] ttls_def)

text \<open>The state after a lazy lookup: a dead key is deleted, nothing else changes.\<close>

lemma db_get_facts:
  assumes inv: "db_inv db" and g: "db_get db k now secs = (db', r)"
  shows "db_inv db'"
    and "vals db' = (if dead db now k then (vals db)(k := None) else vals db)"
    and "ttls db' = (if dead db now k then (ttls db)(k := None) else ttls db)"
    and "r = None \<longleftrightarrow> live db now k = None"
    and "r = Some ob \<Longrightarrow> object_wf ob \<and> live db now k = Some (content ob)"
proof -
  note d = db_invD [OF inv]
  obtain ks v where kv: "dict_get (keys db) k = (ks, v)" by fastforce
  have ks: "dict_ok ks" "dict_abs ks = dict_abs (keys db)" "v = dict_abs (keys db) k"
    using index.get_inv [OF d(1), of k] index.get_abs [OF d(1), of k] index.get_val [OF d(1), of k] kv by auto
  note up = db_inv_keys [OF inv ks(1,2)]
  have all: "db_inv db' \<and>
      vals db' = (if dead db now k then (vals db)(k := None) else vals db) \<and>
      ttls db' = (if dead db now k then (ttls db)(k := None) else ttls db) \<and>
      (r = None \<longleftrightarrow> live db now k = None) \<and>
      (\<forall>ob. r = Some ob \<longrightarrow> object_wf ob \<and> live db now k = Some (content ob))"
  proof (cases v)
    case None
    then have "vals db k = None" using ks(3) by (simp add: vals_def)
    moreover have nt: "ttls db k = None" using d(3) [of k] None ks(3) unfolding ttls_def by metis
    moreover have "\<not> dead db now k" by (simp add: dead_def nt)
    ultimately show ?thesis using g kv None up by (auto simp: db_get_def live_def)
  next
    case (Some ob)
    let ?db = "db\<lparr>keys := ks\<rparr>"
    have ex: "is_expired ?db k now \<longleftrightarrow> dead db now k"
      using is_expired_dead [OF up(1)] up(3) by (simp add: dead_def)
    have wf: "object_wf ob" using d(4) [of k] Some ks(3) by auto
    have vk: "vals db k = Some (content ob)" using Some ks(3) [symmetric] by (simp add: vals_def)
    show ?thesis
    proof (cases "dead db now k")
      case True
      then have "db' = delete_key ?db k" "r = None"
        using g kv Some ex by (auto simp: db_get_def Let_def)
      then show ?thesis using True delete_key_facts [OF up(1)] up by (simp add: live_def)
    next
      case False
      let ?ob = "touch (lru_clock_current secs) ob"
      have db': "db' = ?db\<lparr>keys := dict_poke ks k ?ob\<rparr>" and r: "r = Some ?ob"
        using g kv Some ex False by (auto simp: db_get_def Let_def)
      have ne: "dict_abs ks k \<noteq> None" unfolding ks(2) ks(3) [symmetric] using Some by simp
      note pk = index.poke_inv [OF ks(1) ne, of ?ob] index.poke_abs [OF ks(1) ne, of ?ob]
      have "db_inv db'"
        by (rule db_invI) (use d pk ks(2) wf Some in \<open>auto simp: db' split: if_splits\<close>)
      moreover have "vals db' = vals db" "ttls db' = ttls db"
        using pk ks(2) vk by (auto simp: db' vals_def ttls_def fun_eq_iff)
      ultimately show ?thesis using r False wf vk by (simp add: live_def)
    qed
  qed
  then show "db_inv db'"
    and "vals db' = (if dead db now k then (vals db)(k := None) else vals db)"
    and "ttls db' = (if dead db now k then (ttls db)(k := None) else ttls db)"
    and "r = None \<longleftrightarrow> live db now k = None"
    and "r = Some ob \<Longrightarrow> object_wf ob \<and> live db now k = Some (content ob)" by blast+
qed

lemma db_peek_facts:
  assumes inv: "db_inv db" and g: "db_peek db k now = (db', r)"
  shows "db_inv db'" and "vals db' = vals db" and "ttls db' = ttls db"
    and "r = None \<longleftrightarrow> live db now k = None"
    and "r = Some ob \<Longrightarrow> object_wf ob \<and> live db now k = Some (content ob)"
proof -
  note d = db_invD [OF inv]
  obtain ks v where kv: "dict_get (keys db) k = (ks, v)" by fastforce
  have ks: "dict_ok ks" "dict_abs ks = dict_abs (keys db)" "v = dict_abs (keys db) k"
    using index.get_inv [OF d(1), of k] index.get_abs [OF d(1), of k] index.get_val [OF d(1), of k] kv by auto
  note up = db_inv_keys [OF inv ks(1,2)]
  have ex: "is_expired (db\<lparr>keys := ks\<rparr>) k now \<longleftrightarrow> dead db now k"
    using is_expired_dead [OF up(1)] up(3) by (simp add: dead_def)
  have db': "db' = db\<lparr>keys := ks\<rparr>" and r: "r = (if dead db now k then None else v)"
    using g kv ex by (auto simp: db_peek_def Let_def split: option.splits if_splits)
  show "db_inv db'" and "vals db' = vals db" and "ttls db' = ttls db" using up by (simp_all add: db')
  show "r = None \<longleftrightarrow> live db now k = None" using ks(3) by (simp add: r live_def vals_def)
  show "r = Some ob \<Longrightarrow> object_wf ob \<and> live db now k = Some (content ob)"
    using ks(3) [symmetric] d(4) [of k] by (simp add: r live_def vals_def split: if_splits)
qed

lemma db_del_facts [db_facts]:
  assumes "db_inv db"
  shows "db_inv (fst (db_del db k))" "vals (fst (db_del db k)) = (vals db)(k := None)"
    "ttls (fst (db_del db k)) = (ttls db)(k := None)" "snd (db_del db k) \<longleftrightarrow> vals db k \<noteq> None"
  using delete_key_facts [OF assms] dict_exists_abs [OF db_invD(1) [OF assms]]
  by (simp_all add: db_del_def Let_def vals_def)

lemma db_exists_facts:
  assumes "db_inv db" "db_exists db k now secs = (db', b)"
  shows "db_inv db'"
    and "vals db' = (if dead db now k then (vals db)(k := None) else vals db)"
    and "ttls db' = (if dead db now k then (ttls db)(k := None) else ttls db)"
    and "b \<longleftrightarrow> live db now k \<noteq> None"
proof -
  obtain r where g: "db_get db k now secs = (db', r)" and b: "b = (r \<noteq> None)"
    using assms(2) by (auto simp: db_exists_def split: prod.splits)
  show "b \<longleftrightarrow> live db now k \<noteq> None" using db_get_facts(4) [OF assms(1) g] b by simp
  show "db_inv db'"
    and "vals db' = (if dead db now k then (vals db)(k := None) else vals db)"
    and "ttls db' = (if dead db now k then (ttls db)(k := None) else ttls db)"
    using db_get_facts [OF assms(1) g] by blast+
qed

lemma set_expire_facts [db_facts]:
  assumes inv: "db_inv db" and k: "vals db k \<noteq> None" and ts: "in_i64 ts"
  shows "db_inv (set_expire db k ts)" "vals (set_expire db k ts) = vals db"
    "ttls (set_expire db k ts) = (ttls db)(k \<mapsto> ts)"
proof -
  note d = db_invD [OF inv]
  obtain es v where kv: "dict_get (expires db) k = (es, v)" by fastforce
  have es: "dict_ok es" "dict_abs es = dict_abs (expires db)" "v = dict_abs (expires db) k"
    using index.get_inv [OF d(2), of k] index.get_abs [OF d(2), of k] index.get_val [OF d(2), of k] kv by auto
  define es' where "es' = (if v = None then fst (dict_set es k (Some ts)) else dict_poke es k ts)"
  have db': "set_expire db k ts = db\<lparr>expires := es'\<rparr>"
    using kv by (simp add: set_expire_def es'_def split: option.split)
  have es': "dict_ok es'" "dict_abs es' = (dict_abs (expires db))(k \<mapsto> ts)"
    using es index.set_inv [OF es(1)] index.set_abs [OF es(1)] index.poke_inv [OF es(1), of k]
      index.poke_abs [OF es(1), of k]
    by (auto simp: es'_def)
  have kk: "dict_abs (keys db) k \<noteq> None" using k by (simp add: vals_def)
  show "db_inv (set_expire db k ts)"
    by (rule db_invI) (use d es' kk ts in \<open>auto simp: db' split: if_splits\<close>)
  show "vals (set_expire db k ts) = vals db" "ttls (set_expire db k ts) = (ttls db)(k \<mapsto> ts)"
    using es' by (simp_all add: db' vals_def [abs_def] ttls_def)
qed

lemma remove_expire_facts [db_facts]:
  assumes "db_inv db"
  shows "db_inv (remove_expire db k)" "vals (remove_expire db k) = vals db"
    "ttls (remove_expire db k) = (ttls db)(k := None)"
proof -
  note d = db_invD [OF assms]
  show "db_inv (remove_expire db k)"
    by (rule db_invI) (use d in \<open>auto simp: remove_expire_def index_facts split: if_splits\<close>)
  show "vals (remove_expire db k) = vals db" "ttls (remove_expire db k) = (ttls db)(k := None)"
    using d(2) by (simp_all add: remove_expire_def vals_def [abs_def] ttls_def index_facts)
qed

lemma db_pttl_facts:
  assumes inv: "db_inv db" and g: "db_pttl db k now = (db', r)"
  shows "db_inv db'" and "vals db' = vals db" and "ttls db' = ttls db"
    and "r = (if vals db k = None then - 2
              else case ttls db k of None \<Rightarrow> - 1 | Some ts \<Rightarrow> max 0 (wrap_i64 (ts - now)))"
proof -
  note d = db_invD [OF inv]
  obtain es v where kv: "dict_get (expires db) k = (es, v)" by fastforce
  have es: "dict_ok es" "dict_abs es = dict_abs (expires db)" "v = dict_abs (expires db) k"
    using index.get_inv [OF d(2), of k] index.get_abs [OF d(2), of k] index.get_val [OF d(2), of k] kv by auto
  note up = db_inv_expires [OF inv es(1,2)]
  have ex: "dict_exists (keys db) k \<longleftrightarrow> vals db k \<noteq> None"
    using dict_exists_abs [OF d(1)] by (simp add: vals_def)
  have db': "db' = db \<or> db' = db\<lparr>expires := es\<rparr>"
    using g kv by (auto simp: db_pttl_def Let_def split: if_splits option.splits)
  then show "db_inv db'" and "vals db' = vals db" and "ttls db' = ttls db" using up inv by auto
  show "r = (if vals db k = None then - 2
      else case ttls db k of None \<Rightarrow> - 1 | Some ts \<Rightarrow> max 0 (wrap_i64 (ts - now)))"
    using g kv ex es(3) by (auto simp: db_pttl_def Let_def ttls_def max_def split: if_splits option.splits)
qed

lemma db_rehash_step_facts [db_facts]:
  assumes "db_inv db"
  shows "db_inv (db_rehash_step db)" "vals (db_rehash_step db) = vals db" "ttls (db_rehash_step db) = ttls db"
  using assms by (simp_all add: db_rehash_step_def db_inv_def vals_def [abs_def] ttls_def index_facts)

lemma db_flush_facts [db_facts]:
  assumes "db_inv db"
  shows "db_inv (db_flush db)" "vals (db_flush db) = Map.empty" "ttls (db_flush db) = Map.empty"
  using db_invD(1,2) [OF assms]
  by (simp_all add: db_flush_def db_inv_def vals_def [abs_def] ttls_def index_facts)

lemma dbsize_facts: "db_inv db \<Longrightarrow> dbsize db = card (dom (vals db))"
  using index.size_abs [OF db_invD(1)] by (simp add: dbsize_def vals_def [abs_def] dom_def)

lemma db_for_each_facts:
  assumes "db_inv db"
  shows "distinct (map fst (db_for_each db now))"
    and "(k, val) \<in> set (db_for_each db now) \<longleftrightarrow>
      (\<exists>ob. val = Some ob \<and> dict_abs (keys db) k = Some ob \<and> \<not> dead db now k)"
proof -
  note d = db_invD [OF assms]
  show "distinct (map fst (db_for_each db now))"
    using index.iter_distinct [OF d(1)] by (simp add: db_for_each_def distinct_map_filter)
  have "(case dict_get_const (expires db) key of None \<Rightarrow> False | Some ts \<Rightarrow> ts \<le> now) \<longleftrightarrow> dead db now key" for key
    using is_expired_dead [OF assms, of key now] by (simp add: is_expired_def)
  then show "(k, val) \<in> set (db_for_each db now) \<longleftrightarrow>
      (\<exists>ob. val = Some ob \<and> dict_abs (keys db) k = Some ob \<and> \<not> dead db now k)"
    by (auto simp: db_for_each_def index.iter_abs [OF d(1)])
qed

lemma db_for_each_keys:
  assumes "db_inv db"
  shows "fst ` set (db_for_each db now) = dom (live db now)"
  using db_for_each_facts(2) [OF assms, of _ _ now]
  by (force simp: live_def vals_def dom_def image_iff split: if_splits)

text \<open>Deleting keys does not disturb the view of the other keys.\<close>

lemma foldl_delete_key:
  assumes "db_inv db"
  shows "db_inv (foldl delete_key db ks)" "vals (foldl delete_key db ks) = vals db |` (- set ks)"
    "ttls (foldl delete_key db ks) = ttls db |` (- set ks)"
  using assms
  by (induction ks arbitrary: db) (simp_all add: delete_key_facts fun_eq_iff restrict_map_def)

end
