(* ===== verification/Expiry.thy ===== *)
theory Expiry
  imports Database DictSize Samples
begin

text \<open>
  Lazy and active expiry of \<^verbatim>\<open>KevaDatabase\<close>: both remove only keys whose deadline has passed, so
  they never change what a client sees, now or later; the active cycle counts what it deletes and
  stops within three turns.
\<close>

section \<open>Removing dead keys is invisible\<close>

definition same_from :: "i64 \<Rightarrow> keva_db \<Rightarrow> keva_db \<Rightarrow> bool" where
  "same_from now db db' \<longleftrightarrow> (\<forall>t\<ge>now. live db' t = live db t)"

lemma same_from_refl [simp]: "same_from now db db"
  by (simp add: same_from_def)

lemma same_from_trans: "same_from now a b \<Longrightarrow> same_from now b c \<Longrightarrow> same_from now a c"
  by (simp add: same_from_def)

lemma dead_mono: "dead db now k \<Longrightarrow> now \<le> t \<Longrightarrow> dead db t k"
  by (auto simp: dead_def split: option.splits)

lemma live_remove_dead:
  assumes "vals db' = vals db |` (- S)" "ttls db' = ttls db |` (- S)" "\<And>k. k \<in> S \<Longrightarrow> dead db now k"
  shows "same_from now db db'"
  unfolding same_from_def
proof (intro allI impI ext)
  fix t k assume "now \<le> t"
  then show "live db' t k = live db t k"
    using assms dead_mono [of db now k t]
    by (cases "k \<in> S") (auto simp: live_def dead_def restrict_map_def)
qed

lemma live_after_lazy:
  assumes "vals db' = (if dead db now k then (vals db)(k := None) else vals db)"
    "ttls db' = (if dead db now k then (ttls db)(k := None) else ttls db)"
  shows "same_from now db db'"
proof (rule live_remove_dead)
  let ?S = "if dead db now k then {k} else {}"
  show "vals db' = vals db |` (- ?S)" "ttls db' = ttls db |` (- ?S)"
    using assms by (auto simp: restrict_map_def fun_eq_iff)
  show "\<And>k'. k' \<in> ?S \<Longrightarrow> dead db now k'" by (simp split: if_splits)
qed

section \<open>The active cycle\<close>

lemma random_sample_nil_iff:
  assumes inv: "dict_inv d" and fit: "ht_size (ht0 d) \<le> 2 ^ 64" "ht_size (ht1 d) \<le> 2 ^ 64" and n: "0 < n"
  shows "random_sample d n r1 r2 = [] \<longleftrightarrow> used (sampled_table d r1) = 0"
proof -
  obtain es where es: "mset es = mset (ht_entries (sampled_table d r1))"
    and s: "random_sample d n r1 r2 = take (min n (dict_size d)) es"
    using random_sample_eq [OF inv fit] by blast
  have len: "length es = used (sampled_table d r1)"
    using arg_cong [OF es, of size] dict_invD(1,2) [OF inv] by (simp add: sampled_table_def ht_inv_def)
  have "used (sampled_table d r1) \<le> dict_size d" by (simp add: sampled_table_def dict_size_def)
  then show ?thesis using s len n by auto
qed

lemma random_sample_entries:
  assumes inv: "dict_inv d" and fit: "ht_size (ht0 d) \<le> 2 ^ 64" "ht_size (ht1 d) \<le> 2 ^ 64"
  shows "set (random_sample d n r1 r2) \<subseteq> set (dict_entries d)"
    and "distinct (map ekview (random_sample d n r1 r2))"
proof -
  obtain es where es: "mset es = mset (ht_entries (sampled_table d r1))"
    and s: "random_sample d n r1 r2 = take (min n (dict_size d)) es"
    using random_sample_eq [OF assms] by blast
  have "set es \<subseteq> set (dict_entries d)"
    using mset_eq_setD [OF es] by (auto simp: sampled_table_def dict_entries_def)
  then show "set (random_sample d n r1 r2) \<subseteq> set (dict_entries d)"
    using set_take_subset [of _ es] unfolding s by blast
  have "distinct (map ekview (ht_entries (sampled_table d r1)))"
    using dict_invD(5) [OF inv] by (simp add: sampled_table_def dict_entries_def)
  then have "distinct (map ekview es)" using distinct_views_mset [OF es] by simp
  then show "distinct (map ekview (random_sample d n r1 r2))" unfolding s by (simp flip: take_map)
qed

definition fits :: "keva_db \<Rightarrow> bool" where
  "fits db \<longleftrightarrow> ht_size (ht0 (expires db)) \<le> 2 ^ 64 \<and> ht_size (ht1 (expires db)) \<le> 2 ^ 64"

lemma expired_keys_facts:
  assumes inv: "db_inv db"
  shows "fits db \<Longrightarrow> distinct (expired_keys_of now (random_sample (expires db) n r1 r2))"
    and "k \<in> set (expired_keys_of now (random_sample (expires db) n r1 r2)) \<Longrightarrow> dead db now k \<and> ttls db k \<noteq> None"
proof -
  let ?s = "random_sample (expires db) n r1 r2"
  have d: "dict_inv (expires db)" using db_invD(2) [OF inv] by (simp add: dict_ok_def)
  show "distinct (expired_keys_of now ?s)" if "fits db"
    using random_sample_entries(2) [OF d, of n r1 r2] that
    by (simp add: fits_def expired_keys_of_def distinct_map_filter)
  assume "k \<in> set (expired_keys_of now ?s)"
  then obtain x ts where x: "x \<in> set ?s" "ekview x = k" "evalue x = Some ts" "ts \<le> now"
    by (auto simp: expired_keys_of_def split: option.splits)
  then have "dict_map (expires db) k = Some (Some ts)"
    using random_sample_subset [OF d, of n r1 r2] by (auto simp: dict_map_Some_iff [OF d])
  then have "ttls db k = Some ts" by (simp add: ttls_def dict_abs_def)
  then show "dead db now k \<and> ttls db k \<noteq> None" using x(4) by (simp add: dead_def)
qed

lemma fits_delete_key: "db_inv db \<Longrightarrow> fits db \<Longrightarrow> fits (delete_key db k)"
  using sizes_le_dict_del [of "expires db" "2 ^ 64" k] db_invD(2) [of db]
  by (simp add: fits_def delete_key_def sizes_le_def dict_ok_def)

lemma fits_foldl_delete: "db_inv db \<Longrightarrow> fits db \<Longrightarrow> fits (foldl delete_key db ks)"
  by (induction ks arbitrary: db) (simp_all add: fits_delete_key delete_key_facts)

lemma finite_ttls: "db_inv db \<Longrightarrow> finite (dom (ttls db))"
  using index.finite_dom [OF db_invD(2)] by (simp add: ttls_def)

lemma restrict_trans: "m |` A |` B = m |` (A \<inter> B)"
  by (simp add: Int_commute)

text \<open>The set \<open>S\<close> of keys that the turns delete.\<close>

lemma expire_cycles_facts:
  assumes "db_inv db" "expire_cycles draws now db n = (db', n')"
  shows "\<exists>S. (\<forall>k\<in>S. dead db now k) \<and> S \<subseteq> dom (ttls db) \<and> (fits db \<longrightarrow> n' = n + card S) \<and> db_inv db' \<and>
    vals db' = vals db |` (- S) \<and> ttls db' = ttls db |` (- S)"
  using assms
proof (induction draws now db n rule: expire_cycles.induct)
  case (1 now db n)
  then show ?case by (intro exI [of _ "{}"]) (simp add: restrict_map_def)
next
  case (2 r1 r2 draws now db n)
  let ?s = "random_sample (expires db) ACTIVE_EXPIRE_SAMPLE_SIZE r1 r2"
  let ?ks = "expired_keys_of now ?s"
  let ?db = "foldl delete_key db ?ks"
  note ek = expired_keys_facts [OF 2(2), where now = now and n = ACTIVE_EXPIRE_SAMPLE_SIZE and ?r1.0 = r1 and ?r2.0 = r2]
  note fd = foldl_delete_key [OF 2(2), of ?ks]
  have K: "\<forall>k\<in>set ?ks. dead db now k" "set ?ks \<subseteq> dom (ttls db)" "fits db \<longrightarrow> length ?ks = card (set ?ks)"
    using ek distinct_card [of ?ks] by auto
  show ?case
  proof (cases "length ?s = 0 \<or> length ?ks * 4 < length ?s")
    case True
    show ?thesis
    proof (cases "length ?s = 0")
      case True
      then show ?thesis using 2 by (intro exI [of _ "{}"]) (simp add: restrict_map_def)
    next
      case False
      with True 2(3) have "db' = ?db" "n' = n + length ?ks" by (auto simp: Let_def)
      then show ?thesis using K fd by (intro exI [of _ "set ?ks"]) simp
    qed
  next
    case False
    then have rec: "expire_cycles draws now ?db (n + length ?ks) = (db', n')"
      using 2(3) by (simp add: Let_def)
    obtain S where S: "\<forall>k\<in>S. dead ?db now k" "S \<subseteq> dom (ttls ?db)" "fits ?db \<longrightarrow> n' = n + length ?ks + card S" "db_inv db'"
      "vals db' = vals ?db |` (- S)" "ttls db' = ttls ?db |` (- S)"
      using 2(1) [OF refl refl _ refl refl refl refl _ fd(1) rec] False by auto
    have disj: "S \<inter> set ?ks = {}" using S(2) by (auto simp: fd(3))
    have dead: "\<forall>k\<in>S \<union> set ?ks. dead db now k"
      using K(1) S(1) disj by (auto simp: dead_def fd(3) restrict_map_def split: if_splits)
    have sub: "S \<subseteq> dom (ttls db)" using S(2) by (auto simp: fd(3) restrict_map_def split: if_splits)
    have "finite S" using finite_subset [OF sub finite_ttls [OF 2(2)]] .
    then have "fits db \<longrightarrow> n' = n + card (S \<union> set ?ks)"
      using disj K(3) S(3) fits_foldl_delete [OF 2(2), of ?ks] by (simp add: card_Un_disjoint)
    then show ?thesis
      using dead sub K(2) S fd
      by (intro exI [of _ "S \<union> set ?ks"]) (simp add: restrict_trans Int_commute)
  qed
qed

lemma active_cycle_facts:
  assumes "db_inv db" "active_expire_cycle draws now db = (db', n)"
  shows "\<exists>S. (\<forall>k\<in>S. dead db now k) \<and> S \<subseteq> dom (ttls db) \<and> (fits db \<longrightarrow> n = card S) \<and> db_inv db' \<and>
    vals db' = vals db |` (- S) \<and> ttls db' = ttls db |` (- S)"
proof (cases "dict_size (expires db) = 0")
  case True
  then show ?thesis
    using assms by (intro exI [of _ "{}"]) (simp add: active_expire_cycle_def restrict_map_def)
next
  case False
  obtain d1 d2 d3 where d: "draws = (d1, d2, d3)" by (cases draws)
  have "expire_cycles [d1, d2, d3] now db 0 = (db', n)"
    using assms(2) False by (simp add: active_expire_cycle_def d)
  from expire_cycles_facts [OF assms(1) this] show ?thesis by auto
qed

text \<open>Whatever is drawn, the invariant is kept.\<close>

lemma expire_cycles_inv: "db_inv db \<Longrightarrow> db_inv (fst (expire_cycles draws now db n))"
  by (induction draws now db n rule: expire_cycles.induct) (simp_all add: Let_def foldl_delete_key)

lemma active_cycle_inv: "db_inv db \<Longrightarrow> db_inv (fst (active_expire_cycle draws now db))"
  by (cases draws) (simp add: active_expire_cycle_def expire_cycles_inv del: expire_cycles.simps)

section \<open>Properties\<close>

text \<open>C27. Lazy expiry is exact and transparent: a lookup at time \<open>now\<close> finds a string object exactly
  when the key has a value whose deadline has not been reached, the object then has that value as
  its content, the database invariant is kept, and no client can tell, at that time or later and
  for any key, that the lookup happened.\<close>

theorem db_get_lazy_expiry:
  assumes "db_inv db" "db_get db k now secs = (db', r)"
  shows "db_inv db' \<and> map_option content r = live db now k \<and> (\<forall>ob. r = Some ob \<longrightarrow> object_wf ob) \<and>
    (\<forall>t\<ge>now. live db' t = live db t)"
proof -
  note g = db_get_facts [OF assms]
  have "map_option content r = live db now k" using g(4,5) by (cases r) auto
  then show ?thesis
    using g live_after_lazy [OF g(2,3)] by (auto simp: same_from_def)
qed

definition sample_db :: keva_db where
  "sample_db =
     set_expire (db_set (db_set (db_new 0) ''b'' (create_string ''y'' 0)) ''a'' (create_string ''x'' 0)) ''a'' 5"

lemma sample_db_facts:
  "db_inv sample_db" "vals sample_db = [''b'' \<mapsto> canonical_int ''y'', ''a'' \<mapsto> canonical_int ''x'']"
  "ttls sample_db = [''a'' \<mapsto> 5]"
proof -
  let ?b = "db_set (db_new 0) ''b'' (create_string ''y'' 0)"
  let ?a = "db_set ?b ''a'' (create_string ''x'' 0)"
  note f = db_new_facts [of 0] db_set_facts [OF db_new_facts(1) object_wf_create_string]
  note g = db_set_facts [OF f(4) object_wf_create_string]
  have v: "vals ?a ''a'' \<noteq> None" by (simp add: g f)
  have i: "in_i64 5" by (simp add: in_i64_def LLONG_MAX_def LLONG_MIN_def)
  note h = set_expire_facts [OF g(1) v i]
  show "db_inv sample_db" "vals sample_db = [''b'' \<mapsto> canonical_int ''y'', ''a'' \<mapsto> canonical_int ''x'']"
    "ttls sample_db = [''a'' \<mapsto> 5]"
    unfolding sample_db_def using h g f by (simp_all add: fun_eq_iff)
qed

lemma sample_db_fits: "fits sample_db"
  by (simp add: fits_def sample_db_def db_new_def db_set_def set_expire_def Let_def dict_get_def dict_del_def
      ht_unlink_def dict_eval)

lemma db_get_lazy_expiry_witness:
  "db_inv (fst (db_get sample_db ''a'' 7 0)) \<and>
   map_option content (snd (db_get sample_db ''a'' 7 0)) = None \<and>
   live (fst (db_get sample_db ''a'' 7 0)) 9 ''b'' = Some (canonical_int ''y'')"
proof -
  obtain db' r where g: "db_get sample_db ''a'' 7 0 = (db', r)" by fastforce
  have "live sample_db 7 ''a'' = None" "live sample_db 9 ''b'' = Some (canonical_int ''y'')"
    by (simp_all add: live_def dead_def sample_db_facts)
  with db_get_lazy_expiry [OF sample_db_facts(1) g] show ?thesis by (simp add: g)
qed

text \<open>C28. One active expiry cycle, whatever entries the generator draws, deletes a set of keys that
  all have a deadline in the past, keeps the database invariant and the value of every live key from
  then on (that a dead key is gone shows in DBSIZE, TTL and DEL); it reports exactly the number of the deleted keys (if the tables have at most 2 to the 64
  buckets, as any in memory has).\<close>

theorem active_expire_deletes_only_dead:
  assumes "db_inv db" "active_expire_cycle draws now db = (db', n)"
  shows "\<exists>S. (\<forall>k\<in>S. dead db now k) \<and> S \<subseteq> dom (ttls db) \<and> (fits db \<longrightarrow> n = card S) \<and> db_inv db' \<and>
    vals db' = vals db |` (- S) \<and> ttls db' = ttls db |` (- S) \<and> (\<forall>t\<ge>now. live db' t = live db t)"
proof -
  obtain S where S: "\<forall>k\<in>S. dead db now k" "S \<subseteq> dom (ttls db)" "fits db \<longrightarrow> n = card S" "db_inv db'"
    "vals db' = vals db |` (- S)" "ttls db' = ttls db |` (- S)"
    using active_cycle_facts [OF assms] by blast
  have "same_from now db db'" using S by (intro live_remove_dead) auto
  with S show ?thesis by (intro exI [of _ S]) (simp add: same_from_def)
qed

lemma active_expire_deletes_only_dead_witness:
  "\<exists>S. (\<forall>k\<in>S. dead sample_db 7 k) \<and> S \<subseteq> {''a''} \<and>
     snd (active_expire_cycle ((0, 0), (0, 0), (0, 0)) 7 sample_db) = card S"
proof -
  obtain db' n where g: "active_expire_cycle ((0, 0), (0, 0), (0, 0)) 7 sample_db = (db', n)" by fastforce
  from active_expire_deletes_only_dead [OF sample_db_facts(1) g] show ?thesis
    by (auto simp: g sample_db_facts sample_db_fits)
qed

text \<open>C29. The cycle is exhaustive on small expiry sets: when no rehash of the expiry dictionary is
  in progress and it holds at most twenty deadlines, one cycle deletes every key whose deadline has
  passed.\<close>

theorem active_expire_exhaustive:
  assumes inv: "db_inv db" and fit: "fits db" and idle: "\<not> is_rehashing (expires db)"
    and few: "dict_size (expires db) \<le> 20"
  shows "\<forall>k. dead db now k \<longrightarrow> vals (fst (active_expire_cycle draws now db)) k = None"
proof (intro allI impI)
  fix k assume dead: "dead db now k"
  obtain r1 r2 d2 d3 where d: "draws = ((r1, r2), d2, d3)" by (metis prod.exhaust)
  have dinv: "dict_inv (expires db)" using db_invD(2) [OF inv] by (simp add: dict_ok_def)
  obtain ts where ts: "ttls db k = Some ts" "ts \<le> now"
    using dead by (auto simp: dead_def split: option.splits)
  then have "dict_map (expires db) k = Some (Some ts)"
    using dict_ok_Some_iff [OF db_invD(2) [OF inv]] by (simp add: ttls_def)
  then obtain e where e: "e \<in> set (dict_entries (expires db))" "ekview e = k" "evalue e = Some ts"
    using dict_map_Some_iff [OF dinv] by auto
  have sz: "dict_size (expires db) \<noteq> 0" using e(1) by (auto simp: dict_size_entries [OF dinv])
  let ?s = "random_sample (expires db) ACTIVE_EXPIRE_SAMPLE_SIZE r1 r2"
  have tab: "sampled_table (expires db) r1 = ht0 (expires db)" using idle by (simp add: sampled_table_def)
  obtain es where es: "mset es = mset (ht_entries (ht0 (expires db)))"
    and s: "?s = take (min ACTIVE_EXPIRE_SAMPLE_SIZE (dict_size (expires db))) es"
    using random_sample_eq [OF dinv, of r1] fit [unfolded fits_def] tab by metis
  have len: "length es = dict_size (expires db)"
    using arg_cong [OF es, of size] dict_invD(8) [OF dinv idle]
    by (simp add: dict_size_entries [OF dinv] dict_entries_def)
  then have "?s = es" using s few by (simp add: ACTIVE_EXPIRE_SAMPLE_SIZE_def)
  moreover have "set es = set (dict_entries (expires db))"
    using mset_eq_setD [OF es] dict_invD(8) [OF dinv idle] by (simp add: dict_entries_def)
  ultimately have k: "k \<in> set (expired_keys_of now ?s)" and ne: "?s \<noteq> []"
    using e ts by (auto simp: expired_keys_of_def)
  let ?db = "foldl delete_key db (expired_keys_of now ?s)"
  note fd = foldl_delete_key [OF inv, of "expired_keys_of now ?s"]
  have gone: "vals ?db k = None" using k by (simp add: fd(2))
  obtain db' n where c: "active_expire_cycle draws now db = (db', n)" by fastforce
  have "db' = ?db \<or> expire_cycles [d2, d3] now ?db (length (expired_keys_of now ?s)) = (db', n)"
    using c sz ne by (auto simp: active_expire_cycle_def d Let_def split: if_splits)
  then show "vals (fst (active_expire_cycle draws now db)) k = None"
  proof
    assume "expire_cycles [d2, d3] now ?db (length (expired_keys_of now ?s)) = (db', n)"
    from expire_cycles_facts [OF fd(1) this] gone
    show ?thesis by (auto simp: c restrict_map_def)
  qed (simp add: c gone)
qed

lemma active_expire_exhaustive_witness:
  "vals (fst (active_expire_cycle ((1, 2), (3, 4), (5, 6)) 7 sample_db)) ''a'' = None"
proof -
  have "\<not> is_rehashing (expires sample_db) \<and> dict_size (expires sample_db) \<le> 20"
    by (simp add: sample_db_def db_new_def db_set_def set_expire_def Let_def dict_get_def dict_del_def
        ht_unlink_def dict_eval dict_size_def)
  moreover have "dead sample_db 7 ''a''" by (simp add: dead_def sample_db_facts)
  ultimately show ?thesis
    using active_expire_exhaustive [OF sample_db_facts(1) sample_db_fits] by blast
qed

end
