(* ===== verification/RespEncoder.thy ===== *)
theory RespEncoder
  imports RespParser Connection
begin

text \<open>
  \<^verbatim>\<open>RespEncoder\<close> (\<^verbatim>\<open>src/protocol/resp_encoder.cpp\<close>) and its agreement with the parser. The
  function \<open>wire\<close> is the RESP2 serialization of a value, the specification that both sides are
  compared with: the encoder appends it (an error with its \<^verbatim>\<open>ERR\<close> prefix), and the parser reads it
  back.
\<close>

section \<open>The encoder\<close>

definition write_integer_line :: "connection \<Rightarrow> i64 \<Rightarrow> connection" where
  "write_integer_line conn n = append_response (append_response conn (to_chars n)) CRLF"

definition resp_ok :: "connection \<Rightarrow> connection" where
  "resp_ok conn = append_response conn (''+OK'' @ CRLF)"

definition resp_simple_string :: "connection \<Rightarrow> string \<Rightarrow> connection" where
  "resp_simple_string conn msg =
     append_response (append_response (append_response conn ''+'') msg) CRLF"

definition resp_error :: "connection \<Rightarrow> string \<Rightarrow> connection" where
  "resp_error conn msg =
     append_response (append_response (append_response conn ''-ERR '') msg) CRLF"

definition resp_wrong_type :: "connection \<Rightarrow> string \<Rightarrow> connection" where
  "resp_wrong_type conn msg =
     append_response (append_response (append_response conn ''-WRONGTYPE '') msg) CRLF"

definition resp_integer :: "connection \<Rightarrow> i64 \<Rightarrow> connection" where
  "resp_integer conn v = write_integer_line (append_response conn '':'') v"

definition resp_bulk_string :: "connection \<Rightarrow> string \<Rightarrow> connection" where
  "resp_bulk_string conn data =
     append_response
       (append_response (write_integer_line (append_response conn ''$'') (wrap_i64 (int (length data)))) data) CRLF"

definition resp_nil :: "connection \<Rightarrow> connection" where
  "resp_nil conn = append_response conn (''$-1'' @ CRLF)"

definition resp_array_header :: "connection \<Rightarrow> i64 \<Rightarrow> connection" where
  "resp_array_header conn cnt = write_integer_line (append_response conn ''*'') cnt"

definition resp_nil_array :: "connection \<Rightarrow> connection" where
  "resp_nil_array conn = append_response conn (''*-1'' @ CRLF)"

fun encode :: "connection \<Rightarrow> resp_value \<Rightarrow> connection"
  and encode_elems :: "connection \<Rightarrow> resp_value list \<Rightarrow> connection" where
  "encode conn (SimpleString s) = resp_simple_string conn s"
| "encode conn (RespError s) = resp_error conn s"
| "encode conn (RespInteger n) = resp_integer conn n"
| "encode conn (BulkString s) = resp_bulk_string conn s"
| "encode conn RespNil = resp_nil conn"
| "encode conn (RespArray vs) =
     encode_elems (resp_array_header conn (wrap_i64 (int (length vs)))) vs"
| "encode_elems conn [] = conn"
| "encode_elems conn (v # vs) = encode_elems (encode conn v) vs"

section \<open>The serialization\<close>

fun wire :: "resp_value \<Rightarrow> string" where
  "wire (SimpleString s) = ''+'' @ s @ CRLF"
| "wire (RespError s) = ''-'' @ s @ CRLF"
| "wire (RespInteger n) = '':'' @ to_chars n @ CRLF"
| "wire (BulkString s) = ''$'' @ to_chars (wrap_i64 (int (length s))) @ CRLF @ s @ CRLF"
| "wire (RespArray vs) = ''*'' @ to_chars (wrap_i64 (int (length vs))) @ CRLF @ concat (map wire vs)"
| "wire RespNil = ''$-1'' @ CRLF"

text \<open>
  A value that has a serialization: its lines hold no line end and its numbers are 64-bit
  (\<open>lines_ok\<close>), and its lengths are 64-bit (\<open>sizes_ok\<close>, true of anything that fits in memory).
\<close>

fun lines_ok :: "resp_value \<Rightarrow> bool" where
  "lines_ok (SimpleString s) \<longleftrightarrow> find_crlf s = None"
| "lines_ok (RespError s) \<longleftrightarrow> find_crlf s = None"
| "lines_ok (RespInteger n) \<longleftrightarrow> in_i64 n"
| "lines_ok (BulkString s) \<longleftrightarrow> True"
| "lines_ok (RespArray vs) \<longleftrightarrow> (\<forall>v\<in>set vs. lines_ok v)"
| "lines_ok RespNil \<longleftrightarrow> True"

fun sizes_ok :: "resp_value \<Rightarrow> bool" where
  "sizes_ok (BulkString s) \<longleftrightarrow> in_i64 (int (length s))"
| "sizes_ok (RespArray vs) \<longleftrightarrow> in_i64 (int (length vs)) \<and> (\<forall>v\<in>set vs. sizes_ok v)"
| "sizes_ok _ \<longleftrightarrow> True"

definition wire_ok :: "resp_value \<Rightarrow> bool" where
  "wire_ok v \<longleftrightarrow> lines_ok v \<and> sizes_ok v"

lemma wire_ok_simps [simp]:
  "wire_ok (SimpleString s) \<longleftrightarrow> find_crlf s = None"
  "wire_ok (RespError s) \<longleftrightarrow> find_crlf s = None"
  "wire_ok (RespInteger n) \<longleftrightarrow> in_i64 n"
  "wire_ok (BulkString s) \<longleftrightarrow> in_i64 (int (length s))"
  "wire_ok (RespArray vs) \<longleftrightarrow> in_i64 (int (length vs)) \<and> (\<forall>v\<in>set vs. wire_ok v)"
  "wire_ok RespNil \<longleftrightarrow> True"
  by (auto simp: wire_ok_def)

fun with_err :: "resp_value \<Rightarrow> resp_value" where
  "with_err (RespError s) = RespError (''ERR '' @ s)"
| "with_err (RespArray vs) = RespArray (map with_err vs)"
| "with_err v = v"

named_theorems reply_wire \<open>what the encoder's primitives append, as serialized values\<close>

lemma resp_ok_wire [reply_wire]: "resp_ok c = append_response c (wire (SimpleString ''OK''))"
  and resp_simple_wire [reply_wire]: "resp_simple_string c m = append_response c (wire (SimpleString m))"
  and resp_error_wire [reply_wire]: "resp_error c m = append_response c (wire (RespError (''ERR '' @ m)))"
  and resp_wrong_type_wire [reply_wire]:
    "resp_wrong_type c m = append_response c (wire (RespError (''WRONGTYPE '' @ m)))"
  and resp_integer_wire [reply_wire]: "resp_integer c n = append_response c (wire (RespInteger n))"
  and resp_nil_wire [reply_wire]: "resp_nil c = append_response c (wire RespNil)"
  by (simp_all add: resp_ok_def resp_simple_string_def resp_error_def resp_wrong_type_def resp_integer_def
      resp_nil_def write_integer_line_def)

lemma resp_bulk_wire [reply_wire]: "resp_bulk_string c s = append_response c (wire (BulkString s))"
  by (simp add: resp_bulk_string_def write_integer_line_def)

lemma resp_array_header_bytes: "resp_array_header c n = append_response c (''*'' @ to_chars n @ CRLF)"
  by (simp add: resp_array_header_def write_integer_line_def)

lemma encode_wire:
  "wire_ok v \<Longrightarrow> encode c v = append_response c (wire (with_err v))"
  "\<forall>v\<in>set vs. wire_ok v \<Longrightarrow> encode_elems c vs = append_response c (concat (map (wire \<circ> with_err) vs))"
proof (induction c v and c vs rule: encode_encode_elems.induct)
  case (6 conn vs)
  then show ?case by (simp add: resp_array_header_bytes comp_def)
next
  case (8 conn v vs)
  then show ?case by simp
qed (simp_all add: reply_wire del: wire.simps)

section \<open>The parser reads the serialization\<close>

fun depth :: "resp_value \<Rightarrow> nat" where
  "depth (RespArray vs) = Suc (fold max (map depth vs) 0)"
| "depth _ = 0"

lemma fold_max_acc: "(a :: nat) \<le> fold max xs a"
  by (induction xs arbitrary: a) (simp, metis fold_simps(2) max.cobounded2 order_trans)

lemma fold_max_ge: "x \<in> set xs \<Longrightarrow> x \<le> fold max xs (a :: nat)"
proof (induction xs arbitrary: a)
  case (Cons y ys)
  show ?case
  proof (cases "x \<in> set ys")
    case True
    then show ?thesis using Cons.IH by simp
  next
    case False
    then have "x \<le> max y a" using Cons.prems by simp
    also have "\<dots> \<le> fold max ys (max y a)" by (rule fold_max_acc)
    finally show ?thesis by simp
  qed
qed simp

lemma parse_line_here:
  assumes "drop p inp = l @ CRLF @ t" "find_crlf l = None"
  shows "parse_line inp p = Some (l, p + length l + 2)"
  using find_crlf_exact [OF assms(2), of t] by (simp add: parse_line_def assms(1))

lemma here:
  assumes "drop p inp = c # s"
  shows "p < length inp" "inp ! p = c" "drop (p + 1) inp = s"
proof -
  show "p < length inp" using assms by (cases "length inp \<le> p") auto
  then show "inp ! p = c" "drop (p + 1) inp = s" using assms Cons_nth_drop_Suc [of p inp] by auto
qed

lemma int_line_here:
  assumes "drop p inp = c # to_chars n @ CRLF @ t"
  shows "parse_line inp (p + 1) = Some (to_chars n, p + 1 + length (to_chars n) + 2)"
  using parse_line_here [OF _ find_crlf_no_CR [OF to_chars_no_CR]] here(3) [OF assms] by simp

lemma drop_more: "drop p xs = a @ b \<Longrightarrow> drop (p + length a) xs = b"
  by (metis add.commute append_eq_conv_conj drop_drop)

lemma parse_elems_wire:
  assumes "\<And>v p t es. v \<in> set vs \<Longrightarrow> drop p inp = wire v @ t \<Longrightarrow>
      parse_value rsv f inp p = PComplete v (p + length (wire v))"
    and "drop p inp = concat (map wire vs) @ t"
  shows "parse_elems rsv f inp p (length vs) es = EComplete (es @ vs) (p + length (concat (map wire vs)))"
  using assms
proof (induction vs arbitrary: p es)
  case Nil
  then show ?case by (simp add: parse_elems.simps)
next
  case (Cons v vs)
  have d: "drop p inp = wire v @ concat (map wire vs) @ t" using Cons.prems(2) by simp
  have v: "parse_value rsv f inp p = PComplete v (p + length (wire v))"
    using Cons.prems(1) [OF _ d] by simp
  have "parse_elems rsv f inp (p + length (wire v)) (length vs) (es @ [v])
      = EComplete ((es @ [v]) @ vs) (p + length (wire v) + length (concat (map wire vs)))"
    by (rule Cons.IH [OF Cons.prems(1) drop_more [OF d]]) simp_all
  then show ?case using v by (simp add: parse_elems.simps [of rsv f inp p] add.assoc)
qed

fun sizes_allowed :: "(nat \<Rightarrow> bool) \<Rightarrow> resp_value \<Rightarrow> bool" where
  "sizes_allowed rsv (RespArray vs) \<longleftrightarrow> rsv (length vs) \<and> (\<forall>v\<in>set vs. sizes_allowed rsv v)"
| "sizes_allowed rsv _ \<longleftrightarrow> True"

lemma parse_value_wire:
  "wire_ok v \<Longrightarrow> sizes_allowed rsv v \<Longrightarrow> depth v \<le> f \<Longrightarrow> drop p inp = wire v @ t \<Longrightarrow>
   parse_value rsv f inp p = PComplete v (p + length (wire v))"
proof (induction v arbitrary: f p t)
  case (SimpleString s)
  then have d: "drop p inp = CHR ''+'' # s @ CRLF @ t" by simp
  note h = here [OF d]
  have "parse_line inp (p + 1) = Some (s, p + 1 + length s + 2)"
    using parse_line_here [OF h(3)] SimpleString by simp
  then show ?case using h by (simp add: parse_value.simps [of rsv f inp p] parse_simple_def Let_def)
next
  case (RespError s)
  then have d: "drop p inp = CHR ''-'' # s @ CRLF @ t" by simp
  note h = here [OF d]
  have "parse_line inp (p + 1) = Some (s, p + 1 + length s + 2)"
    using parse_line_here [OF h(3)] RespError by simp
  then show ?case using h by (simp add: parse_value.simps [of rsv f inp p] parse_simple_def Let_def)
next
  case (RespInteger n)
  then have d: "drop p inp = CHR '':'' # to_chars n @ CRLF @ t" by simp
  note h = here [OF d] and l = int_line_here [OF d]
  show ?case
    using h l RespInteger by (simp add: parse_value.simps [of rsv f inp p] parse_simple_def Let_def)
next
  case (BulkString s)
  let ?n = "int (length s)"
  have d: "drop p inp = CHR ''$'' # to_chars ?n @ CRLF @ (s @ CRLF @ t)" using BulkString by simp
  note h = here [OF d] and l = int_line_here [OF d]
  let ?q = "p + 1 + length (to_chars ?n) + 2"
  have q: "drop ?q inp = s @ CRLF @ t"
    using drop_more [of p inp "CHR ''$'' # to_chars ?n @ CRLF"] d by (simp add: numeral_2_eq_2)
  have e: "drop (?q + length s) inp = CR # LF # t" using drop_more [OF q] by simp
  note c = here [OF e] and c2 = here [OF here(3) [OF e]]
  have "in_i64 ?n" using BulkString by simp
  then show ?case
    using h l q c c2
    by (simp add: parse_value.simps [of rsv f inp p] parse_bulk_string_def Let_def not_less)
next
  case (RespArray vs)
  let ?n = "int (length vs)"
  have d: "drop p inp = CHR ''*'' # to_chars ?n @ CRLF @ (concat (map wire vs) @ t)" using RespArray by simp
  note h = here [OF d] and l = int_line_here [OF d]
  let ?q = "p + 1 + length (to_chars ?n) + 2"
  have q: "drop ?q inp = concat (map wire vs) @ t"
    using drop_more [of p inp "CHR ''*'' # to_chars ?n @ CRLF"] d by (simp add: numeral_2_eq_2)
  obtain g where g: "f = Suc g" using RespArray.prems(3) by (cases f) auto
  have "depth v \<le> g" if "v \<in> set vs" for v
    using RespArray.prems(3) that fold_max_ge [of "depth v" "map depth vs" 0] by (simp add: g)
  then have "parse_elems rsv g inp ?q (length vs) [] = EComplete ([] @ vs) (?q + length (concat (map wire vs)))"
    using RespArray by (intro parse_elems_wire [OF _ q]) auto
  then show ?case
    using h l g RespArray
    by (simp add: parse_value.simps [of rsv "Suc g" inp p] parse_array.simps [of rsv "Suc g" inp p] Let_def)
next
  case RespNil
  have d: "drop p inp = CHR ''$'' # to_chars (- 1) @ CRLF @ t"
  proof -
    have "to_chars (- 1) = ''-1''" by code_simp
    then show ?thesis using RespNil by simp
  qed
  note h = here [OF d] and l = int_line_here [OF d]
  have "length (to_chars (- 1)) = 2" by code_simp
  then show ?case
    using h l by (simp add: parse_value.simps [of rsv f inp p] parse_bulk_string_def Let_def)
qed

lemma parse_wire:
  assumes "wire_ok v" "sizes_allowed rsv v"
  shows "parse rsv (wire v @ t) = PComplete v (length (wire v))"
proof -
  have "parse_value rsv (depth v) (wire v @ t) 0 = PComplete v (length (wire v))"
    using parse_value_wire [OF assms order_refl, of 0 "wire v @ t" t] by simp
  then show ?thesis using parse_by_fuel [of rsv "depth v" "wire v @ t"] by simp
qed

end
