(* ===== verification/RespStream.thy ===== *)
theory RespStream
  imports RespEncoder
begin

text \<open>
  RESP2 on a byte stream. The locale \<open>stream_parser\<close> is a parser whose final answers do not change
  when more bytes arrive; \<open>stream_codec\<close> adds a serialization that it reads back. Both are
  interpreted on \<^verbatim>\<open>RespParser\<close> and the serialization that \<^verbatim>\<open>RespEncoder\<close> writes.
\<close>

section \<open>Parsers on a growing buffer\<close>

text \<open>Feeding chunks into a buffer until the parser gives a final answer.\<close>

fun feed :: "(string \<Rightarrow> 'r) \<Rightarrow> ('r \<Rightarrow> bool) \<Rightarrow> string \<Rightarrow> string list \<Rightarrow> 'r" where
  "feed par fin buf [] = par buf"
| "feed par fin buf (c # cs) = (if fin (par buf) then par buf else feed par fin (buf @ c) cs)"

locale stream_parser =
  fixes par :: "string \<Rightarrow> 'r"
    and fin :: "'r \<Rightarrow> bool"
  assumes stable: "fin (par s) \<Longrightarrow> par (s @ t) = par s"
begin

lemma open_prefix: "\<not> fin (par (s @ t)) \<Longrightarrow> \<not> fin (par s)"
  using stable by metis

lemma feed_whole: "fin (par (buf @ concat cs)) \<Longrightarrow> feed par fin buf cs = par (buf @ concat cs)"
  by (induction cs arbitrary: buf) (simp_all add: stable)

lemma feed_chunks: "concat cs = concat ds \<Longrightarrow> fin (par (concat cs)) \<Longrightarrow> feed par fin [] cs = feed par fin [] ds"
  using feed_whole [of "[]"] by simp

end

locale stream_codec = stream_parser par fin
  for par :: "string \<Rightarrow> 'r" and fin :: "'r \<Rightarrow> bool" +
  fixes ser :: "'v \<Rightarrow> string"
    and ok :: "'v \<Rightarrow> bool"
    and complete :: "'v \<Rightarrow> nat \<Rightarrow> 'r"
  assumes par_ser: "ok v \<Longrightarrow> par (ser v) = complete v (length (ser v))"
    and complete_fin: "fin (complete v n)"
    and complete_inj: "complete v n = complete w m \<longleftrightarrow> v = w \<and> n = m"
    and complete_le: "par s = complete v n \<Longrightarrow> n \<le> length s"
begin

lemma par_ser_append: "ok v \<Longrightarrow> par (ser v @ t) = complete v (length (ser v))"
  using stable [of "ser v" t] by (simp add: par_ser complete_fin)

lemma ser_unique: "ok v \<Longrightarrow> ok w \<Longrightarrow> ser v @ s = ser w @ t \<Longrightarrow> v = w \<and> s = t"
  using par_ser_append [of v s] par_ser_append [of w t] by (auto simp: complete_inj)

lemma truncated_open:
  assumes "ok v" "ser v = s @ t" "t \<noteq> []"
  shows "\<not> fin (par s)"
proof
  assume "fin (par s)"
  then have "par s = complete v (length (ser v))" using stable [of s t] par_ser [OF assms(1)] assms(2) by simp
  then have "length (ser v) \<le> length s" by (rule complete_le)
  with assms(2,3) show False by simp
qed

end

interpretation resp: stream_parser "parse rsv" settled
  by unfold_locales (rule settled_parse_append)

interpretation resp_codec: stream_codec "parse rsv" settled wire "\<lambda>v. wire_ok v \<and> sizes_allowed rsv v" PComplete
proof unfold_locales
  show "parse rsv (wire v) = PComplete v (length (wire v))" if "wire_ok v \<and> sizes_allowed rsv v" for v
    using parse_wire [of v rsv "[]"] that by simp
  show "n \<le> length s" if "parse rsv s = PComplete v n" for s v n
    using parse_bounds(1) [OF that [unfolded parse_def]] by simp
qed auto

section \<open>Properties\<close>

text \<open>C13. The parser always answers, and a complete answer consumes at least one byte and never more
  than it was given: the recursion depth never exceeds the input length, so the pipeline loop that
  consumes frame after frame ends.\<close>

theorem parse_answers_in_bounds:
  "parse rsv s \<noteq> PFuel \<and> (\<forall>v n. parse rsv s = PComplete v n \<longrightarrow> 0 < n \<and> n \<le> length s)"
  using parse_total [of rsv s] parse_bounds(1) [of rsv "length s + 1" s 0] by (auto simp: parse_def)

lemma parse_answers_in_bounds_witness:
  "parse (\<lambda>_. True) ''+OK'' \<noteq> PFuel \<and> parse (\<lambda>_. True) (''+OK'' @ CRLF @ ''+'') = PComplete (SimpleString ''OK'') 5 \<and>
   0 < (5::nat) \<and> 5 \<le> length (''+OK'' @ CRLF @ ''+'')"
  using parse_answers_in_bounds [of "\<lambda>_. True" "''+OK''"]
    parse_answers_in_bounds [of "\<lambda>_. True" "''+OK'' @ CRLF @ ''+''"]
  by (simp add: parse_def parse_value.simps parse_simple_def parse_line_def Let_def)

text \<open>C11. Round trip: whatever value the encoder writes, the parser reads back from the front of the
  stream exactly as it was, up to the prefix \<^verbatim>\<open>ERR\<close> that the encoder puts before error texts,
  consuming exactly the bytes of that value and leaving what follows. The allocator is assumed to
  grant the array sizes that occur in the value.\<close>

theorem parse_encode_roundtrip:
  assumes "wire_ok v" "sizes_allowed rsv (with_err v)" "write_buf c = []"
  shows "parse rsv (write_buf (encode c v) @ rest) = PComplete (with_err v) (length (write_buf (encode c v)))"
proof -
  have "find_crlf s = None \<Longrightarrow> find_crlf (''ERR '' @ s) = None" for s
    by (cases s) (simp_all split: if_splits)
  then have "wire_ok v \<Longrightarrow> wire_ok (with_err v)" for v
    by (induction v) auto
  then show ?thesis
    using resp_codec.par_ser_append [of "with_err v" rsv rest] assms encode_wire(1) [OF assms(1), of c] by simp
qed

definition sample_value :: resp_value where
  "sample_value = RespArray [BulkString ''GET'', RespArray [RespInteger (- 7), RespNil], RespError ''x'']"

lemma parse_encode_roundtrip_witness:
  "parse (\<lambda>n. n < 10) (write_buf (encode (conn_new 1) sample_value) @ ''+'') =
     PComplete (RespArray [BulkString ''GET'', RespArray [RespInteger (- 7), RespNil], RespError ''ERR x''])
       (length (write_buf (encode (conn_new 1) sample_value)))"
  using parse_encode_roundtrip [of sample_value "\<lambda>n. n < 10" "conn_new 1" "''+''"]
  by (simp add: sample_value_def in_i64_def LLONG_MAX_def LLONG_MIN_def conn_new_def)

text \<open>C12. Streaming: however the network cuts the bytes into chunks, parsing the growing buffer after
  each chunk ends with the same answer as parsing everything at once, and no strict prefix of a
  serialized value is ever taken for a complete value or an error.\<close>

theorem parse_is_chunk_independent:
  "(settled (parse rsv (concat chunks)) \<longrightarrow> feed (parse rsv) settled [] chunks = parse rsv (concat chunks)) \<and>
   (wire_ok v \<and> sizes_allowed rsv v \<and> wire v = s @ t \<and> t \<noteq> [] \<longrightarrow> parse rsv s = PIncomplete)"
proof (intro conjI impI)
  show "settled (parse rsv (concat chunks)) \<Longrightarrow> feed (parse rsv) settled [] chunks = parse rsv (concat chunks)"
    using resp.feed_whole [of rsv "[]" chunks] by simp
  assume a: "wire_ok v \<and> sizes_allowed rsv v \<and> wire v = s @ t \<and> t \<noteq> []"
  then have "\<not> settled (parse rsv s)" using resp_codec.truncated_open [of v rsv s t] by blast
  then show "parse rsv s = PIncomplete" using parse_total [of rsv s] by (cases "parse rsv s") auto
qed

lemma parse_is_chunk_independent_witness:
  "feed (parse (\<lambda>_. True)) settled [] [''+O'', ''K'' @ [CR], [LF]] = PComplete (SimpleString ''OK'') 5 \<and>
   parse (\<lambda>_. True) ''+O'' = PIncomplete"
proof -
  have p: "parse (\<lambda>_. True) (''+OK'' @ CRLF) = PComplete (SimpleString ''OK'') 5"
    using parse_wire [of "SimpleString ''OK''" "\<lambda>_. True" "[]"] by simp
  show ?thesis
    using parse_is_chunk_independent [of "\<lambda>_. True" "[''+O'', ''K'' @ [CR], [LF]]" "SimpleString ''OK''" "''+O''" "''K'' @ CRLF"] p
    by simp
qed

text \<open>The integer reader ignores what follows the digits: a length, count or number line with
  trailing garbage is accepted as if the garbage were absent, where RESP2 calls for a protocol error.\<close>

lemma parse_accepts_trailing_garbage:
  "parse rsv ('':5abc'' @ CRLF) = PComplete (RespInteger 5) 7 \<and>
   parse rsv (''$1zz'' @ CRLF @ ''k'' @ CRLF) = PComplete (BulkString ''k'') 9"
proof -
  have "from_chars ''5abc'' = (ErrcOk, 5, 1)" "from_chars ''1zz'' = (ErrcOk, 1, 1)" by code_simp+
  then show ?thesis
    by (simp add: parse_def parse_value.simps parse_simple_def parse_bulk_string_def parse_line_def Let_def)
qed

text \<open>C35. A ten-byte header can bring the server down: for any count the allocator refuses, the
  header of an array that announces this count makes the parser request the storage before any
  element has arrived, and the refusal is an exception nobody catches.\<close>

theorem parse_array_header_aborts:
  assumes "in_i64 (int n)" "\<not> rsv n"
  shows "parse rsv (''*'' @ to_chars (int n) @ CRLF) = PAbort"
proof -
  let ?s = "''*'' @ to_chars (int n) @ CRLF"
  have d: "drop 0 ?s = CHR ''*'' # to_chars (int n) @ CRLF @ []" by simp
  show ?thesis
    using here [OF d] int_line_here [OF d] assms
    by (simp add: parse_def parse_value.simps [of _ _ _ 0] parse_array.simps [of _ _ _ 0])
qed

lemma parse_array_header_aborts_witness:
  "parse (\<lambda>n. n < 1000) (''*1000000000'' @ CRLF) = PAbort"
proof -
  have "to_chars (int 1000000000) = ''1000000000''" by (simp add: to_chars_def nat_to_chars.simps digit_char_def) code_simp
  then show ?thesis
    using parse_array_header_aborts [of 1000000000 "\<lambda>n. n < 1000"]
    by (simp add: in_i64_def LLONG_MAX_def LLONG_MIN_def)
qed

end
