(* ===== verification/Server.thy ===== *)
theory Server
  imports Expiry RespStream RdbWriter
begin

text \<open>
  The global server state (\<^verbatim>\<open>ServerContext\<close>, \<^verbatim>\<open>src/core/server_context.cpp\<close>), the environment
  of one command (its clock readings and what the world answers to its system calls), and the
  contract of a command handler: it keeps the database invariant and replies with exactly one
  RESP2 value.
\<close>

section \<open>State\<close>

record save_point =
  sp_seconds :: int
  sp_changes :: int

record server_config =
  cfg_host :: string
  cfg_port :: u16
  cfg_max_clients :: u32
  cfg_maxmemory :: usize
  cfg_hz :: int
  cfg_loglevel :: string
  cfg_rdb_filename :: string
  cfg_rdb_enabled :: bool
  cfg_save_points :: "save_point list"

record server_stats =
  total_commands_processed :: u64
  total_connections_received :: u64
  keyspace_hits :: u64
  keyspace_misses :: u64
  expired_keys :: u64
  evicted_keys :: u64

record server =
  config :: server_config
  stats :: server_stats
  database :: keva_db
  bgsave_child_pid :: int
  dirty_keys :: u64
  last_save_time :: i64
  start_time_seconds :: i64
  disk :: files

text \<open>\<open>disk\<close> is no member of the class: it is the file system that the process works on.\<close>

definition default_config :: server_config where
  "default_config =
     \<lparr>cfg_host = ''0.0.0.0'', cfg_port = 6379, cfg_max_clients = 10000, cfg_maxmemory = 0, cfg_hz = 10,
      cfg_loglevel = ''info'', cfg_rdb_filename = ''dump.rdb'', cfg_rdb_enabled = True,
      cfg_save_points =
        [\<lparr>sp_seconds = 3600, sp_changes = 1\<rparr>, \<lparr>sp_seconds = 300, sp_changes = 100\<rparr>,
         \<lparr>sp_seconds = 60, sp_changes = 10000\<rparr>]\<rparr>"

definition zero_stats :: server_stats where
  "zero_stats =
     \<lparr>total_commands_processed = 0, total_connections_received = 0, keyspace_hits = 0,
      keyspace_misses = 0, expired_keys = 0, evicted_keys = 0\<rparr>"

text \<open>\<^verbatim>\<open>init\<close>: the clock reading is an argument, and the files are those that the process finds.\<close>

definition server_init :: "files \<Rightarrow> server_config \<Rightarrow> i64 \<Rightarrow> server" where
  "server_init fs cfg unix_time =
     \<lparr>config = cfg, stats = zero_stats, database = db_new 0, bgsave_child_pid = - 1, dirty_keys = 0,
      last_save_time = unix_time, start_time_seconds = unix_time, disk = fs\<rparr>"

definition record_command :: "server \<Rightarrow> server" where
  "record_command s =
     s\<lparr>stats := (stats s)\<lparr>total_commands_processed := total_commands_processed (stats s) + 1\<rparr>\<rparr>"

definition record_hit :: "server \<Rightarrow> server" where
  "record_hit s = s\<lparr>stats := (stats s)\<lparr>keyspace_hits := keyspace_hits (stats s) + 1\<rparr>\<rparr>"

definition record_miss :: "server \<Rightarrow> server" where
  "record_miss s = s\<lparr>stats := (stats s)\<lparr>keyspace_misses := keyspace_misses (stats s) + 1\<rparr>\<rparr>"

text \<open>
  \<^verbatim>\<open>server_cron\<close>. A triggered save point is only logged, so the result also says whether one was.
\<close>

definition save_point_due :: "server \<Rightarrow> i64 \<Rightarrow> bool" where
  "save_point_due s now =
     (cfg_rdb_enabled (config s) \<and> bgsave_child_pid s = - 1 \<and>
      list_ex (\<lambda>sp. (word_of_int (sp_changes sp) :: u64) \<le> dirty_keys s
                 \<and> sp_seconds sp \<le> wrap_i64 (now - last_save_time s))
        (cfg_save_points (config s)))"

definition server_cron ::
    "(u64 \<times> u64) \<times> (u64 \<times> u64) \<times> (u64 \<times> u64) \<Rightarrow> i64 \<Rightarrow> i64 \<Rightarrow> server \<Rightarrow> server \<times> bool" where
  "server_cron draws now_milli now_sec s =
     (case active_expire_cycle draws now_milli (database s) of
        (db, deleted) \<Rightarrow>
          let s = s\<lparr>database := db\<rparr>;
              s = (if 0 < deleted
                   then s\<lparr>stats := (stats s)\<lparr>expired_keys := expired_keys (stats s) + word_of_nat deleted\<rparr>\<rparr>
                   else s);
              s = s\<lparr>database := db_rehash_step (database s)\<rparr>
          in (s, save_point_due s now_sec))"

section \<open>The environment of a command\<close>

text \<open>
  \<open>now_ms i\<close> and \<open>now_s i\<close> are the readings of the millisecond and of the second clock that the
  command makes at its \<open>i\<close>-th place that reads one; \<open>save_calls\<close> answers the calls of a save, \<open>forked\<close>
  is what \<^verbatim>\<open>fork\<close> returns, with \<open>fork_error\<close> the text of its error.
\<close>

record env =
  now_ms :: "nat \<Rightarrow> i64"
  now_s :: "nat \<Rightarrow> i64"
  save_calls :: save_env
  forked :: int
  fork_error :: string

text \<open>No text of an error holds a line end.\<close>

definition clean_save :: "save_env \<Rightarrow> bool" where
  "clean_save e \<longleftrightarrow>
     (\<forall>m. open_failure e = Some m \<or> rename_failure e = Some m \<or> IoErr m \<in> set (io_script e) \<longrightarrow>
        find_crlf m = None)"

definition env_ok :: "env \<Rightarrow> bool" where
  "env_ok e \<longleftrightarrow>
     clean_save (save_calls e) \<and> find_crlf (fork_error e) = None"

text \<open>A command that runs within one millisecond, and no call fails.\<close>

definition at_time :: "i64 \<Rightarrow> env" where
  "at_time t =
     \<lparr>now_ms = (\<lambda>_. t), now_s = (\<lambda>_. t div 1000),
      save_calls =
        \<lparr>each_ms = t, visit_ms = (\<lambda>_. (t, t)), open_failure = None, io_script = [], rename_failure = None\<rparr>,
      forked = 77, fork_error = []\<rparr>"

lemma at_time_simps [simp]: "env_ok (at_time t)" "now_ms (at_time t) n = t" "now_s (at_time t) n = t div 1000"
  by (simp_all add: env_ok_def clean_save_def at_time_def)

section \<open>Handlers\<close>

text \<open>
  A handler gets the elements of the command array, the command name included. Those that reach
  the database only (all string and key commands) are lifted to the server.
\<close>

type_synonym db_handler = "env \<Rightarrow> resp_value list \<Rightarrow> keva_db \<times> connection \<Rightarrow> keva_db \<times> connection"

type_synonym handler = "env \<Rightarrow> resp_value list \<Rightarrow> server \<times> connection \<Rightarrow> server \<times> connection"

definition on_db :: "db_handler \<Rightarrow> handler" where
  "on_db h e args sc =
     (case h e args (database (fst sc), snd sc) of (db, c) \<Rightarrow> ((fst sc)\<lparr>database := db\<rparr>, c))"

text \<open>\<^verbatim>\<open>args[i].str\<close>; the registry's arity check keeps \<open>i\<close> inside the array.\<close>

definition arg_str :: "resp_value list \<Rightarrow> nat \<Rightarrow> string" where
  "arg_str args i = (if i < length args then rv_str (args ! i) else [])"

subsection \<open>The contract\<close>

definition one_reply :: "connection \<Rightarrow> connection \<Rightarrow> bool" where
  "one_reply c c' \<longleftrightarrow>
     (\<exists>v. lines_ok v \<and> c' = (append_response c (wire v))\<lparr>conn_state := conn_state c'\<rparr>) \<and>
     conn_state c' \<in> {conn_state c, WriteOnly}"

definition db_handler_ok :: "db_handler \<Rightarrow> nat \<Rightarrow> bool" where
  "db_handler_ok h arity \<longleftrightarrow>
     (\<forall>e args db c db' c'. db_inv db \<longrightarrow> arity \<le> length args \<longrightarrow> h e args (db, c) = (db', c') \<longrightarrow>
        db_inv db' \<and> one_reply c c')"

definition handler_ok :: "handler \<Rightarrow> nat \<Rightarrow> bool" where
  "handler_ok h arity \<longleftrightarrow>
     (\<forall>e args s c s' c'. db_inv (database s) \<longrightarrow> env_ok e \<longrightarrow> arity \<le> length args \<longrightarrow>
        h e args (s, c) = (s', c') \<longrightarrow> db_inv (database s') \<and> config s' = config s \<and> one_reply c c')"

lemma handler_ok_on_db: "db_handler_ok h n \<Longrightarrow> handler_ok (on_db h) n"
  by (fastforce simp: db_handler_ok_def handler_ok_def on_db_def split: prod.splits)

lemma db_handler_okI:
  assumes "\<And>e args db c db' c'. db_inv db \<Longrightarrow> n \<le> length args \<Longrightarrow> h e args (db, c) = (db', c') \<Longrightarrow>
    db_inv db' \<and> one_reply c c'"
  shows "db_handler_ok h n"
  using assms by (simp add: db_handler_ok_def)

text \<open>The same for the commands whose third word is a number.\<close>

lemma db_handler_okI_number:
  assumes "\<And>e args db c db' c' ec n k. db_inv db \<Longrightarrow> h e args (db, c) = (db', c') \<Longrightarrow>
    from_chars (arg_str args 2) = (ec, n, k) \<Longrightarrow> db_inv db' \<and> one_reply c c'"
  shows "db_handler_ok h m"
proof (rule db_handler_okI)
  fix e args db c db' c'
  assume "db_inv db" "h e args (db, c) = (db', c')"
  then show "db_inv db' \<and> one_reply c c'" by (cases "from_chars (arg_str args 2)") (rule assms)
qed

named_theorems replies \<open>the encoder's primitives append one value\<close>

lemma one_reply_append: "lines_ok v \<Longrightarrow> one_reply c (append_response c (wire v))"
  unfolding one_reply_def by (intro conjI exI [of _ v]) (simp_all add: append_response_def)

lemma reply_ok [replies]: "one_reply c (resp_ok c)"
  and reply_nil [replies]: "one_reply c (resp_nil c)"
  and reply_bulk [replies]: "one_reply c (resp_bulk_string c s)"
  and reply_int [replies]: "in_i64 n \<Longrightarrow> one_reply c (resp_integer c n)"
  and reply_simple [replies]: "find_crlf m = None \<Longrightarrow> one_reply c (resp_simple_string c m)"
  unfolding reply_wire by (rule one_reply_append; simp)+

lemma no_crlf_prefix: "find_crlf m = None \<Longrightarrow> CR \<notin> set p \<Longrightarrow> find_crlf (p @ m) = None"
proof (induction p)
  case (Cons x p)
  then show ?case by (cases "p @ m") auto
qed simp

lemma reply_error [replies]: "find_crlf m = None \<Longrightarrow> one_reply c (resp_error c m)"
  and reply_wrong_type [replies]: "find_crlf m = None \<Longrightarrow> one_reply c (resp_wrong_type c m)"
proof -
  assume m: "find_crlf m = None"
  have "find_crlf (''ERR '' @ m) = None" "find_crlf (''WRONGTYPE '' @ m) = None"
    by (rule no_crlf_prefix [OF m]; simp)+
  then show "one_reply c (resp_error c m)" "one_reply c (resp_wrong_type c m)"
    unfolding reply_wire by (intro one_reply_append; simp)+
qed

text \<open>A header followed by as many bulk strings or nils as it announces is one array.\<close>

lemma one_reply_array:
  assumes "\<forall>v\<in>set vs. lines_ok v" "n = wrap_i64 (int (length vs))"
  shows "one_reply c (append_response (resp_array_header c n) (concat (map wire vs)))"
proof -
  have "append_response (resp_array_header c n) (concat (map wire vs)) = append_response c (wire (RespArray vs))"
    by (simp add: resp_array_header_bytes assms(2))
  moreover have "one_reply c (append_response c (wire (RespArray vs)))"
    using assms(1) by (intro one_reply_append) simp
  ultimately show ?thesis by (simp only:)
qed

lemma one_reply_frame:
  assumes "one_reply c c'"
  shows "read_buf c' = read_buf c" "read_pos c' = read_pos c" "write_pos c' = write_pos c"
    "client_id c' = client_id c" "\<exists>v. lines_ok v \<and> write_buf c' = write_buf c @ wire v"
proof -
  obtain v where v: "lines_ok v" "c' = (append_response c (wire v))\<lparr>conn_state := conn_state c'\<rparr>"
    using assms by (auto simp: one_reply_def)
  show "read_buf c' = read_buf c" "read_pos c' = read_pos c" "write_pos c' = write_pos c"
    "client_id c' = client_id c" by (subst v(2), simp)+
  have "write_buf c' = write_buf c @ wire v" by (subst v(2)) simp
  with v(1) show "\<exists>v. lines_ok v \<and> write_buf c' = write_buf c @ wire v" by blast
qed

lemma server_cron_inv:
  "db_inv (database s) \<Longrightarrow> db_inv (database (fst (server_cron draws ms secs s)))"
  "config (fst (server_cron draws ms secs s)) = config s"
  using active_cycle_inv [of "database s" draws ms]
  by (cases "active_expire_cycle draws ms (database s)"; simp add: server_cron_def Let_def db_rehash_step_facts)+

section \<open>Properties\<close>

lemma finite_vals: "db_inv db \<Longrightarrow> finite (dom (vals db))"
  using index.finite_dom [OF db_invD(1)] by (simp add: vals_def [abs_def] dom_def)

lemma ttls_sub_vals: "db_inv db \<Longrightarrow> dom (ttls db) \<subseteq> dom (vals db)"
  by (auto simp: db_inv_def ttls_def vals_def [abs_def] dom_def)

lemma card_without:
  assumes "finite A" "S \<subseteq> A"
  shows "card (A - S) + card S = card A"
  using assms card_Diff_subset [OF finite_subset [OF assms(2,1)] assms(2)] card_mono [OF assms] by simp

text \<open>C32. The periodic task removes expired keys and nothing else: there is a set of keys, all past their
  deadline, such that the values and the deadlines afterwards are those from before without these keys;
  so the database invariant and every live value at the current time or later are kept, and DBSIZE goes
  down and the expiry counter of INFO goes up by exactly the number of removed keys (the latter if the
  tables have at most 2 to the 64 buckets). The commands counter, the dirty counter, the configuration,
  the disk and the time of the last save are untouched. The task is visible to clients through what it
  removed: an expired key counts for DBSIZE and DEL and has a TTL of zero until then.\<close>

theorem server_cron_removes_only_dead:
  assumes "db_inv (database s)" "server_cron draws now secs s = (s', due)"
  shows "db_inv (database s') \<and> (\<forall>t\<ge>now. live (database s') t = live (database s) t) \<and>
    (\<exists>S. S \<subseteq> dom (ttls (database s)) \<and> (\<forall>k\<in>S. dead (database s) now k) \<and>
       vals (database s') = vals (database s) |` (- S) \<and> ttls (database s') = ttls (database s) |` (- S) \<and>
       dbsize (database s') + card S = dbsize (database s) \<and>
       (fits (database s) \<longrightarrow> expired_keys (stats s') = expired_keys (stats s) + word_of_nat (card S))) \<and>
    total_commands_processed (stats s') = total_commands_processed (stats s) \<and>
    dirty_keys s' = dirty_keys s \<and> config s' = config s \<and> disk s' = disk s \<and> last_save_time s' = last_save_time s"
proof -
  obtain db n where a: "active_expire_cycle draws now (database s) = (db, n)" by fastforce
  obtain S where S: "\<forall>k\<in>S. dead (database s) now k" "S \<subseteq> dom (ttls (database s))" "fits (database s) \<longrightarrow> n = card S" "db_inv db"
    "vals db = vals (database s) |` (- S)" "ttls db = ttls (database s) |` (- S)"
    using active_cycle_facts [OF assms(1) a] by blast
  have s': "database s' = db_rehash_step db" "dirty_keys s' = dirty_keys s" "config s' = config s"
    "total_commands_processed (stats s') = total_commands_processed (stats s)"
    "expired_keys (stats s') = expired_keys (stats s) + word_of_nat n" "disk s' = disk s" "last_save_time s' = last_save_time s"
    using assms(2) a by (auto simp: server_cron_def Let_def)
  note r = db_rehash_step_facts [OF S(4)]
  have "same_from now (database s) (db_rehash_step db)"
    using S r by (intro live_remove_dead [of _ _ S]) auto
  moreover have "card (dom (vals (database s)) - S) + card S = card (dom (vals (database s)))"
    using S(2) ttls_sub_vals [OF assms(1)] finite_vals [OF assms(1)] by (intro card_without) auto
  then have "dbsize (database s') + card S = dbsize (database s)"
    using S(5) r s'(1) dbsize_facts [OF assms(1)] by (simp add: dbsize_facts Diff_eq Int_commute)
  ultimately show ?thesis
    using S r s' by (auto simp: same_from_def)
qed

lemma server_cron_removes_only_dead_witness:
  "live (database (fst (server_cron ((0, 0), (1, 1), (2, 2)) 7 0
     ((server_init Map.empty default_config 0)\<lparr>database := sample_db\<rparr>)))) 9 ''b'' = Some (canonical_int ''y'')"
proof -
  let ?s = "(server_init Map.empty default_config 0)\<lparr>database := sample_db\<rparr>"
  obtain s' due where c: "server_cron ((0, 0), (1, 1), (2, 2)) 7 0 ?s = (s', due)" by fastforce
  have "db_inv (database ?s)" by (simp add: sample_db_facts)
  from server_cron_removes_only_dead [OF this c] show ?thesis
    by (simp add: c) (simp add: live_def dead_def sample_db_facts)
qed

end
