(* ===== verification/StringCmd.thy ===== *)
theory StringCmd
  imports Server
begin

text \<open>
  The string commands (\<^verbatim>\<open>src/command/handlers/string_cmd.cpp\<close>), one definition per handler, and
  what each does to the values and deadlines of the database and to the reply buffer.

  The two accessors below read a payload as the handlers do; on an object whose payload does not
  match its encoding the code would be undefined, and the model yields zero or the empty text. The
  database invariant excludes such objects.
\<close>

section \<open>Reading string objects\<close>

definition int_payload :: "keva_object \<Rightarrow> i64" where
  "int_payload ob = (case integer_value ob of Some i \<Rightarrow> i | None \<Rightarrow> 0)"

definition view_payload :: "keva_object \<Rightarrow> string" where
  "view_payload ob = (case obj_string_view ob of Some s \<Rightarrow> s | None \<Rightarrow> [])"

text \<open>
  The text of a string object in either encoding: \<^verbatim>\<open>get_string_value\<close>, and the same lines written
  out in GET, GETSET, MGET, APPEND and STRLEN.
\<close>

definition get_string_value :: "keva_object \<Rightarrow> string" where
  "get_string_value ob =
     (if obj_encoding ob = enc_code EncInt then to_chars (int_payload ob) else view_payload ob)"

definition is_string :: "keva_object \<Rightarrow> bool" where
  "is_string ob \<longleftrightarrow> obj_type ob = type_code ObjString"

definition wrong_kind :: string where
  "wrong_kind = ''Operation against a key holding the wrong kind of value''"

definition not_integer :: string where
  "not_integer = ''value is not an integer or out of range''"

definition would_overflow :: string where
  "would_overflow = ''increment or decrement would overflow''"

lemma get_string_content [simp]: "object_wf ob \<Longrightarrow> get_string_value ob = content ob"
  using wf_content_int [of ob] wf_content_view [of ob] wf_int [of ob]
  by (auto simp: get_string_value_def int_payload_def view_payload_def integer_value_def)

lemma is_string_wf [simp]: "object_wf ob \<Longrightarrow> is_string ob"
  by (simp add: is_string_def wf_type)

section \<open>SET\<close>

text \<open>The loop over the optional arguments: \<open>None\<close> is the error reply.\<close>

function set_options ::
    "resp_value list \<Rightarrow> nat \<Rightarrow> i64 \<Rightarrow> bool \<Rightarrow> bool \<Rightarrow> (i64 \<times> bool \<times> bool) option" where
  "set_options args i expire_ms nx xx =
     (if i < length args then
        let opt = to_upper (arg_str args i)
        in if opt = ''EX'' \<and> i + 1 < length args then
             (case from_chars (arg_str args (i + 1)) of
                (ec, secs, _) \<Rightarrow>
                  if ec \<noteq> ErrcOk \<or> secs \<le> 0 then None
                  else set_options args (i + 2) (wrap_i64 (secs * 1000)) nx xx)
           else if opt = ''PX'' \<and> i + 1 < length args then
             (case from_chars (arg_str args (i + 1)) of
                (ec, ms, _) \<Rightarrow>
                  if ec \<noteq> ErrcOk \<or> ms \<le> 0 then None else set_options args (i + 2) ms nx xx)
           else if opt = ''NX'' then set_options args (i + 1) expire_ms True xx
           else if opt = ''XX'' then set_options args (i + 1) expire_ms nx True
           else set_options args (i + 1) expire_ms nx xx
      else Some (expire_ms, nx, xx))"
  by pat_completeness auto
termination
  by (relation "measure (\<lambda>(args, i, _). length args - i)") auto

declare set_options.simps [simp del]

definition handle_set :: db_handler where
  "handle_set e args dc =
     (case dc of (db, conn) \<Rightarrow>
        let key = arg_str args 1; val = arg_str args 2
        in case set_options args 3 (- 1) False False of
             None \<Rightarrow> (db, resp_error conn ''invalid expire time in 'set' command'')
           | Some (expire_ms, nx, xx) \<Rightarrow>
               (case db_exists db key (now_ms e 0) (now_s e 0) of
                  (db, key_exists) \<Rightarrow>
                    if nx \<and> key_exists then (db, resp_nil conn)
                    else if xx \<and> \<not> key_exists then (db, resp_nil conn)
                    else
                      let ob = create_string val (lru_clock_current (now_s e 1));
                          db = db_set db key ob;
                          db = (if 0 < expire_ms
                                then set_expire db key (wrap_i64 (now_ms e 1 + expire_ms)) else db)
                      in (db, resp_ok conn)))"

section \<open>GET, GETSET, MSET, MGET, APPEND, STRLEN\<close>

definition handle_get :: db_handler where
  "handle_get e args dc =
     (case dc of (db, conn) \<Rightarrow>
        case db_get db (arg_str args 1) (now_ms e 0) (now_s e 0) of
          (db, None) \<Rightarrow> (db, resp_nil conn)
        | (db, Some ob) \<Rightarrow>
            if \<not> is_string ob then (db, resp_wrong_type conn wrong_kind)
            else (db, resp_bulk_string conn (get_string_value ob)))"

definition handle_getset :: db_handler where
  "handle_getset e args dc =
     (case dc of (db, conn) \<Rightarrow>
        let key = arg_str args 1; val = arg_str args 2
        in case db_get db key (now_ms e 0) (now_s e 0) of
             (db, old) \<Rightarrow>
               if (case old of None \<Rightarrow> False | Some ob \<Rightarrow> \<not> is_string ob)
               then (db, resp_wrong_type conn wrong_kind)
               else
                 let conn = (case old of None \<Rightarrow> resp_nil conn
                             | Some ob \<Rightarrow> resp_bulk_string conn (get_string_value ob))
                 in (db_set db key (create_string val (lru_clock_current (now_s e 1))), conn))"

function mset_loop :: "env \<Rightarrow> resp_value list \<Rightarrow> nat \<Rightarrow> keva_db \<Rightarrow> keva_db" where
  "mset_loop e args i db =
     (if i < length args
      then mset_loop e args (i + 2)
             (db_set db (arg_str args i) (create_string (arg_str args (i + 1)) (lru_clock_current (now_s e i))))
      else db)"
  by pat_completeness auto
termination
  by (relation "measure (\<lambda>(e, args, i, db). length args - i)") auto

declare mset_loop.simps [simp del]

definition handle_mset :: db_handler where
  "handle_mset e args dc =
     (case dc of (db, conn) \<Rightarrow>
        if length args mod 2 \<noteq> 1 then (db, resp_error conn ''wrong number of arguments for MSET'')
        else (mset_loop e args 1 db, resp_ok conn))"

function mget_loop :: "env \<Rightarrow> resp_value list \<Rightarrow> nat \<Rightarrow> keva_db \<times> connection \<Rightarrow> keva_db \<times> connection" where
  "mget_loop e args i dc =
     (if i < length args
      then mget_loop e args (i + 1)
             (case dc of (db, conn) \<Rightarrow>
                case db_get db (arg_str args i) (now_ms e i) (now_s e i) of
                  (db, None) \<Rightarrow> (db, resp_nil conn)
                | (db, Some ob) \<Rightarrow>
                    if \<not> is_string ob then (db, resp_nil conn)
                    else (db, resp_bulk_string conn (get_string_value ob)))
      else dc)"
  by pat_completeness auto
termination
  by (relation "measure (\<lambda>(e, args, i, dc). length args - i)") auto

declare mget_loop.simps [simp del]

definition handle_mget :: db_handler where
  "handle_mget e args dc =
     (case dc of (db, conn) \<Rightarrow>
        mget_loop e args 1 (db, resp_array_header conn (wrap_i64 (int (length args - 1)))))"

definition handle_append :: db_handler where
  "handle_append e args dc =
     (case dc of (db, conn) \<Rightarrow>
        let key = arg_str args 1; val = arg_str args 2
        in case db_get db key (now_ms e 0) (now_s e 0) of
             (db, None) \<Rightarrow>
               (db_set db key (create_string val (lru_clock_current (now_s e 1))),
                resp_integer conn (wrap_i64 (int (length val))))
           | (db, Some ob) \<Rightarrow>
               if \<not> is_string ob then (db, resp_wrong_type conn wrong_kind)
               else
                 let current = get_string_value ob @ val
                 in (db_set db key (create_string current (lru_clock_current (now_s e 1))),
                     resp_integer conn (wrap_i64 (int (length current)))))"

definition handle_strlen :: db_handler where
  "handle_strlen e args dc =
     (case dc of (db, conn) \<Rightarrow>
        case db_get db (arg_str args 1) (now_ms e 0) (now_s e 0) of
          (db, None) \<Rightarrow> (db, resp_integer conn 0)
        | (db, Some ob) \<Rightarrow>
            if \<not> is_string ob then (db, resp_wrong_type conn wrong_kind)
            else (db, resp_integer conn (wrap_i64 (int (length (get_string_value ob))))))"

section \<open>Counters\<close>

text \<open>\<^verbatim>\<open>get_integer_obj\<close>: \<open>None\<close> is its \<^verbatim>\<open>false\<close>.\<close>

definition get_integer_obj :: "keva_object option \<Rightarrow> i64 option" where
  "get_integer_obj ob =
     (case ob of
        None \<Rightarrow> Some 0
      | Some ob \<Rightarrow>
          if \<not> is_string ob then None
          else if obj_encoding ob = enc_code EncInt then Some (int_payload ob)
          else case obj_buffer ob of Some b \<Rightarrow> try_parse_int b | None \<Rightarrow> None)"

definition handle_incr :: db_handler where
  "handle_incr e args dc =
     (case dc of (db, conn) \<Rightarrow>
        let key = arg_str args 1
        in case db_get db key (now_ms e 0) (now_s e 0) of
             (db, ob) \<Rightarrow>
               (case get_integer_obj ob of
                  None \<Rightarrow> (db, resp_error conn not_integer)
                | Some current \<Rightarrow>
                    if current = LLONG_MAX then (db, resp_error conn would_overflow)
                    else
                      let new_val = wrap_i64 (current + 1)
                      in (db_set db key (create_string_from_int new_val (lru_clock_current (now_s e 1))),
                          resp_integer conn new_val)))"

definition handle_incrby :: db_handler where
  "handle_incrby e args dc =
     (case dc of (db, conn) \<Rightarrow>
        let key = arg_str args 1
        in case from_chars (arg_str args 2) of
             (ec, increment, _) \<Rightarrow>
               if ec \<noteq> ErrcOk then (db, resp_error conn not_integer)
               else case db_get db key (now_ms e 0) (now_s e 0) of
                      (db, ob) \<Rightarrow>
                        (case get_integer_obj ob of
                           None \<Rightarrow> (db, resp_error conn not_integer)
                         | Some current \<Rightarrow>
                             if (0 < increment \<and> wrap_i64 (LLONG_MAX - increment) < current) \<or>
                                (increment < 0 \<and> current < wrap_i64 (LLONG_MIN - increment))
                             then (db, resp_error conn would_overflow)
                             else
                               let new_val = wrap_i64 (current + increment)
                               in (db_set db key
                                     (create_string_from_int new_val (lru_clock_current (now_s e 1))),
                                   resp_integer conn new_val)))"

definition handle_decr :: db_handler where
  "handle_decr e args dc =
     (case dc of (db, conn) \<Rightarrow>
        let key = arg_str args 1
        in case db_get db key (now_ms e 0) (now_s e 0) of
             (db, ob) \<Rightarrow>
               (case get_integer_obj ob of
                  None \<Rightarrow> (db, resp_error conn not_integer)
                | Some current \<Rightarrow>
                    if current = LLONG_MIN then (db, resp_error conn would_overflow)
                    else
                      let new_val = wrap_i64 (current - 1)
                      in (db_set db key (create_string_from_int new_val (lru_clock_current (now_s e 1))),
                          resp_integer conn new_val)))"

text \<open>Without an overflow check. The overflow of a signed subtraction is undefined in C++; \<open>wrap_i64\<close>
  stands for its result, and no property relies on it.\<close>

definition handle_decrby :: db_handler where
  "handle_decrby e args dc =
     (case dc of (db, conn) \<Rightarrow>
        let key = arg_str args 1
        in case from_chars (arg_str args 2) of
             (ec, decrement, _) \<Rightarrow>
               if ec \<noteq> ErrcOk then (db, resp_error conn not_integer)
               else case db_get db key (now_ms e 0) (now_s e 0) of
                      (db, ob) \<Rightarrow>
                        (case get_integer_obj ob of
                           None \<Rightarrow> (db, resp_error conn not_integer)
                         | Some current \<Rightarrow>
                             let new_val = wrap_i64 (current - decrement)
                             in (db_set db key
                                   (create_string_from_int new_val (lru_clock_current (now_s e 1))),
                                 resp_integer conn new_val)))"

section \<open>SETEX, PSETEX, SETNX\<close>

definition handle_setex :: db_handler where
  "handle_setex e args dc =
     (case dc of (db, conn) \<Rightarrow>
        let key = arg_str args 1; val = arg_str args 3
        in case from_chars (arg_str args 2) of
             (ec, seconds, _) \<Rightarrow>
               if ec \<noteq> ErrcOk \<or> seconds \<le> 0
               then (db, resp_error conn ''invalid expire time in 'setex' command'')
               else
                 let db = db_set db key (create_string val (lru_clock_current (now_s e 0)));
                     db = set_expire db key (wrap_i64 (now_ms e 0 + wrap_i64 (seconds * 1000)))
                 in (db, resp_ok conn))"

definition handle_psetex :: db_handler where
  "handle_psetex e args dc =
     (case dc of (db, conn) \<Rightarrow>
        let key = arg_str args 1; val = arg_str args 3
        in case from_chars (arg_str args 2) of
             (ec, ms, _) \<Rightarrow>
               if ec \<noteq> ErrcOk \<or> ms \<le> 0
               then (db, resp_error conn ''invalid expire time in 'psetex' command'')
               else
                 let db = db_set db key (create_string val (lru_clock_current (now_s e 0)));
                     db = set_expire db key (wrap_i64 (now_ms e 0 + ms))
                 in (db, resp_ok conn))"

definition handle_setnx :: db_handler where
  "handle_setnx e args dc =
     (case dc of (db, conn) \<Rightarrow>
        let key = arg_str args 1; val = arg_str args 2
        in case db_exists db key (now_ms e 0) (now_s e 0) of
             (db, there) \<Rightarrow>
               if there then (db, resp_integer conn 0)
               else (db_set db key (create_string val (lru_clock_current (now_s e 1))), resp_integer conn 1))"

end
