(* ===== verification/StringProofs.thy ===== *)
theory StringProofs
  imports StringCmd
begin

text \<open>
  The string commands against the abstract database: values, deadlines, and what a client sees.
\<close>

section \<open>Shared facts\<close>

lemma in_i64_from_chars: "from_chars s = (ErrcOk, v, n) \<Longrightarrow> in_i64 v"
  by (rule from_chars_in_i64)

lemma no_crlf_msgs [simp]:
  "find_crlf wrong_kind = None" "find_crlf not_integer = None" "find_crlf would_overflow = None"
  by (simp_all add: wrong_kind_def not_integer_def would_overflow_def)

lemma object_wf_int_range: "object_wf ob \<Longrightarrow> payload ob = PInt i \<Longrightarrow> in_i64 i"
  by (simp add: object_wf_def)

text \<open>The integer a string command sees in a value.\<close>

definition int_value :: "string option \<Rightarrow> i64 option" where
  "int_value v = (case v of None \<Rightarrow> Some 0 | Some s \<Rightarrow> try_parse_int (buf_of_sv s))"

lemma get_integer_content:
  assumes "r = None \<or> (\<exists>ob. r = Some ob \<and> object_wf ob)"
  shows "get_integer_obj r = int_value (map_option content r)"
proof (cases r)
  case (Some ob)
  then have wf: "object_wf ob" using assms by auto
  note c = try_parse_content [OF wf]
  show ?thesis
  proof (cases "payload ob")
    case (PInt i)
    then show ?thesis
      using wf c Some wf_int [OF wf]
      by (auto simp: get_integer_obj_def int_value_def int_payload_def integer_value_def)
  next
    case (PBuf b)
    then have "try_parse_int b = None" "obj_encoding ob \<noteq> enc_code EncInt"
      using wf wf_int [OF wf] by (auto simp: object_wf_def)
    then show ?thesis
      using wf c Some PBuf by (simp add: get_integer_obj_def int_value_def integer_value_def obj_buffer_def)
  qed
qed (simp add: get_integer_obj_def int_value_def)

lemma int_value_range: "int_value v = Some i \<Longrightarrow> in_i64 i"
  by (auto simp: int_value_def split: option.splits dest: try_parse_int_range)

lemma int_value_to_chars [simp]: "in_i64 i \<Longrightarrow> int_value (Some (to_chars i)) = Some i"
  by (simp add: int_value_def)

text \<open>One lazy lookup, as all commands make it.\<close>

lemma lookup_facts:
  assumes "db_inv db" "db_get db k now secs = (db1, r)"
  shows "db_inv db1" "r = None \<or> (\<exists>ob. r = Some ob \<and> object_wf ob)" "map_option content r = live db now k"
    "same_from now db db1" "(vals db1)(k := x) = (vals db)(k := x)" "(ttls db1)(k := y) = (ttls db)(k := y)"
    "live db now k \<noteq> None \<Longrightarrow> vals db1 = vals db \<and> ttls db1 = ttls db"
proof -
  note g = db_get_facts [OF assms]
  show "db_inv db1" by (rule g(1))
  show "r = None \<or> (\<exists>ob. r = Some ob \<and> object_wf ob)" using g(5) by (cases r) auto
  show "map_option content r = live db now k" using g(4,5) by (cases r) auto
  show "same_from now db db1" by (rule live_after_lazy [OF g(2,3)])
  show "(vals db1)(k := x) = (vals db)(k := x)" "(ttls db1)(k := y) = (ttls db)(k := y)"
    using g(2,3) by (auto simp: fun_eq_iff)
  show "live db now k \<noteq> None \<Longrightarrow> vals db1 = vals db \<and> ttls db1 = ttls db"
    using g(2,3) by (auto simp: live_def split: if_splits)
qed

lemma exists_facts:
  assumes "db_inv db" "db_exists db k now secs = (db1, b)"
  shows "db_inv db1" "b \<longleftrightarrow> live db now k \<noteq> None"
    "same_from now db db1" "(vals db1)(k := x) = (vals db)(k := x)" "(ttls db1)(k := y) = (ttls db)(k := y)"
    "live db now k \<noteq> None \<Longrightarrow> vals db1 = vals db \<and> ttls db1 = ttls db"
proof -
  obtain r where g: "db_get db k now secs = (db1, r)" and b: "b = (r \<noteq> None)"
    using assms(2) by (auto simp: db_exists_def split: prod.splits)
  note l = lookup_facts [OF assms(1) g]
  show "b \<longleftrightarrow> live db now k \<noteq> None" unfolding b l(3) [symmetric] by simp
  show "db_inv db1" "same_from now db db1" "(vals db1)(k := x) = (vals db)(k := x)"
    "(ttls db1)(k := y) = (ttls db)(k := y)"
    "live db now k \<noteq> None \<Longrightarrow> vals db1 = vals db \<and> ttls db1 = ttls db"
    using l by simp_all
qed

lemma set_options_range:
  "set_options args i x nx xx = Some (x', nx', xx') \<Longrightarrow> in_i64 x \<Longrightarrow> in_i64 x'"
proof (induction args i x nx xx rule: set_options.induct)
  case (1 args i x nx xx)
  obtain ec v n where fc: "from_chars (arg_str args (i + 1)) = (ec, v, n)"
    by (cases "from_chars (arg_str args (i + 1))")
  show ?case
  proof (cases "i < length args")
    case True
    consider "to_upper (arg_str args i) = ''EX''" "i + 1 < length args"
      | "to_upper (arg_str args i) = ''PX''" "i + 1 < length args"
      | "\<not> (to_upper (arg_str args i) = ''EX'' \<and> i + 1 < length args)"
        "\<not> (to_upper (arg_str args i) = ''PX'' \<and> i + 1 < length args)" by blast
    then show ?thesis
    proof cases
      case a: 1
      then have "set_options args (i + 2) (wrap_i64 (v * 1000)) nx xx = Some (x', nx', xx')" "ec = ErrcOk" "0 < v"
        using 1(6) True fc by (auto simp: set_options.simps [of args i] Let_def split: if_splits)
      then show ?thesis using 1(1) [OF True refl _ fc [symmetric] refl] a by auto
    next
      case a: 2
      then have s: "set_options args (i + 2) v nx xx = Some (x', nx', xx')" "ec = ErrcOk" "0 < v"
        using 1(6) True fc by (auto simp: set_options.simps [of args i] Let_def split: if_splits)
      moreover have "in_i64 v" using fc s(2) by (auto intro: from_chars_in_i64)
      ultimately show ?thesis using 1(2) [OF True refl _ _ fc [symmetric] refl] a by auto
    next
      case a: 3
      then show ?thesis
        using 1(3) [OF True refl a] 1(4) [OF True refl a] 1(5) [OF True refl a] 1(6,7) True
        by (auto simp: set_options.simps [of args i] Let_def split: if_splits)
    qed
  qed (use 1(6,7) in \<open>simp add: set_options.simps [of args i]\<close>)
qed

section \<open>SET\<close>

lemma handle_set_cases:
  assumes inv: "db_inv db" and h: "handle_set e args (db, c) = (db', c')"
  defines "k \<equiv> arg_str args 1" and "v \<equiv> arg_str args 2" and "now \<equiv> now_ms e 0"
  shows "db_inv db'"
    and "set_options args 3 (- 1) False False = None \<Longrightarrow>
      db' = db \<and> c' = resp_error c ''invalid expire time in 'set' command''"
    and "set_options args 3 (- 1) False False = Some (x, nx, xx) \<Longrightarrow>
      (nx \<and> live db now k \<noteq> None) \<or> (xx \<and> live db now k = None) \<Longrightarrow>
      same_from now db db' \<and> c' = resp_nil c"
    and "set_options args 3 (- 1) False False = Some (x, nx, xx) \<Longrightarrow>
      \<not> ((nx \<and> live db now k \<noteq> None) \<or> (xx \<and> live db now k = None)) \<Longrightarrow>
      vals db' = (vals db)(k \<mapsto> canonical_int v) \<and>
      ttls db' = (ttls db)(k := if 0 < x then Some (wrap_i64 (now_ms e 1 + x)) else None) \<and> c' = resp_ok c"
proof -
  obtain db1 b where ex: "db_exists db k now (now_s e 0) = (db1, b)" by fastforce
  note l = exists_facts [OF inv ex]
  let ?ob = "create_string v (lru_clock_current (now_s e 1))"
  let ?db2 = "db_set db1 k ?ob"
  note s = db_set_facts [OF l(1) object_wf_create_string, of k v "lru_clock_current (now_s e 1)"]
  have sv: "vals ?db2 k \<noteq> None" unfolding s(2) by simp
  note se = set_expire_facts [OF s(1) sv in_i64_wrap]
  have all: "db_inv db' \<and>
    (set_options args 3 (- 1) False False = None \<longrightarrow>
      db' = db \<and> c' = resp_error c ''invalid expire time in 'set' command'') \<and>
    (\<forall>x nx xx. set_options args 3 (- 1) False False = Some (x, nx, xx) \<longrightarrow>
      (if (nx \<and> live db now k \<noteq> None) \<or> (xx \<and> live db now k = None)
       then same_from now db db' \<and> c' = resp_nil c
       else vals db' = (vals db)(k \<mapsto> canonical_int v) \<and>
         ttls db' = (ttls db)(k := if 0 < x then Some (wrap_i64 (now_ms e 1 + x)) else None) \<and> c' = resp_ok c))"
  proof (cases "set_options args 3 (- 1) False False")
    case None
    then show ?thesis using h inv by (simp add: handle_set_def)
  next
    case (Some t)
    obtain x nx xx where t: "t = (x, nx, xx)" by (cases t)
    show ?thesis
    proof (cases "(nx \<and> b) \<or> (xx \<and> \<not> b)")
      case True
      then have "db' = db1" "c' = resp_nil c"
        using h Some t ex by (auto simp: handle_set_def k_def now_def Let_def split: if_splits)
      then show ?thesis using Some t True l by auto
    next
      case False
      then have db': "db' = (if 0 < x then set_expire ?db2 k (wrap_i64 (now_ms e 1 + x)) else ?db2)"
        and c': "c' = resp_ok c"
        using h Some t ex by (auto simp: handle_set_def k_def v_def now_def Let_def split: if_splits)
      have "vals db' = (vals db)(k \<mapsto> canonical_int v)"
        using s se l(4) by (simp add: db')
      moreover have "ttls db' = (ttls db)(k := if 0 < x then Some (wrap_i64 (now_ms e 1 + x)) else None)"
        using s se l(5) by (simp add: db')
      moreover have "db_inv db'" using s se by (simp add: db')
      ultimately show ?thesis using Some t False l(2) c' by auto
    qed
  qed
  then show "db_inv db'"
    and "set_options args 3 (- 1) False False = None \<Longrightarrow>
      db' = db \<and> c' = resp_error c ''invalid expire time in 'set' command''"
    and "set_options args 3 (- 1) False False = Some (x, nx, xx) \<Longrightarrow>
      (nx \<and> live db now k \<noteq> None) \<or> (xx \<and> live db now k = None) \<Longrightarrow>
      same_from now db db' \<and> c' = resp_nil c"
    and "set_options args 3 (- 1) False False = Some (x, nx, xx) \<Longrightarrow>
      \<not> ((nx \<and> live db now k \<noteq> None) \<or> (xx \<and> live db now k = None)) \<Longrightarrow>
      vals db' = (vals db)(k \<mapsto> canonical_int v) \<and>
      ttls db' = (ttls db)(k := if 0 < x then Some (wrap_i64 (now_ms e 1 + x)) else None) \<and> c' = resp_ok c"
    by auto
qed

section \<open>GET, GETSET, APPEND, STRLEN\<close>

definition bulk_or_nil :: "string option \<Rightarrow> resp_value" where
  "bulk_or_nil v = (case v of None \<Rightarrow> RespNil | Some s \<Rightarrow> BulkString s)"

lemma lines_ok_bulk_or_nil [simp]: "lines_ok (bulk_or_nil v)"
  by (simp add: bulk_or_nil_def split: option.split)

lemma handle_get_eq:
  assumes inv: "db_inv db" and h: "handle_get e args (db, c) = (db', c')"
  shows "db_inv db'" "same_from (now_ms e 0) db db'"
    "c' = append_response c (wire (bulk_or_nil (live db (now_ms e 0) (arg_str args 1))))"
proof -
  obtain db1 r where g: "db_get db (arg_str args 1) (now_ms e 0) (now_s e 0) = (db1, r)" by fastforce
  note l = lookup_facts [OF inv g]
  have "db' = db1 \<and> c' = append_response c (wire (bulk_or_nil (map_option content r)))"
    using h g l(2) by (auto simp: handle_get_def bulk_or_nil_def reply_wire split: option.splits)
  then show "db_inv db'" "same_from (now_ms e 0) db db'"
    "c' = append_response c (wire (bulk_or_nil (live db (now_ms e 0) (arg_str args 1))))"
    using l by simp_all
qed

lemma handle_getset_eq:
  assumes inv: "db_inv db" and h: "handle_getset e args (db, c) = (db', c')"
  shows "db_inv db'" "vals db' = (vals db)(arg_str args 1 \<mapsto> canonical_int (arg_str args 2))"
    "ttls db' = (ttls db)(arg_str args 1 := None)"
    "c' = append_response c (wire (bulk_or_nil (live db (now_ms e 0) (arg_str args 1))))"
proof -
  let ?k = "arg_str args 1"
  obtain db1 r where g: "db_get db ?k (now_ms e 0) (now_s e 0) = (db1, r)" by fastforce
  note l = lookup_facts [OF inv g]
  let ?ob = "create_string (arg_str args 2) (lru_clock_current (now_s e 1))"
  have "db' = db_set db1 ?k ?ob \<and> c' = append_response c (wire (bulk_or_nil (map_option content r)))"
    using h g l(2) by (auto simp: handle_getset_def bulk_or_nil_def reply_wire split: option.splits)
  then show "db_inv db'" "vals db' = (vals db)(?k \<mapsto> canonical_int (arg_str args 2))"
    "ttls db' = (ttls db)(?k := None)" "c' = append_response c (wire (bulk_or_nil (live db (now_ms e 0) ?k)))"
    using l db_set_facts [OF l(1) object_wf_create_string] by simp_all
qed

definition text_or_empty :: "string option \<Rightarrow> string" where
  "text_or_empty v = (case v of None \<Rightarrow> [] | Some s \<Rightarrow> s)"

lemma handle_append_eq:
  assumes inv: "db_inv db" and h: "handle_append e args (db, c) = (db', c')"
  defines "k \<equiv> arg_str args 1"
  defines "new \<equiv> text_or_empty (live db (now_ms e 0) k) @ arg_str args 2"
  shows "db_inv db'" "vals db' = (vals db)(k \<mapsto> canonical_int new)" "ttls db' = (ttls db)(k := None)"
    "c' = append_response c (wire (RespInteger (wrap_i64 (int (length new)))))"
proof -
  obtain db1 r where g: "db_get db k (now_ms e 0) (now_s e 0) = (db1, r)" by fastforce
  note l = lookup_facts [OF inv g]
  let ?ob = "create_string (text_or_empty (map_option content r) @ arg_str args 2) (lru_clock_current (now_s e 1))"
  have "db' = db_set db1 k ?ob \<and>
      c' = append_response c (wire (RespInteger (wrap_i64 (int (length (text_or_empty (map_option content r) @ arg_str args 2))))))"
    using h g l(2)
    by (auto simp: handle_append_def k_def text_or_empty_def reply_wire Let_def split: option.splits)
  then show "db_inv db'" "vals db' = (vals db)(k \<mapsto> canonical_int new)" "ttls db' = (ttls db)(k := None)"
    "c' = append_response c (wire (RespInteger (wrap_i64 (int (length new)))))"
    using l db_set_facts [OF l(1) object_wf_create_string] by (simp_all add: new_def)
qed

lemma handle_strlen_eq:
  assumes inv: "db_inv db" and h: "handle_strlen e args (db, c) = (db', c')"
  shows "db_inv db'" "same_from (now_ms e 0) db db'"
    "c' = append_response c (wire (RespInteger (wrap_i64 (int (length
       (text_or_empty (live db (now_ms e 0) (arg_str args 1))))))))"
proof -
  obtain db1 r where g: "db_get db (arg_str args 1) (now_ms e 0) (now_s e 0) = (db1, r)" by fastforce
  note l = lookup_facts [OF inv g]
  have "db' = db1 \<and> c' = append_response c (wire (RespInteger (wrap_i64 (int (length
      (text_or_empty (map_option content r)))))))"
    using h g l(2) by (auto simp: handle_strlen_def text_or_empty_def reply_wire split: option.splits)
  then show "db_inv db'" "same_from (now_ms e 0) db db'"
    "c' = append_response c (wire (RespInteger (wrap_i64 (int (length
       (text_or_empty (live db (now_ms e 0) (arg_str args 1))))))))"
    using l by simp_all
qed

section \<open>Counters\<close>

text \<open>What adding \<open>delta\<close> to a counter should do: the exact sum, or an error and no visible change.\<close>

definition counter_spec ::
    "keva_db \<Rightarrow> i64 \<Rightarrow> string \<Rightarrow> int \<Rightarrow> connection \<Rightarrow> keva_db \<Rightarrow> connection \<Rightarrow> bool" where
  "counter_spec db now k delta c db' c' \<longleftrightarrow>
     (case int_value (live db now k) of
        None \<Rightarrow> same_from now db db' \<and> c' = resp_error c not_integer
      | Some i \<Rightarrow>
          if in_i64 (i + delta)
          then vals db' = (vals db)(k \<mapsto> to_chars (i + delta)) \<and> ttls db' = (ttls db)(k := None) \<and>
               c' = append_response c (wire (RespInteger (i + delta)))
          else same_from now db db' \<and> c' = resp_error c would_overflow)"

lemma overflow_check:
  assumes "in_i64 i" "in_i64 d"
  shows "(0 < d \<and> wrap_i64 (LLONG_MAX - d) < i) \<or> (d < 0 \<and> i < wrap_i64 (LLONG_MIN - d)) \<longleftrightarrow> \<not> in_i64 (i + d)"
proof -
  have "0 < d \<Longrightarrow> in_i64 (LLONG_MAX - d)" "d < 0 \<Longrightarrow> in_i64 (LLONG_MIN - d)"
    using assms by (auto simp: in_i64_def LLONG_MAX_def LLONG_MIN_def)
  then show ?thesis using assms by (auto simp: in_i64_def)
qed

lemma store_counter:
  assumes "db_inv db1" "in_i64 n" "(vals db1)(k := Some (to_chars n)) = (vals db)(k := Some (to_chars n))"
    "(ttls db1)(k := None) = (ttls db)(k := None)"
  shows "db_inv (db_set db1 k (create_string_from_int n l))"
    "vals (db_set db1 k (create_string_from_int n l)) = (vals db)(k \<mapsto> to_chars n)"
    "ttls (db_set db1 k (create_string_from_int n l)) = (ttls db)(k := None)"
  using db_set_facts [OF assms(1) object_wf_create_int [OF assms(2)]] assms(3,4) by simp_all

lemma handle_incr_eq:
  assumes inv: "db_inv db" and h: "handle_incr e args (db, c) = (db', c')"
  shows "db_inv db' \<and> counter_spec db (now_ms e 0) (arg_str args 1) 1 c db' c'"
proof -
  let ?k = "arg_str args 1"
  obtain db1 r where g: "db_get db ?k (now_ms e 0) (now_s e 0) = (db1, r)" by fastforce
  note l = lookup_facts [OF inv g]
  have iv: "get_integer_obj r = int_value (live db (now_ms e 0) ?k)"
    using get_integer_content [OF l(2)] l(3) by simp
  show ?thesis
  proof (cases "int_value (live db (now_ms e 0) ?k)")
    case None
    then show ?thesis using h g iv l by (simp add: handle_incr_def counter_spec_def)
  next
    case (Some i)
    then have i: "in_i64 i" by (rule int_value_range)
    show ?thesis
    proof (cases "i = LLONG_MAX")
      case True
      then have "\<not> in_i64 (i + 1)" by (simp add: in_i64_def)
      then show ?thesis using h g iv l Some True by (simp add: handle_incr_def counter_spec_def)
    next
      case False
      then have n: "in_i64 (i + 1)" using i by (simp add: in_i64_def)
      then show ?thesis
        using h g iv l Some False store_counter [OF l(1) n l(5,6)]
        by (auto simp: handle_incr_def counter_spec_def Let_def reply_wire)
    qed
  qed
qed

lemma handle_decr_eq:
  assumes inv: "db_inv db" and h: "handle_decr e args (db, c) = (db', c')"
  shows "db_inv db' \<and> counter_spec db (now_ms e 0) (arg_str args 1) (- 1) c db' c'"
proof -
  let ?k = "arg_str args 1"
  obtain db1 r where g: "db_get db ?k (now_ms e 0) (now_s e 0) = (db1, r)" by fastforce
  note l = lookup_facts [OF inv g]
  have iv: "get_integer_obj r = int_value (live db (now_ms e 0) ?k)"
    using get_integer_content [OF l(2)] l(3) by simp
  show ?thesis
  proof (cases "int_value (live db (now_ms e 0) ?k)")
    case None
    then show ?thesis using h g iv l by (simp add: handle_decr_def counter_spec_def)
  next
    case (Some i)
    then have i: "in_i64 i" by (rule int_value_range)
    show ?thesis
    proof (cases "i = LLONG_MIN")
      case True
      then have "\<not> in_i64 (i - 1)" by (simp add: in_i64_def)
      then show ?thesis using h g iv l Some True by (simp add: handle_decr_def counter_spec_def)
    next
      case False
      then have n: "in_i64 (i - 1)" using i by (simp add: in_i64_def)
      then show ?thesis
        using h g iv l Some False store_counter [OF l(1) n l(5,6)]
        by (auto simp: handle_decr_def counter_spec_def Let_def reply_wire)
    qed
  qed
qed

lemma handle_incrby_eq:
  assumes inv: "db_inv db" and h: "handle_incrby e args (db, c) = (db', c')"
    and fc: "from_chars (arg_str args 2) = (ec, d, n)"
  shows "db_inv db' \<and> (if ec = ErrcOk then counter_spec db (now_ms e 0) (arg_str args 1) d c db' c'
    else db' = db \<and> c' = resp_error c not_integer)"
proof (cases "ec = ErrcOk")
  case False
  then show ?thesis using h fc inv by (simp add: handle_incrby_def)
next
  case True
  then have d: "in_i64 d" using fc by (auto intro: from_chars_in_i64)
  let ?k = "arg_str args 1"
  obtain db1 r where g: "db_get db ?k (now_ms e 0) (now_s e 0) = (db1, r)" by fastforce
  note l = lookup_facts [OF inv g]
  have iv: "get_integer_obj r = int_value (live db (now_ms e 0) ?k)"
    using get_integer_content [OF l(2)] l(3) by simp
  show ?thesis
  proof (cases "int_value (live db (now_ms e 0) ?k)")
    case None
    then show ?thesis using h g iv l fc True by (simp add: handle_incrby_def counter_spec_def)
  next
    case (Some i)
    then have i: "in_i64 i" by (rule int_value_range)
    note ov = overflow_check [OF i d]
    show ?thesis
    proof (cases "in_i64 (i + d)")
      case False
      then show ?thesis using h g iv l Some fc True ov by (auto simp: handle_incrby_def counter_spec_def Let_def)
    next
      case n: True
      then have "db' = db_set db1 ?k (create_string_from_int (i + d) (lru_clock_current (now_s e 1)))"
        "c' = resp_integer c (i + d)"
        using h g iv Some fc True ov by (auto simp: handle_incrby_def Let_def split: if_splits)
      then show ?thesis
        using store_counter [OF l(1) n l(5,6)] Some n True by (simp add: counter_spec_def reply_wire)
    qed
  qed
qed

lemma handle_decrby_eq:
  assumes inv: "db_inv db" and h: "handle_decrby e args (db, c) = (db', c')"
    and fc: "from_chars (arg_str args 2) = (ec, d, n)"
  shows "db_inv db' \<and>
    (if ec \<noteq> ErrcOk then db' = db \<and> c' = resp_error c not_integer
     else case int_value (live db (now_ms e 0) (arg_str args 1)) of
            None \<Rightarrow> same_from (now_ms e 0) db db' \<and> c' = resp_error c not_integer
          | Some i \<Rightarrow>
              vals db' = (vals db)(arg_str args 1 \<mapsto> to_chars (wrap_i64 (i - d))) \<and>
              ttls db' = (ttls db)(arg_str args 1 := None) \<and>
              c' = append_response c (wire (RespInteger (wrap_i64 (i - d)))))"
proof (cases "ec = ErrcOk")
  case False
  then show ?thesis using h fc inv by (simp add: handle_decrby_def)
next
  case True
  let ?k = "arg_str args 1"
  obtain db1 r where g: "db_get db ?k (now_ms e 0) (now_s e 0) = (db1, r)" by fastforce
  note l = lookup_facts [OF inv g]
  have iv: "get_integer_obj r = int_value (live db (now_ms e 0) ?k)"
    using get_integer_content [OF l(2)] l(3) by simp
  show ?thesis
  proof (cases "int_value (live db (now_ms e 0) ?k)")
    case None
    then show ?thesis using h g iv l fc True by (simp add: handle_decrby_def)
  next
    case (Some i)
    then show ?thesis
      using h g iv fc True store_counter [OF l(1) in_i64_wrap l(5,6)]
      by (auto simp: handle_decrby_def Let_def reply_wire)
  qed
qed

lemma counter_spec_reply: "counter_spec db now k d c db' c' \<Longrightarrow> one_reply c c'"
  by (auto simp: counter_spec_def replies one_reply_append simp del: wire.simps split: option.splits if_splits)

section \<open>MSET, MGET\<close>

text \<open>The pairs of an MSET from index \<open>i\<close> on, in order.\<close>

function arg_pairs :: "resp_value list \<Rightarrow> nat \<Rightarrow> (string \<times> string) list" where
  "arg_pairs args i =
     (if i < length args then (arg_str args i, arg_str args (i + 1)) # arg_pairs args (i + 2) else [])"
  by pat_completeness auto
termination
  by (relation "measure (\<lambda>(args, i). length args - i)") auto

declare arg_pairs.simps [simp del]

definition canon_pairs :: "(string \<times> string) list \<Rightarrow> (string \<times> string) list" where
  "canon_pairs kvs = map (\<lambda>(k, v). (k, canonical_int v)) kvs"

lemma mset_loop_facts:
  assumes "db_inv db"
  shows "db_inv (mset_loop e args i db)"
    "vals (mset_loop e args i db) = vals db ++ map_of (rev (canon_pairs (arg_pairs args i)))"
    "ttls (mset_loop e args i db) = ttls db |` (- fst ` set (arg_pairs args i))"
proof -
  have "db_inv (mset_loop e args i db) \<and>
    vals (mset_loop e args i db) = vals db ++ map_of (rev (canon_pairs (arg_pairs args i))) \<and>
    ttls (mset_loop e args i db) = ttls db |` (- fst ` set (arg_pairs args i))"
    using assms
  proof (induction e args i db rule: mset_loop.induct)
    case (1 e args i db)
    show ?case
    proof (cases "i < length args")
      case False
      then show ?thesis
        using 1(2) by (simp add: mset_loop.simps [of e args i] arg_pairs.simps [of args i] canon_pairs_def restrict_map_def)
    next
      case True
      let ?ob = "create_string (arg_str args (i + 1)) (lru_clock_current (now_s e i))"
      note s = db_set_facts [OF 1(2) object_wf_create_string, of "arg_str args i" "arg_str args (i + 1)"
          "lru_clock_current (now_s e i)"]
      have step: "mset_loop e args i db = mset_loop e args (i + 2) (db_set db (arg_str args i) ?ob)"
        and pairs: "arg_pairs args i = (arg_str args i, arg_str args (i + 1)) # arg_pairs args (i + 2)"
        using True by (simp_all add: mset_loop.simps [of e args i] arg_pairs.simps [of args i])
      show ?thesis
        using 1(1) [OF True s(1)] s(2,3) unfolding step pairs
        by (auto simp: canon_pairs_def fun_eq_iff restrict_map_def map_add_def split: option.splits)
    qed
  qed
  then show "db_inv (mset_loop e args i db)"
    "vals (mset_loop e args i db) = vals db ++ map_of (rev (canon_pairs (arg_pairs args i)))"
    "ttls (mset_loop e args i db) = ttls db |` (- fst ` set (arg_pairs args i))" by blast+
qed

text \<open>
  MGET reads its keys one after the other; reading number \<open>i\<close> happens at \<open>now_ms e i\<close>. With clock
  readings that do not go back, every key is answered as of the state before the command.
\<close>

lemma mget_loop_facts:
  assumes "db_inv db" "\<forall>j\<ge>i. t \<le> now_ms e j" "mget_loop e args i (db, c) = (db', c')"
  shows "db_inv db'" "\<forall>u. (\<forall>j\<ge>i. j < length args \<longrightarrow> now_ms e j \<le> u) \<longrightarrow> live db' u = live db u"
    "(\<forall>j k. i \<le> j \<longrightarrow> j \<le> k \<longrightarrow> now_ms e j \<le> now_ms e k) \<Longrightarrow>
     c' = append_response c (concat (map (\<lambda>j. wire (bulk_or_nil (live db (now_ms e j) (arg_str args j))))
       [i..<length args]))"
proof -
  have "db_inv db' \<and> (\<forall>u. (\<forall>j\<ge>i. j < length args \<longrightarrow> now_ms e j \<le> u) \<longrightarrow> live db' u = live db u) \<and>
    ((\<forall>j k. i \<le> j \<longrightarrow> j \<le> k \<longrightarrow> now_ms e j \<le> now_ms e k) \<longrightarrow>
     c' = append_response c (concat (map (\<lambda>j. wire (bulk_or_nil (live db (now_ms e j) (arg_str args j))))
       [i..<length args])))"
    using assms
  proof (induction "length args - i" arbitrary: i db c)
    case 0
    then show ?case by (simp add: mget_loop.simps [of e args i])
  next
    case (Suc n)
    then have lt: "i < length args" by simp
    obtain db1 r where g: "db_get db (arg_str args i) (now_ms e i) (now_s e i) = (db1, r)" by fastforce
    note l = lookup_facts [OF Suc.prems(1) g]
    let ?c = "append_response c (wire (bulk_or_nil (live db (now_ms e i) (arg_str args i))))"
    have rec: "mget_loop e args (i + 1) (db1, ?c) = (db', c')"
      using Suc.prems(3) lt g l(2) unfolding l(3) [symmetric]
      by (auto simp: mget_loop.simps [of e args i] bulk_or_nil_def reply_wire split: option.splits)
    have "n = length args - (i + 1)" using Suc.hyps(2) by simp
    from Suc.hyps(1) [OF this l(1) _ rec] Suc.prems(2)
    have ih: "db_inv db'" "\<And>u. (\<forall>j\<ge>i + 1. j < length args \<longrightarrow> now_ms e j \<le> u) \<Longrightarrow> live db' u = live db1 u"
      "(\<forall>j k. i + 1 \<le> j \<longrightarrow> j \<le> k \<longrightarrow> now_ms e j \<le> now_ms e k) \<Longrightarrow>
       c' = append_response ?c (concat (map (\<lambda>j. wire (bulk_or_nil (live db1 (now_ms e j) (arg_str args j))))
         [i + 1..<length args]))" by auto
    show ?case
    proof (intro conjI allI impI)
      show "db_inv db'" by (rule ih(1))
      show "live db' u = live db u" if "\<forall>j\<ge>i. j < length args \<longrightarrow> now_ms e j \<le> u" for u
        using ih(2) [of u] that lt l(4) by (simp add: same_from_def)
      assume mono: "\<forall>j k. i \<le> j \<longrightarrow> j \<le> k \<longrightarrow> now_ms e j \<le> now_ms e k"
      then have "live db1 (now_ms e j) = live db (now_ms e j)" if "i + 1 \<le> j" for j
        using l(4) that by (simp add: same_from_def)
      then have eq: "map (\<lambda>j. wire (bulk_or_nil (live db1 (now_ms e j) (arg_str args j)))) [i + 1..<length args]
          = map (\<lambda>j. wire (bulk_or_nil (live db (now_ms e j) (arg_str args j)))) [i + 1..<length args]"
        by (intro map_cong) auto
      have c': "c' = append_response ?c (concat (map (\<lambda>j. wire (bulk_or_nil (live db1 (now_ms e j) (arg_str args j))))
          [i + 1..<length args]))" using ih(3) mono by auto
      show "c' = append_response c (concat (map (\<lambda>j. wire (bulk_or_nil (live db (now_ms e j) (arg_str args j))))
          [i..<length args]))"
        unfolding c' eq using lt by (simp add: upt_conv_Cons)
    qed
  qed
  then show "db_inv db'" "\<forall>u. (\<forall>j\<ge>i. j < length args \<longrightarrow> now_ms e j \<le> u) \<longrightarrow> live db' u = live db u"
    "(\<forall>j k. i \<le> j \<longrightarrow> j \<le> k \<longrightarrow> now_ms e j \<le> now_ms e k) \<Longrightarrow>
     c' = append_response c (concat (map (\<lambda>j. wire (bulk_or_nil (live db (now_ms e j) (arg_str args j))))
       [i..<length args]))" by blast+
qed

text \<open>Whatever the clock does, the loop appends one bulk string or nil per key.\<close>

lemma mget_loop_reply:
  assumes "db_inv db" "mget_loop e args i (db, c) = (db', c')"
  shows "db_inv db' \<and> (\<exists>vs. length vs = length args - i \<and> (\<forall>v\<in>set vs. lines_ok v) \<and>
    c' = append_response c (concat (map wire vs)))"
  using assms
proof (induction "length args - i" arbitrary: i db c)
  case 0
  then show ?case by (intro conjI exI [of _ "[]"]) (simp_all add: mget_loop.simps [of e args i])
next
  case (Suc n)
  then have lt: "i < length args" by simp
  obtain db1 r where g: "db_get db (arg_str args i) (now_ms e i) (now_s e i) = (db1, r)" by fastforce
  note l = lookup_facts [OF Suc.prems(1) g]
  let ?v = "bulk_or_nil (live db (now_ms e i) (arg_str args i))"
  have rec: "mget_loop e args (i + 1) (db1, append_response c (wire ?v)) = (db', c')"
    using Suc.prems(2) lt g l(2) unfolding l(3) [symmetric]
    by (auto simp: mget_loop.simps [of e args i] bulk_or_nil_def reply_wire split: option.splits)
  have "n = length args - (i + 1)" using Suc.hyps(2) by simp
  from Suc.hyps(1) [OF this l(1) rec] obtain vs where
    vs: "db_inv db'" "length vs = length args - (i + 1)" "\<forall>v\<in>set vs. lines_ok v"
    "c' = append_response (append_response c (wire ?v)) (concat (map wire vs))" by blast
  then show ?case using lt by (intro conjI exI [of _ "?v # vs"]) auto
qed

section \<open>SETEX, PSETEX, SETNX\<close>

lemma set_with_deadline:
  assumes "db_inv db"
  shows "db_inv (set_expire (db_set db k (create_string v l)) k (wrap_i64 t))"
    "vals (set_expire (db_set db k (create_string v l)) k (wrap_i64 t)) = (vals db)(k \<mapsto> canonical_int v)"
    "ttls (set_expire (db_set db k (create_string v l)) k (wrap_i64 t)) = (ttls db)(k \<mapsto> wrap_i64 t)"
proof -
  note s = db_set_facts [OF assms object_wf_create_string, of k v l]
  have "vals (db_set db k (create_string v l)) k \<noteq> None" by (simp add: s(2))
  note se = set_expire_facts [OF s(1) this in_i64_wrap, of t]
  show "db_inv (set_expire (db_set db k (create_string v l)) k (wrap_i64 t))"
    "vals (set_expire (db_set db k (create_string v l)) k (wrap_i64 t)) = (vals db)(k \<mapsto> canonical_int v)"
    "ttls (set_expire (db_set db k (create_string v l)) k (wrap_i64 t)) = (ttls db)(k \<mapsto> wrap_i64 t)"
    using s se by simp_all
qed

lemma handle_setex_eq:
  assumes inv: "db_inv db" and h: "handle_setex e args (db, c) = (db', c')"
    and fc: "from_chars (arg_str args 2) = (ec, secs, n)"
  shows "db_inv db' \<and>
    (if ec \<noteq> ErrcOk \<or> secs \<le> 0 then db' = db \<and> c' = resp_error c ''invalid expire time in 'setex' command''
     else vals db' = (vals db)(arg_str args 1 \<mapsto> canonical_int (arg_str args 3)) \<and>
       ttls db' = (ttls db)(arg_str args 1 \<mapsto> wrap_i64 (now_ms e 0 + wrap_i64 (secs * 1000))) \<and>
       c' = resp_ok c)"
  using h fc set_with_deadline [OF inv] inv by (auto simp: handle_setex_def Let_def split: if_splits)

lemma handle_psetex_eq:
  assumes inv: "db_inv db" and h: "handle_psetex e args (db, c) = (db', c')"
    and fc: "from_chars (arg_str args 2) = (ec, ms, n)"
  shows "db_inv db' \<and>
    (if ec \<noteq> ErrcOk \<or> ms \<le> 0 then db' = db \<and> c' = resp_error c ''invalid expire time in 'psetex' command''
     else vals db' = (vals db)(arg_str args 1 \<mapsto> canonical_int (arg_str args 3)) \<and>
       ttls db' = (ttls db)(arg_str args 1 \<mapsto> wrap_i64 (now_ms e 0 + ms)) \<and> c' = resp_ok c)"
  using h fc set_with_deadline [OF inv] inv by (auto simp: handle_psetex_def Let_def split: if_splits)

lemma handle_setnx_eq:
  assumes inv: "db_inv db" and h: "handle_setnx e args (db, c) = (db', c')"
  shows "db_inv db' \<and>
    (if live db (now_ms e 0) (arg_str args 1) \<noteq> None
     then vals db' = vals db \<and> ttls db' = ttls db \<and> c' = resp_integer c 0
     else vals db' = (vals db)(arg_str args 1 \<mapsto> canonical_int (arg_str args 2)) \<and>
       ttls db' = (ttls db)(arg_str args 1 := None) \<and> c' = resp_integer c 1)"
proof -
  let ?k = "arg_str args 1"
  obtain db1 b where ex: "db_exists db ?k (now_ms e 0) (now_s e 0) = (db1, b)" by fastforce
  note l = exists_facts [OF inv ex]
  show ?thesis
  proof (cases b)
    case True
    then show ?thesis using h ex l by (simp add: handle_setnx_def)
  next
    case False
    then show ?thesis
      using h ex l db_set_facts [OF l(1) object_wf_create_string] by (auto simp: handle_setnx_def Let_def)
  qed
qed

section \<open>Every string command keeps the contract\<close>

lemma handle_set_ok: "db_handler_ok handle_set 3"
proof (rule db_handler_okI)
  fix e args db c db' c' assume a: "db_inv db" "handle_set e args (db, c) = (db', c')"
  note s = handle_set_cases [OF a]
  show "db_inv db' \<and> one_reply c c'"
  proof (cases "set_options args 3 (- 1) False False")
    case None
    then show ?thesis using s(1,2) by (simp add: reply_error)
  next
    case (Some t)
    obtain x nx xx where "t = (x, nx, xx)" by (cases t)
    with Some have o: "set_options args 3 (- 1) False False = Some (x, nx, xx)" by simp
    show ?thesis using s(1) s(3) [OF o] s(4) [OF o] by (metis reply_nil reply_ok)
  qed
qed

lemma handle_mget_ok: "db_handler_ok handle_mget 2"
proof (rule db_handler_okI)
  fix e args db c db' c' assume a: "db_inv db" "handle_mget e args (db, c) = (db', c')"
  from mget_loop_reply [OF a(1), of e args 1 "resp_array_header c (wrap_i64 (int (length args - 1)))" db' c'] a(2)
  obtain vs where "db_inv db'" "length vs = length args - 1" "\<forall>v\<in>set vs. lines_ok v"
    "c' = append_response (resp_array_header c (wrap_i64 (int (length args - 1)))) (concat (map wire vs))"
    by (auto simp: handle_mget_def)
  then show "db_inv db' \<and> one_reply c c'" using one_reply_array [of vs] by simp
qed

lemma string_handlers_ok:
  "db_handler_ok handle_set 3" "db_handler_ok handle_get 2" "db_handler_ok handle_getset 3"
  "db_handler_ok handle_mset 3" "db_handler_ok handle_mget 2" "db_handler_ok handle_append 3"
  "db_handler_ok handle_strlen 2" "db_handler_ok handle_incr 2" "db_handler_ok handle_incrby 3"
  "db_handler_ok handle_decr 2" "db_handler_ok handle_decrby 3" "db_handler_ok handle_setex 4"
  "db_handler_ok handle_psetex 4" "db_handler_ok handle_setnx 3"
proof -
  show "db_handler_ok handle_set 3" "db_handler_ok handle_mget 2" by (fact handle_set_ok handle_mget_ok)+
  show "db_handler_ok handle_get 2"
    using handle_get_eq by (intro db_handler_okI) (metis lines_ok_bulk_or_nil one_reply_append)
  show "db_handler_ok handle_getset 3"
    using handle_getset_eq by (intro db_handler_okI) (metis lines_ok_bulk_or_nil one_reply_append)
  show "db_handler_ok handle_append 3"
    using handle_append_eq by (intro db_handler_okI) (metis in_i64_wrap lines_ok.simps(3) one_reply_append)
  show "db_handler_ok handle_strlen 2"
    using handle_strlen_eq by (intro db_handler_okI) (metis in_i64_wrap lines_ok.simps(3) one_reply_append)
  show "db_handler_ok handle_incr 2"
    using handle_incr_eq counter_spec_reply by (intro db_handler_okI) blast
  show "db_handler_ok handle_decr 2"
    using handle_decr_eq counter_spec_reply by (intro db_handler_okI) blast
  show "db_handler_ok handle_setnx 3"
    using handle_setnx_eq by (intro db_handler_okI) (metis in_i64_0 in_i64_1 reply_int)
  show "db_handler_ok handle_mset 3"
    by (intro db_handler_okI) (auto simp: handle_mset_def mset_loop_facts replies split: if_splits)
  show "db_handler_ok handle_incrby 3"
    by (rule db_handler_okI_number, drule (2) handle_incrby_eq)
      (use counter_spec_reply in \<open>auto simp: replies split: if_splits\<close>)
  show "db_handler_ok handle_decrby 3"
    by (rule db_handler_okI_number, drule (2) handle_decrby_eq)
      (auto simp: replies one_reply_append simp del: wire.simps split: if_splits option.splits)
  show "db_handler_ok handle_setex 4"
    by (rule db_handler_okI_number, drule (2) handle_setex_eq) (auto simp: replies split: if_splits)
  show "db_handler_ok handle_psetex 4"
    by (rule db_handler_okI_number, drule (2) handle_psetex_eq) (auto simp: replies split: if_splits)
qed

end
