(* ===== verification/Rdb.thy ===== *)
theory Rdb
  imports RdbCodec StringProofs
begin

text \<open>
  Snapshots: \<^verbatim>\<open>rdb_save_sync\<close>, \<^verbatim>\<open>rdb_save_background\<close>, \<^verbatim>\<open>on_bgsave_child_exit\<close>
  (\<^verbatim>\<open>src/persistence/rdb_save.cpp\<close>) and \<^verbatim>\<open>rdb_load\<close> (\<^verbatim>\<open>rdb_load.cpp\<close>). The file system is a map
  from paths to contents; what \<^verbatim>\<open>open\<close>, \<^verbatim>\<open>rename\<close>, \<^verbatim>\<open>fork\<close> and the clock answer is an argument.
\<close>

section \<open>Saving\<close>

definition saved_value :: "keva_object option \<Rightarrow> string" where
  "saved_value val =
     (case val of
        None \<Rightarrow> []
      | Some ob \<Rightarrow> if obj_encoding ob = enc_code EncInt then to_chars (int_payload ob) else view_payload ob)"

definition save_entry ::
    "i64 \<times> i64 \<Rightarrow> string \<times> keva_object option \<Rightarrow> rdb_writer \<times> keva_db \<times> status
     \<Rightarrow> rdb_writer \<times> keva_db \<times> status" where
  "save_entry ts ent st =
     (case st of (w, db, result) \<Rightarrow>
        if \<not> st_ok result then (w, db, result)
        else case db_pttl db (fst ent) (fst ts) of (db, ttl_ms) \<Rightarrow>
          let expiry = (\<lambda>w. if 0 \<le> ttl_ms
                then and_then (write_u8 RDB_OPCODE_EXPIRE w) (write_i64 (wrap_i64 (snd ts + ttl_ms)))
                else (w, success))
          in case and_then (and_then (and_then (expiry w) (write_u8 RDB_TYPE_STRING)) (write_string (fst ent)))
                    (write_string (saved_value (snd ent))) of
               (w, result) \<Rightarrow> (w, db, result))"

fun save_entries ::
    "(nat \<Rightarrow> i64 \<times> i64) \<Rightarrow> nat \<Rightarrow> (string \<times> keva_object option) list \<Rightarrow> rdb_writer \<times> keva_db \<times> status
     \<Rightarrow> rdb_writer \<times> keva_db \<times> status" where
  "save_entries clk i [] st = st"
| "save_entries clk i (ent # ents) st = save_entries clk (i + 1) ents (save_entry (clk i) ent st)"

definition save_database_to_writer :: "save_env \<Rightarrow> rdb_writer \<Rightarrow> keva_db \<Rightarrow> rdb_writer \<times> keva_db \<times> status" where
  "save_database_to_writer e w db =
     (case and_then (write_u8 RDB_OPCODE_DB w) (write_u32 (word_of_int (db_id db))) of
        (w, s) \<Rightarrow>
          if \<not> st_ok s then (w, db, s)
          else save_entries (visit_ms e) 0 (db_for_each db (each_ms e)) (w, db, success))"

definition tmp_path :: "string \<Rightarrow> string" where
  "tmp_path filename = filename @ ''.tmp''"

definition rdb_save_sync :: "save_env \<Rightarrow> string \<Rightarrow> keva_db \<Rightarrow> files \<Rightarrow> keva_db \<times> files \<times> status" where
  "rdb_save_sync e filename db fs =
     (case open_failure e of
        Some m \<Rightarrow> (db, fs, io_error m)
      | None \<Rightarrow>
          let w = writer_new (io_script e);
              (w, db, s) =
                (case and_then (write_bytes RDB_MAGIC w) (write_u16 RDB_VERSION) of
                   (w, s) \<Rightarrow> if st_ok s then save_database_to_writer e w db else (w, db, s));
              (w, s) = and_then (and_then (w, s) (write_u8 RDB_OPCODE_EOF)) write_crc64;
              fs = fs(tmp_path filename \<mapsto> w_file w)
          in if \<not> st_ok s then (db, fs, s)
             else case rename_failure e of
                    Some m \<Rightarrow> (db, fs, io_error m)
                  | None \<Rightarrow> (db, fs(tmp_path filename := None, filename \<mapsto> w_file w), success))"

text \<open>
  \<^verbatim>\<open>fork\<close> answers a negative number on failure (with the text of the error). The child saves the
  database as it is at this moment and exits with 0 or 1; the parent's database is untouched.
\<close>

definition bgsave_child :: "save_env \<Rightarrow> string \<Rightarrow> keva_db \<Rightarrow> files \<Rightarrow> files \<times> int" where
  "bgsave_child e filename db fs =
     (case rdb_save_sync e filename db fs of (_, fs, s) \<Rightarrow> (fs, if st_ok s then 0 else 1))"

definition rdb_save_background :: "int \<Rightarrow> string \<Rightarrow> int \<Rightarrow> int \<times> status" where
  "rdb_save_background pid errtext out_child_pid =
     (if pid < 0 then (out_child_pid, io_error errtext) else (pid, success))"

text \<open>
  \<^verbatim>\<open>on_bgsave_child_exit\<close>: \<open>reaped\<close> is the answer of \<^verbatim>\<open>waitpid\<close>, \<open>exited\<close> and \<open>code\<close> what the
  wait status says.
\<close>

definition on_bgsave_child_exit :: "int \<Rightarrow> bool \<Rightarrow> int \<Rightarrow> i64 \<Rightarrow> server \<Rightarrow> server" where
  "on_bgsave_child_exit reaped exited code unix_time srv =
     (if reaped \<le> 0 then srv
      else let srv = srv\<lparr>bgsave_child_pid := - 1\<rparr>
           in if exited \<and> code = 0 then srv\<lparr>last_save_time := unix_time, dirty_keys := 0\<rparr> else srv)"

section \<open>Loading\<close>

lemma read_bytes_length: "read_bytes k r = (r', Inr bs) \<Longrightarrow> length (r_file r) = length (r_file r') + k"
  using read_bytes_sound [of k r r' bs] by (auto simp: ate_def)

lemma read_then_InrD:
  "read_then x f = (r', Inr v) \<Longrightarrow> \<exists>r1 u. x = (r1, Inr u) \<and> f u r1 = (r', Inr v)"
  by (auto simp: read_then_def split: prod.splits sum.splits)

lemma read_lengths:
  "read_u8 r = (r', Inr v1) \<Longrightarrow> length (r_file r') < length (r_file r)"
  "read_u32 r = (r', Inr v4) \<Longrightarrow> length (r_file r') < length (r_file r)"
  "read_i64 r = (r', Inr v8) \<Longrightarrow> length (r_file r') < length (r_file r)"
  by (auto simp: read_u8_def read_u32_def read_i64_def dest!: read_then_InrD read_bytes_length)

lemma read_string_length:
  assumes "read_string r = (r', Inr s)"
  shows "length (r_file r') < length (r_file r)"
proof -
  from assms obtain r1 b where r1: "read_u8 r = (r1, Inr b)"
    unfolding read_string_def by (blast dest: read_then_InrD)
  have "length (r_file r') \<le> length (r_file r1)"
    using assms r1 unfolding read_string_def
    by (auto dest!: read_then_InrD read_bytes_length dest: read_lengths(1,2) split: if_splits)
  then show ?thesis using read_lengths(1) [OF r1] by simp
qed

text \<open>After the expiry opcode: the deadline and the type byte that follows it.\<close>

definition read_expiry :: "rdb_reader \<Rightarrow> (i64 \<times> u8) read_outcome" where
  "read_expiry r = read_then (read_i64 r) (\<lambda>ts r. read_then (read_u8 r) (\<lambda>op r. (r, Inr (ts, op))))"

definition read_pair :: "rdb_reader \<Rightarrow> (string \<times> string) read_outcome" where
  "read_pair r = read_then (read_string r) (\<lambda>key r. read_then (read_string r) (\<lambda>val r. (r, Inr (key, val))))"

lemma read_group_lengths:
  "read_expiry r = (r', Inr x) \<Longrightarrow> length (r_file r') < length (r_file r)"
  "read_pair r = (r', Inr y) \<Longrightarrow> length (r_file r') < length (r_file r)"
  by (auto simp: read_expiry_def read_pair_def dest!: read_then_InrD dest: read_lengths read_string_length)
    (metis less_trans read_lengths(1,3) read_string_length)+

text \<open>
  One turn of the loop of \<^verbatim>\<open>rdb_load\<close>: \<open>None\<close> at the end of the data. \<open>pending_ms\<close> is
  \<^verbatim>\<open>pending_expire\<close>, with \<open>- 1\<close> for none; \<open>clk n\<close> is the reading of the LRU clock for the \<open>n\<close>-th key.
  A deadline is stored whether it has passed or not: the code does not compare it with the time.
\<close>

definition load_turn ::
    "(nat \<Rightarrow> i64) \<Rightarrow> usize \<Rightarrow> i64 \<Rightarrow> keva_db \<Rightarrow> rdb_reader \<Rightarrow> (usize \<times> i64 \<times> keva_db) option read_outcome" where
  "load_turn clk keys_loaded pending_ms db r =
     read_then (read_u8 r) (\<lambda>opcode r.
       if opcode = RDB_OPCODE_EOF then (r, Inr None)
       else if opcode = RDB_OPCODE_DB then
         read_then (read_u32 r) (\<lambda>db_idx r. (r, Inr (Some (keys_loaded, pending_ms, db))))
       else
         read_then (if opcode = RDB_OPCODE_EXPIRE then read_expiry r else (r, Inr (pending_ms, opcode)))
           (\<lambda>(pending_ms, opcode) r.
             if opcode = RDB_TYPE_STRING then
               read_then (read_pair r) (\<lambda>(key, val) r.
                 let db = db_set db key (create_string val (lru_clock_current (clk keys_loaded)))
                 in (r, Inr (Some (keys_loaded + 1, - 1,
                      if pending_ms \<noteq> - 1 then set_expire db key pending_ms else db))))
             else (r, Inr (Some (keys_loaded, pending_ms, db)))))"

lemma load_turn_length:
  "load_turn clk n pending_ms db r = (r', Inr x) \<Longrightarrow> length (r_file r') < length (r_file r)"
  by (auto simp: load_turn_def Let_def dest!: read_then_InrD read_lengths read_group_lengths split: if_splits prod.splits)

text \<open>The loop ends because every turn consumes a byte.\<close>

function load_loop ::
    "(nat \<Rightarrow> i64) \<Rightarrow> usize \<Rightarrow> i64 \<Rightarrow> rdb_reader \<Rightarrow> keva_db \<Rightarrow> rdb_reader \<times> keva_db \<times> (status + usize)" where
  "load_loop clk keys_loaded pending_ms r db =
     (case load_turn clk keys_loaded pending_ms db r of
        (r, Inl e) \<Rightarrow> (r, db, Inl e)
      | (r, Inr None) \<Rightarrow> (r, db, Inr keys_loaded)
      | (r, Inr (Some (keys_loaded, pending_ms, db))) \<Rightarrow> load_loop clk keys_loaded pending_ms r db)"
  by pat_completeness auto
termination
  by (relation "measure (\<lambda>(clk, n, pending_ms, r, db). length (r_file r))")
    (auto dest!: sym [of "(_, _)"] load_turn_length)

declare load_loop.simps [simp del]

record load_env =
  load_open_failure :: "string option"
  load_script :: "io_result list"
  load_clock :: "nat \<Rightarrow> i64"

definition read_header :: "rdb_reader \<Rightarrow> unit read_outcome" where
  "read_header r =
     read_then (read_bytes 4 r) (\<lambda>magic r.
       if magic ! 0 \<noteq> CHR ''K'' \<or> magic ! 1 \<noteq> CHR ''E'' \<or> magic ! 2 \<noteq> CHR ''V'' \<or> magic ! 3 \<noteq> CHR ''A''
       then (r, Inl (proto_error ''Not a valid Keva RDB file (wrong magic bytes)''))
       else read_then (read_u16 r) (\<lambda>version r.
         if RDB_VERSION < version
         then (r, Inl (proto_error ''RDB version is newer than this server supports'')) else (r, Inr ())))"

definition rdb_load :: "load_env \<Rightarrow> string \<Rightarrow> files \<Rightarrow> keva_db \<Rightarrow> keva_db \<times> status" where
  "rdb_load e filename fs db =
     (case load_open_failure e of
        Some m \<Rightarrow> (db, io_error m)
      | None \<Rightarrow>
          case fs filename of
            None \<Rightarrow> (db, not_found)
          | Some bytes \<Rightarrow>
              case read_header (reader_new (load_script e) bytes) of
                (r, Inl s) \<Rightarrow> (db, s)
              | (r, Inr _) \<Rightarrow>
                  case load_loop (load_clock e) 0 (- 1) r db of
                    (r, db, Inl s) \<Rightarrow> (db, s)
                  | (r, db, Inr keys_loaded) \<Rightarrow>
                      case verify_crc64 r of (r, Inl s) \<Rightarrow> (db, s) | (r, Inr _) \<Rightarrow> (db, success))"

text \<open>Step 5 of \<^verbatim>\<open>main\<close>: a snapshot that cannot be loaded is dropped as a whole.\<close>

definition load_at_startup :: "load_env \<Rightarrow> string \<Rightarrow> files \<Rightarrow> keva_db \<Rightarrow> keva_db" where
  "load_at_startup e filename fs db =
     (case rdb_load e filename fs db of
        (db, s) \<Rightarrow> if \<not> st_ok s \<and> \<not> is_not_found s then db_flush db else db)"

end
