(* ===== verification/KeyCmd.thy ===== *)
theory KeyCmd
  imports StringProofs
begin

text \<open>
  The key commands (\<^verbatim>\<open>src/command/handlers/key_cmd.cpp\<close>): deletion, existence, expiry, pattern
  matching over the key space, renaming.
\<close>

section \<open>Patterns\<close>

text \<open>The loop \<^verbatim>\<open>for (i = 0; i <= str.size(); ++i)\<close> of the star case is the disjunction over \<open>i\<close>.\<close>

fun glob_match :: "string \<Rightarrow> string \<Rightarrow> bool" where
  "glob_match [] str = (str = [])"
| "glob_match (p # ps) str =
     (if p = CHR ''*'' then list_ex (\<lambda>i. glob_match ps (drop i str)) [0..<length str + 1]
      else case str of
             [] \<Rightarrow> False
           | c # cs \<Rightarrow> if p = CHR ''?'' \<or> p = c then glob_match ps cs else False)"

text \<open>The meaning of a pattern, one rule per pattern character.\<close>

inductive glob :: "string \<Rightarrow> string \<Rightarrow> bool" where
  glob_nil: "glob [] []"
| glob_star: "glob ps s \<Longrightarrow> glob (CHR ''*'' # ps) (t @ s)"
| glob_any: "glob ps s \<Longrightarrow> glob (CHR ''?'' # ps) (c # s)"
| glob_char: "glob ps s \<Longrightarrow> p \<noteq> CHR ''*'' \<Longrightarrow> glob (p # ps) (p # s)"

inductive_cases glob_nilE: "glob [] s"
inductive_cases glob_consE: "glob (p # ps) s"
inductive_simps glob_nil_iff: "glob [] s"

lemma glob_match_sound: "glob_match ps s \<Longrightarrow> glob ps s"
proof (induction ps s rule: glob_match.induct)
  case (1 s)
  then show ?case by (simp add: glob_nil)
next
  case (2 p ps s)
  show ?case
  proof (cases "p = CHR ''*''")
    case True
    then have "list_ex (\<lambda>i. glob_match ps (drop i s)) [0..<length s + 1]" using 2(3) by (simp del: upt_Suc)
    then obtain i where i: "i \<in> set [0..<length s + 1]" "glob_match ps (drop i s)"
      unfolding list_ex_iff by blast
    have "glob ps (drop i s)" using 2(1) [OF True i] .
    then have "glob (CHR ''*'' # ps) (take i s @ drop i s)" by (rule glob_star)
    then show ?thesis using True by simp
  next
    case False
    then obtain c cs where s: "s = c # cs" "p = CHR ''?'' \<or> p = c" "glob_match ps cs"
      using 2(3) by (cases s) (auto split: if_splits)
    have "glob ps cs" using 2(2) [OF False s(1,2,3)] .
    then show ?thesis using s False by (auto intro: glob_any glob_char)
  qed
qed

lemma glob_match_complete: "glob ps s \<Longrightarrow> glob_match ps s"
proof (induction rule: glob.induct)
  case (glob_star ps s t)
  have "length t \<in> set [0..<length (t @ s) + 1]" by simp
  moreover have "glob_match ps (drop (length t) (t @ s))" using glob_star.IH by simp
  ultimately have "list_ex (\<lambda>i. glob_match ps (drop i (t @ s))) [0..<length (t @ s) + 1]"
    unfolding list_ex_iff by blast
  then show ?case by (simp del: upt_Suc)
qed simp_all

section \<open>Handlers\<close>

function del_loop :: "resp_value list \<Rightarrow> nat \<Rightarrow> keva_db \<Rightarrow> i64 \<Rightarrow> keva_db \<times> i64" where
  "del_loop args i db deleted =
     (if i < length args
      then case db_del db (arg_str args i) of
             (db, existed) \<Rightarrow> del_loop args (i + 1) db (if existed then wrap_i64 (deleted + 1) else deleted)
      else (db, deleted))"
  by pat_completeness auto
termination
  by (relation "measure (\<lambda>(args, i, _). length args - i)") auto

declare del_loop.simps [simp del]

definition handle_del :: db_handler where
  "handle_del e args dc =
     (case dc of (db, conn) \<Rightarrow>
        case del_loop args 1 db 0 of (db, deleted) \<Rightarrow> (db, resp_integer conn deleted))"

function exists_loop :: "env \<Rightarrow> resp_value list \<Rightarrow> nat \<Rightarrow> keva_db \<Rightarrow> i64 \<Rightarrow> keva_db \<times> i64" where
  "exists_loop e args i db cnt =
     (if i < length args
      then case db_exists db (arg_str args i) (now_ms e i) (now_s e i) of
             (db, there) \<Rightarrow> exists_loop e args (i + 1) db (if there then wrap_i64 (cnt + 1) else cnt)
      else (db, cnt))"
  by pat_completeness auto
termination
  by (relation "measure (\<lambda>(e, args, i, _). length args - i)") auto

declare exists_loop.simps [simp del]

definition handle_exists :: db_handler where
  "handle_exists e args dc =
     (case dc of (db, conn) \<Rightarrow>
        case exists_loop e args 1 db 0 of (db, cnt) \<Rightarrow> (db, resp_integer conn cnt))"

text \<open>A type outside the enumeration matches no case of the switch: no reply.\<close>

definition handle_type :: db_handler where
  "handle_type e args dc =
     (case dc of (db, conn) \<Rightarrow>
        case db_peek db (arg_str args 1) (now_ms e 0) of
          (db, None) \<Rightarrow> (db, resp_simple_string conn ''none'')
        | (db, Some ob) \<Rightarrow>
            (db, if obj_type ob = type_code ObjString then resp_simple_string conn ''string''
                 else if obj_type ob = type_code ObjList then resp_simple_string conn ''list''
                 else if obj_type ob = type_code ObjSet then resp_simple_string conn ''set''
                 else if obj_type ob = type_code ObjZSet then resp_simple_string conn ''zset''
                 else if obj_type ob = type_code ObjHash then resp_simple_string conn ''hash''
                 else conn))"

definition handle_expire :: db_handler where
  "handle_expire e args dc =
     (case dc of (db, conn) \<Rightarrow>
        let key = arg_str args 1
        in case from_chars (arg_str args 2) of
             (ec, seconds, _) \<Rightarrow>
               if ec \<noteq> ErrcOk then (db, resp_error conn not_integer)
               else case db_exists db key (now_ms e 0) (now_s e 0) of
                      (db, there) \<Rightarrow>
                        if \<not> there then (db, resp_integer conn 0)
                        else (set_expire db key (wrap_i64 (now_ms e 1 + wrap_i64 (seconds * 1000))),
                              resp_integer conn 1))"

definition handle_pexpire :: db_handler where
  "handle_pexpire e args dc =
     (case dc of (db, conn) \<Rightarrow>
        let key = arg_str args 1
        in case from_chars (arg_str args 2) of
             (ec, ms, _) \<Rightarrow>
               if ec \<noteq> ErrcOk then (db, resp_error conn not_integer)
               else case db_exists db key (now_ms e 0) (now_s e 0) of
                      (db, there) \<Rightarrow>
                        if \<not> there then (db, resp_integer conn 0)
                        else (set_expire db key (wrap_i64 (now_ms e 1 + ms)), resp_integer conn 1))"

definition handle_expireat :: db_handler where
  "handle_expireat e args dc =
     (case dc of (db, conn) \<Rightarrow>
        let key = arg_str args 1
        in case from_chars (arg_str args 2) of
             (ec, ts, _) \<Rightarrow>
               if ec \<noteq> ErrcOk then (db, resp_error conn not_integer)
               else case db_exists db key (now_ms e 0) (now_s e 0) of
                      (db, there) \<Rightarrow>
                        if \<not> there then (db, resp_integer conn 0)
                        else (set_expire db key (wrap_i64 (ts * 1000)), resp_integer conn 1))"

text \<open>The division of the non-negative remaining time truncates.\<close>

definition handle_ttl :: db_handler where
  "handle_ttl e args dc =
     (case dc of (db, conn) \<Rightarrow>
        case db_pttl db (arg_str args 1) (now_ms e 0) of
          (db, pttl_ms) \<Rightarrow>
            if pttl_ms = - 2 then (db, resp_integer conn (- 2))
            else if pttl_ms = - 1 then (db, resp_integer conn (- 1))
            else (db, resp_integer conn (pttl_ms div 1000)))"

definition handle_pttl :: db_handler where
  "handle_pttl e args dc =
     (case dc of (db, conn) \<Rightarrow>
        case db_pttl db (arg_str args 1) (now_ms e 0) of (db, r) \<Rightarrow> (db, resp_integer conn r))"

definition handle_persist :: db_handler where
  "handle_persist e args dc =
     (case dc of (db, conn) \<Rightarrow>
        let key = arg_str args 1
        in case db_exists db key (now_ms e 0) (now_s e 0) of
             (db, there) \<Rightarrow>
               if \<not> there then (db, resp_integer conn 0)
               else (remove_expire db key, resp_integer conn 1))"

definition handle_keys :: db_handler where
  "handle_keys e args dc =
     (case dc of (db, conn) \<Rightarrow>
        let pattern = arg_str args 1;
            matches = filter (glob_match pattern) (map fst (db_for_each db (now_ms e 0)));
            conn = resp_array_header conn (wrap_i64 (int (length matches)))
        in (db, foldl resp_bulk_string conn matches))"

definition handle_rename :: db_handler where
  "handle_rename e args dc =
     (case dc of (db, conn) \<Rightarrow>
        let key = arg_str args 1; newkey = arg_str args 2
        in case db_get db key (now_ms e 0) (now_s e 0) of
             (db, None) \<Rightarrow> (db, resp_error conn ''no such key'')
           | (db, Some ob) \<Rightarrow>
               let new_obj = (if obj_encoding ob = enc_code EncInt
                              then create_string_from_int (int_payload ob) (lru_clock_current (now_s e 1))
                              else create_string (view_payload ob) (lru_clock_current (now_s e 1)));
                   db = fst (db_del db key)
               in (db_set db newkey new_obj, resp_ok conn))"

definition handle_dbsize :: db_handler where
  "handle_dbsize e args dc =
     (case dc of (db, conn) \<Rightarrow> (db, resp_integer conn (wrap_i64 (int (dbsize db)))))"

section \<open>Effects\<close>

text \<open>The distinct keys among the arguments that have a value, alive or not, are what DEL counts.\<close>

lemma del_loop_facts:
  assumes "db_inv db" "in_i64 (int (length args))" "0 \<le> n" "n \<le> int i" "i \<le> length args"
  shows "case del_loop args i db n of (db', n') \<Rightarrow>
    db_inv db' \<and> vals db' = vals db |` (- arg_str args ` {i..<length args}) \<and>
    ttls db' = ttls db |` (- arg_str args ` {i..<length args}) \<and>
    n' = n + int (card (arg_str args ` {i..<length args} \<inter> dom (vals db)))"
  using assms
proof (induction "length args - i" arbitrary: i db n)
  case 0
  then show ?case by (simp add: del_loop.simps [of args i] restrict_map_def)
next
  case (Suc m)
  then have lt: "i < length args" by simp
  let ?k = "arg_str args i" and ?R = "arg_str args ` {i + 1..<length args}"
  note d = db_del_facts [OF Suc.prems(1), of ?k]
  let ?n = "if vals db ?k \<noteq> None then n + 1 else n"
  have n1: "in_i64 (n + 1)" using Suc.prems(2-5) lt by (auto simp: in_i64_def LLONG_MIN_def)
  have step: "del_loop args i db n = del_loop args (i + 1) (fst (db_del db ?k)) ?n"
    using lt d(4) n1 by (cases "db_del db ?k") (auto simp: del_loop.simps [of args i])
  have "{i..<length args} = insert i {i + 1..<length args}" using lt by auto
  then have img: "arg_str args ` {i..<length args} = insert ?k ?R" by simp
  have card: "int (card (insert ?k ?R \<inter> dom (vals db))) =
      (if vals db ?k \<noteq> None then 1 else 0) + int (card (?R \<inter> dom ((vals db)(?k := None))))"
  proof (cases "vals db ?k = None")
    case True
    then have "insert ?k ?R \<inter> dom (vals db) = ?R \<inter> dom ((vals db)(?k := None))" by auto
    then show ?thesis using True by simp
  next
    case False
    then have "insert ?k ?R \<inter> dom (vals db) = insert ?k (?R \<inter> dom ((vals db)(?k := None)))" by auto
    then show ?thesis using False by (simp add: card_insert_disjoint)
  qed
  obtain db' n' where r: "del_loop args (i + 1) (fst (db_del db ?k)) ?n = (db', n')" by fastforce
  have "m = length args - (i + 1)" "0 \<le> ?n" "?n \<le> int (i + 1)" "i + 1 \<le> length args"
    using Suc.hyps(2) Suc.prems lt by auto
  from Suc.hyps(1) [OF this(1) d(1) Suc.prems(2) this(2-4)]
  have ih: "db_inv db'" "vals db' = (vals db)(?k := None) |` (- ?R)" "ttls db' = (ttls db)(?k := None) |` (- ?R)"
    "n' = ?n + int (card (?R \<inter> dom ((vals db)(?k := None))))"
    unfolding r d(2,3) by simp_all
  have res: "(f(?k := None)) |` (- ?R) = f |` (- insert ?k ?R)" for f :: "string \<rightharpoonup> 'z"
    by (auto simp: fun_eq_iff restrict_map_def)
  show ?case
    unfolding step r using ih card by (simp only: prod.case img res) simp
qed

lemma exists_loop_facts:
  assumes "db_inv db" "in_i64 n"
  shows "case exists_loop e args i db n of (db', n') \<Rightarrow> db_inv db' \<and> in_i64 n'"
  using assms
proof (induction e args i db n rule: exists_loop.induct)
  case (1 e args i db n)
  obtain db1 b where ex: "db_exists db (arg_str args i) (now_ms e i) (now_s e i) = (db1, b)" by fastforce
  note l = exists_facts [OF 1(2) ex]
  show ?case
  proof (cases "i < length args")
    case True
    then show ?thesis using 1(1) [OF True ex [symmetric] l(1)] 1(3) ex by (simp add: exists_loop.simps [of e args i])
  qed (use 1(2,3) in \<open>simp add: exists_loop.simps [of e args i]\<close>)
qed

text \<open>EXISTS counts every occurrence of a live key, at the reading made for it.\<close>

lemma exists_loop_count:
  assumes "db_inv db" "in_i64 (int (length args))" "0 \<le> n" "n \<le> int i" "i \<le> length args"
    and "\<forall>j k. i \<le> j \<longrightarrow> j \<le> k \<longrightarrow> now_ms e j \<le> now_ms e k"
  shows "case exists_loop e args i db n of (db', n') \<Rightarrow>
    n' = n + int (length (filter (\<lambda>j. live db (now_ms e j) (arg_str args j) \<noteq> None) [i..<length args]))"
  using assms
proof (induction "length args - i" arbitrary: i db n)
  case 0
  then show ?case by (simp add: exists_loop.simps [of e args i])
next
  case (Suc m)
  then have lt: "i < length args" by simp
  obtain db1 b where ex: "db_exists db (arg_str args i) (now_ms e i) (now_s e i) = (db1, b)" by fastforce
  note l = exists_facts [OF Suc.prems(1) ex]
  let ?n = "if b then n + 1 else n"
  have n1: "in_i64 (n + 1)" using Suc.prems(2-5) lt by (auto simp: in_i64_def LLONG_MIN_def)
  have step: "exists_loop e args i db n = exists_loop e args (i + 1) db1 ?n"
    using lt n1 ex by (auto simp: exists_loop.simps [of e args i])
  have same: "live db1 (now_ms e j) = live db (now_ms e j)" if "i \<le> j" for j
    using l(3) Suc.prems(6) that by (simp add: same_from_def)
  have fil: "filter (\<lambda>j. live db1 (now_ms e j) (arg_str args j) \<noteq> None) [i + 1..<length args]
      = filter (\<lambda>j. live db (now_ms e j) (arg_str args j) \<noteq> None) [i + 1..<length args]"
    using same by (intro filter_cong) auto
  obtain db' n' where r: "exists_loop e args (i + 1) db1 ?n = (db', n')" by fastforce
  have "m = length args - (i + 1)" "0 \<le> ?n" "?n \<le> int (i + 1)" "i + 1 \<le> length args"
    "\<forall>j k. i + 1 \<le> j \<longrightarrow> j \<le> k \<longrightarrow> now_ms e j \<le> now_ms e k"
    using Suc.hyps(2) Suc.prems lt by auto
  from Suc.hyps(1) [OF this(1) l(1) Suc.prems(2) this(2-5)] show ?case
    unfolding step r using fil lt l(2) by (simp add: upt_conv_Cons)
qed

section \<open>Expiry commands\<close>

text \<open>The three EXPIRE variants differ in the deadline they compute.\<close>

definition expire_spec ::
    "keva_db \<Rightarrow> i64 \<Rightarrow> string \<Rightarrow> i64 \<Rightarrow> connection \<Rightarrow> keva_db \<Rightarrow> connection \<Rightarrow> bool" where
  "expire_spec db now k deadline c db' c' \<longleftrightarrow>
     (if live db now k = None then same_from now db db' \<and> c' = resp_integer c 0
      else vals db' = vals db \<and> ttls db' = (ttls db)(k \<mapsto> deadline) \<and> c' = resp_integer c 1)"

lemma expire_core:
  assumes inv: "db_inv db" and ex: "db_exists db k now secs = (db1, b)" and d: "in_i64 deadline"
    and db': "db' = (if b then set_expire db1 k deadline else db1)"
    and c': "c' = (if b then resp_integer c 1 else resp_integer c 0)"
  shows "db_inv db' \<and> expire_spec db now k deadline c db' c'"
proof -
  note l = exists_facts [OF inv ex]
  show ?thesis
  proof (cases b)
    case True
    then have lv: "live db now k \<noteq> None" using l(2) by simp
    then have "vals db1 k \<noteq> None" using l(6) [OF lv] by (auto simp: live_def split: if_splits)
    note se = set_expire_facts [OF l(1) this d]
    then show ?thesis using l(6) [OF lv] lv True by (auto simp: db' c' expire_spec_def)
  next
    case False
    then show ?thesis using l by (simp add: db' c' expire_spec_def)
  qed
qed

lemma handle_expire_eq:
  assumes inv: "db_inv db" and h: "handle_expire e args (db, c) = (db', c')"
    and fc: "from_chars (arg_str args 2) = (ec, s, n)"
  shows "db_inv db' \<and> (if ec \<noteq> ErrcOk then db' = db \<and> c' = resp_error c not_integer
    else expire_spec db (now_ms e 0) (arg_str args 1) (wrap_i64 (now_ms e 1 + wrap_i64 (s * 1000))) c db' c')"
proof -
  obtain db1 b where ex: "db_exists db (arg_str args 1) (now_ms e 0) (now_s e 0) = (db1, b)" by fastforce
  show ?thesis
    using h fc ex inv expire_core [OF inv ex in_i64_wrap refl refl]
    by (auto simp: handle_expire_def split: if_splits)
qed

lemma handle_pexpire_eq:
  assumes inv: "db_inv db" and h: "handle_pexpire e args (db, c) = (db', c')"
    and fc: "from_chars (arg_str args 2) = (ec, m, n)"
  shows "db_inv db' \<and> (if ec \<noteq> ErrcOk then db' = db \<and> c' = resp_error c not_integer
    else expire_spec db (now_ms e 0) (arg_str args 1) (wrap_i64 (now_ms e 1 + m)) c db' c')"
proof -
  obtain db1 b where ex: "db_exists db (arg_str args 1) (now_ms e 0) (now_s e 0) = (db1, b)" by fastforce
  show ?thesis
    using h fc ex inv expire_core [OF inv ex in_i64_wrap refl refl]
    by (auto simp: handle_pexpire_def split: if_splits)
qed

lemma handle_expireat_eq:
  assumes inv: "db_inv db" and h: "handle_expireat e args (db, c) = (db', c')"
    and fc: "from_chars (arg_str args 2) = (ec, ts, n)"
  shows "db_inv db' \<and> (if ec \<noteq> ErrcOk then db' = db \<and> c' = resp_error c not_integer
    else expire_spec db (now_ms e 0) (arg_str args 1) (wrap_i64 (ts * 1000)) c db' c')"
proof -
  obtain db1 b where ex: "db_exists db (arg_str args 1) (now_ms e 0) (now_s e 0) = (db1, b)" by fastforce
  show ?thesis
    using h fc ex inv expire_core [OF inv ex in_i64_wrap refl refl]
    by (auto simp: handle_expireat_def split: if_splits)
qed

lemma handle_persist_eq:
  assumes inv: "db_inv db" and h: "handle_persist e args (db, c) = (db', c')"
  shows "db_inv db' \<and>
    (if live db (now_ms e 0) (arg_str args 1) = None then same_from (now_ms e 0) db db' \<and> c' = resp_integer c 0
     else vals db' = vals db \<and> ttls db' = (ttls db)(arg_str args 1 := None) \<and> c' = resp_integer c 1)"
proof -
  obtain db1 b where ex: "db_exists db (arg_str args 1) (now_ms e 0) (now_s e 0) = (db1, b)" by fastforce
  note l = exists_facts [OF inv ex]
  show ?thesis
  proof (cases b)
    case True
    then have lv: "live db (now_ms e 0) (arg_str args 1) \<noteq> None" using l(2) by simp
    then show ?thesis
      using h ex True l(6) [OF lv] remove_expire_facts [OF l(1)] by (auto simp: handle_persist_def)
  next
    case False
    then show ?thesis using h ex l by (simp add: handle_persist_def)
  qed
qed

lemma in_i64_max0: "in_i64 x \<Longrightarrow> in_i64 (max 0 x)" and in_i64_m2 [simp]: "in_i64 (- 2)"
  by (auto simp: in_i64_def LLONG_MAX_def LLONG_MIN_def)

text \<open>What PTTL answers, from the state.\<close>

definition remaining :: "keva_db \<Rightarrow> i64 \<Rightarrow> string \<Rightarrow> i64" where
  "remaining db now k =
     (if vals db k = None then - 2
      else case ttls db k of None \<Rightarrow> - 1 | Some ts \<Rightarrow> max 0 (wrap_i64 (ts - now)))"

lemma in_i64_remaining [simp]: "in_i64 (remaining db now k)"
  using in_i64_max0 [OF in_i64_wrap] by (auto simp: remaining_def split: option.split)

lemma in_i64_div: "in_i64 x \<Longrightarrow> 0 \<le> x \<Longrightarrow> in_i64 (x div 1000)"
  by (auto simp: in_i64_def LLONG_MAX_def LLONG_MIN_def)

lemma remaining_neg: "remaining db now k < 0 \<Longrightarrow> remaining db now k = - 1 \<or> remaining db now k = - 2"
  by (auto simp: remaining_def split: if_splits option.splits)

lemma handle_pttl_eq:
  assumes inv: "db_inv db" and h: "handle_pttl e args (db, c) = (db', c')"
  shows "db_inv db' \<and> vals db' = vals db \<and> ttls db' = ttls db \<and>
    c' = resp_integer c (remaining db (now_ms e 0) (arg_str args 1))"
proof -
  obtain db1 r where g: "db_pttl db (arg_str args 1) (now_ms e 0) = (db1, r)" by fastforce
  show ?thesis
    using h g db_pttl_facts [OF inv g] by (simp add: handle_pttl_def remaining_def del: One_nat_def)
qed

lemma handle_ttl_eq:
  assumes inv: "db_inv db" and h: "handle_ttl e args (db, c) = (db', c')"
  defines "r \<equiv> remaining db (now_ms e 0) (arg_str args 1)"
  shows "db_inv db' \<and> vals db' = vals db \<and> ttls db' = ttls db \<and>
    c' = resp_integer c (if r < 0 then r else r div 1000)"
proof -
  obtain db1 x where g: "db_pttl db (arg_str args 1) (now_ms e 0) = (db1, x)" by fastforce
  note f = db_pttl_facts [OF inv g]
  have "x = r" using f(4) by (simp add: r_def remaining_def)
  then show ?thesis
    using h g f(1-3) remaining_neg [of db "now_ms e 0" "arg_str args 1", folded r_def]
    by (cases "r = - 2"; cases "r = - 1") (auto simp add: handle_ttl_def simp del: One_nat_def)
qed

section \<open>DEL, KEYS, RENAME\<close>

lemma handle_del_eq:
  assumes inv: "db_inv db" and len: "in_i64 (int (length args))" and h: "handle_del e args (db, c) = (db', c')"
  defines "ks \<equiv> arg_str args ` {1..<length args}"
  shows "db_inv db' \<and> vals db' = vals db |` (- ks) \<and> ttls db' = ttls db |` (- ks) \<and>
    c' = resp_integer c (int (card (ks \<inter> dom (vals db))))"
proof (cases "length args = 0")
  case True
  then show ?thesis
    using h inv by (auto simp: handle_del_def del_loop.simps [of "[]"] ks_def restrict_map_def)
next
  case False
  then have "1 \<le> length args" by (cases args) simp_all
  from del_loop_facts [OF inv len order_refl _ this] show ?thesis
    using h by (auto simp: handle_del_def ks_def split: prod.splits)
qed

lemma foldl_bulk: "foldl resp_bulk_string c ks = append_response c (concat (map (wire \<circ> BulkString) ks))"
  by (induction ks arbitrary: c) (simp_all add: reply_wire)

lemma handle_keys_eq:
  assumes inv: "db_inv db" and h: "handle_keys e args (db, c) = (db', c')"
  shows "db' = db \<and> (\<exists>ks. distinct ks \<and>
    set ks = {k. glob (arg_str args 1) k \<and> live db (now_ms e 0) k \<noteq> None} \<and>
    c' = append_response c (wire (RespArray (map BulkString ks))))"
proof -
  define ks where "ks = filter (glob_match (arg_str args 1)) (map fst (db_for_each db (now_ms e 0)))"
  have "distinct ks" using db_for_each_facts(1) [OF inv] by (simp add: ks_def)
  moreover have "set ks = {k. glob (arg_str args 1) k \<and> live db (now_ms e 0) k \<noteq> None}"
    using db_for_each_keys [OF inv, of "now_ms e 0"] glob_match_sound glob_match_complete
    by (auto simp: ks_def dom_def)
  moreover have "db' = db" "c' = append_response c (wire (RespArray (map BulkString ks)))"
    using h by (auto simp: handle_keys_def Let_def foldl_bulk resp_array_header_bytes ks_def comp_def)
  ultimately show ?thesis by blast
qed

lemma handle_rename_eq:
  assumes inv: "db_inv db" and h: "handle_rename e args (db, c) = (db', c')"
  defines "k \<equiv> arg_str args 1" and "k' \<equiv> arg_str args 2"
  shows "db_inv db' \<and>
    (case live db (now_ms e 0) k of
       None \<Rightarrow> same_from (now_ms e 0) db db' \<and> c' = resp_error c ''no such key''
     | Some v \<Rightarrow>
         vals db' = (vals db)(k := None, k' \<mapsto> v) \<and> ttls db' = (ttls db)(k := None, k' := None) \<and>
         c' = resp_ok c)"
proof -
  obtain db1 r where g: "db_get db k (now_ms e 0) (now_s e 0) = (db1, r)" by fastforce
  note l = lookup_facts [OF inv g]
  show ?thesis
  proof (cases r)
    case None
    then have "live db (now_ms e 0) k = None" using l(3) by simp
    then show ?thesis using h g None l unfolding handle_rename_def k_def k'_def by simp
  next
    case (Some ob)
    then have wf: "object_wf ob" and lv: "live db (now_ms e 0) k = Some (content ob)"
      using l(2,3) by auto
    define new where "new = (if obj_encoding ob = enc_code EncInt
      then create_string_from_int (int_payload ob) (lru_clock_current (now_s e 1))
      else create_string (view_payload ob) (lru_clock_current (now_s e 1)))"
    have new: "object_wf new" "content new = content ob"
    proof -
      have "obj_encoding ob = enc_code EncInt \<Longrightarrow> in_i64 (int_payload ob) \<and> to_chars (int_payload ob) = content ob"
        using wf wf_int [OF wf] by (auto simp: int_payload_def integer_value_def content_def object_wf_def)
      moreover have "obj_encoding ob \<noteq> enc_code EncInt \<Longrightarrow> view_payload ob = content ob"
        using wf_content_view [OF wf] by (simp add: view_payload_def)
      ultimately show "object_wf new" "content new = content ob" using wf by (auto simp: new_def)
    qed
    note d = db_del_facts [OF l(1), of k]
    note s = db_set_facts [OF d(1) new(1), of k']
    have "db' = db_set (fst (db_del db1 k)) k' new \<and> c' = resp_ok c"
      using h g Some unfolding handle_rename_def k_def k'_def by (auto simp: Let_def new_def)
    then show ?thesis using s d l(7) lv new(2) by simp
  qed
qed

section \<open>Every key command keeps the contract\<close>

lemma no_crlf_words [simp]:
  "find_crlf ''none'' = None" "find_crlf ''string'' = None" "find_crlf ''no such key'' = None"
  by simp_all

lemma del_loop_ok:
  "db_inv db \<Longrightarrow> in_i64 n \<Longrightarrow> case del_loop args i db n of (db', n') \<Rightarrow> db_inv db' \<and> in_i64 n'"
proof (induction args i db n rule: del_loop.induct)
  case (1 args i db n)
  obtain db1 b where d: "db_del db (arg_str args i) = (db1, b)" by fastforce
  have "db_inv db1" using db_del_facts(1) [OF 1(2), of "arg_str args i"] d by simp
  then show ?case
    using 1(1) [OF _ d [symmetric]] 1(2,3) d
    by (cases "i < length args") (simp_all add: del_loop.simps [of args i])
qed

lemma handle_type_ok: "db_handler_ok handle_type 2"
proof (rule db_handler_okI)
  fix e args db c db' c' assume a: "db_inv db" "handle_type e args (db, c) = (db', c')"
  obtain db1 r where g: "db_peek db (arg_str args 1) (now_ms e 0) = (db1, r)" by fastforce
  note p = db_peek_facts [OF a(1) g]
  show "db_inv db' \<and> one_reply c c'"
  proof (cases r)
    case None
    then show ?thesis using a(2) g p by (auto simp: handle_type_def replies)
  next
    case (Some ob)
    then have "obj_type ob = type_code ObjString" using p(5) wf_type by blast
    then show ?thesis using a(2) g p Some by (auto simp: handle_type_def replies)
  qed
qed

lemma key_handlers_ok:
  "db_handler_ok handle_del 2" "db_handler_ok handle_exists 2" "db_handler_ok handle_type 2"
  "db_handler_ok handle_expire 3" "db_handler_ok handle_pexpire 3" "db_handler_ok handle_expireat 3"
  "db_handler_ok handle_ttl 2" "db_handler_ok handle_pttl 2" "db_handler_ok handle_persist 2"
  "db_handler_ok handle_keys 2" "db_handler_ok handle_rename 3" "db_handler_ok handle_dbsize 1"
proof -
  have exp: "expire_spec db now k d c db' c' \<Longrightarrow> one_reply c c'" for db now k d c db' c'
    by (auto simp: expire_spec_def replies split: if_splits)
  show "db_handler_ok handle_del 2"
    using del_loop_ok [of _ 0 _ 1]
    by (intro db_handler_okI) (fastforce simp: handle_del_def replies split: prod.splits)
  show "db_handler_ok handle_exists 2"
    using exists_loop_facts [of _ 0 _ _ 1]
    by (intro db_handler_okI) (fastforce simp: handle_exists_def replies split: prod.splits)
  show "db_handler_ok handle_type 2" by (fact handle_type_ok)
  show "db_handler_ok handle_expire 3"
    by (rule db_handler_okI_number, drule (2) handle_expire_eq) (use exp in \<open>auto simp: replies split: if_splits\<close>)
  show "db_handler_ok handle_pexpire 3"
    by (rule db_handler_okI_number, drule (2) handle_pexpire_eq) (use exp in \<open>auto simp: replies split: if_splits\<close>)
  show "db_handler_ok handle_expireat 3"
    by (rule db_handler_okI_number, drule (2) handle_expireat_eq) (use exp in \<open>auto simp: replies split: if_splits\<close>)
  show "db_handler_ok handle_ttl 2"
  proof (rule db_handler_okI)
    fix e args db c db' c' assume a: "db_inv db" "handle_ttl e args (db, c) = (db', c')"
    show "db_inv db' \<and> one_reply c c'"
      using handle_ttl_eq [OF a] by (auto simp: in_i64_div intro!: reply_int)
  qed
  show "db_handler_ok handle_pttl 2"
  proof (rule db_handler_okI)
    fix e args db c db' c' assume a: "db_inv db" "handle_pttl e args (db, c) = (db', c')"
    show "db_inv db' \<and> one_reply c c'"
      using handle_pttl_eq [OF a] by (auto intro!: reply_int)
  qed
  show "db_handler_ok handle_persist 2"
  proof (rule db_handler_okI)
    fix e args db c db' c' assume a: "db_inv db" "handle_persist e args (db, c) = (db', c')"
    show "db_inv db' \<and> one_reply c c'"
      using handle_persist_eq [OF a] by (auto simp: replies split: if_splits)
  qed
  show "db_handler_ok handle_keys 2"
  proof (rule db_handler_okI)
    fix e args db c db' c' assume a: "db_inv db" "handle_keys e args (db, c) = (db', c')"
    obtain ks where "db' = db" "c' = append_response c (wire (RespArray (map BulkString ks)))"
      using handle_keys_eq [OF a] by blast
    moreover have "lines_ok (RespArray (map BulkString ks))" by simp
    ultimately show "db_inv db' \<and> one_reply c c'" using a(1) one_reply_append by blast
  qed
  show "db_handler_ok handle_rename 3"
  proof (rule db_handler_okI)
    fix e args db c db' c' assume a: "db_inv db" "handle_rename e args (db, c) = (db', c')"
    show "db_inv db' \<and> one_reply c c'"
      using handle_rename_eq [OF a] by (auto simp: replies split: option.splits)
  qed
  show "db_handler_ok handle_dbsize 1"
    by (intro db_handler_okI) (auto simp: handle_dbsize_def replies)
qed

end
