(* ===== verification/ServerCmd.thy ===== *)
theory ServerCmd
  imports KeyCmd Rdb
begin

text \<open>
  The server commands (\<^verbatim>\<open>src/command/handlers/server_cmd.cpp\<close>), the command registry and the
  pipeline loop (\<^verbatim>\<open>src/command/command.cpp\<close>). SAVE writes the snapshot to the disk of the server; what
  the child of BGSAVE writes is what another process does to that disk later.
\<close>

section \<open>Handlers\<close>

definition handle_ping :: handler where
  "handle_ping e args sc =
     (case sc of (s, conn) \<Rightarrow>
        if length args = 1 then (s, resp_simple_string conn ''PONG'')
        else (s, resp_bulk_string conn (arg_str args 1)))"

definition handle_echo :: handler where
  "handle_echo e args sc = (case sc of (s, conn) \<Rightarrow> (s, resp_bulk_string conn (arg_str args 1)))"

definition handle_flushdb :: handler where
  "handle_flushdb e args sc =
     (case sc of (s, conn) \<Rightarrow> (s\<lparr>database := db_flush (database s)\<rparr>, resp_ok conn))"

definition info_line :: "string \<Rightarrow> string \<Rightarrow> string" where
  "info_line name val = name @ '':'' @ val @ CRLF"

definition u64_to_chars :: "u64 \<Rightarrow> string" where
  "u64_to_chars w = nat_to_chars (unat w)"

definition info_text :: "server \<Rightarrow> i64 \<Rightarrow> string" where
  "info_text srv unix_time =
     (let uptime = wrap_i64 (unix_time - start_time_seconds srv); st = stats srv
      in ''# Server'' @ CRLF @ info_line ''keva_version'' ''0.1.0'' @ info_line ''os'' ''Linux'' @
         info_line ''arch_bits'' ''64'' @ info_line ''hz'' (to_chars (cfg_hz (config srv))) @
         info_line ''uptime_in_seconds'' (to_chars uptime) @
         info_line ''tcp_port'' (nat_to_chars (unat (cfg_port (config srv)))) @ CRLF @
         ''# Clients'' @ CRLF @ info_line ''connected_clients'' ''1'' @ CRLF @
         ''# Stats'' @ CRLF @
         info_line ''total_commands_processed'' (u64_to_chars (total_commands_processed st)) @
         info_line ''total_connections_received'' (u64_to_chars (total_connections_received st)) @
         info_line ''keyspace_hits'' (u64_to_chars (keyspace_hits st)) @
         info_line ''keyspace_misses'' (u64_to_chars (keyspace_misses st)) @
         info_line ''expired_keys'' (u64_to_chars (expired_keys st)) @
         info_line ''evicted_keys'' (u64_to_chars (evicted_keys st)) @ CRLF @
         ''# Persistence'' @ CRLF @
         info_line ''rdb_enabled'' (if cfg_rdb_enabled (config srv) then ''1'' else ''0'') @
         info_line ''rdb_last_save_time'' (to_chars (last_save_time srv)) @
         info_line ''rdb_changes_since_last_save'' (u64_to_chars (dirty_keys srv)) @ CRLF @
         ''# Keyspace'' @ CRLF @
         ''db0:keys='' @ nat_to_chars (dbsize (database srv)) @ '',expires=0'' @ CRLF)"

definition handle_info :: handler where
  "handle_info e args sc =
     (case sc of (s, conn) \<Rightarrow> (s, resp_bulk_string conn (info_text s (now_s e 0))))"

definition handle_save :: handler where
  "handle_save e args sc =
     (case sc of (s, conn) \<Rightarrow>
        case rdb_save_sync (save_calls e) (cfg_rdb_filename (config s)) (database s) (disk s) of
          (db, fs, st) \<Rightarrow>
            let s = s\<lparr>database := db, disk := fs\<rparr>
            in if st_ok st then (s\<lparr>last_save_time := now_s e 0, dirty_keys := 0\<rparr>, resp_ok conn)
               else (s, resp_error conn (st_message st)))"

definition handle_bgsave :: handler where
  "handle_bgsave e args sc =
     (case sc of (s, conn) \<Rightarrow>
        if bgsave_child_pid s \<noteq> - 1 then (s, resp_error conn ''Background save already in progress'')
        else case rdb_save_background (forked e) (fork_error e) (bgsave_child_pid s) of
               (pid, st) \<Rightarrow>
                 let s = s\<lparr>bgsave_child_pid := pid\<rparr>
                 in if st_ok st then (s, resp_simple_string conn ''Background saving started'')
                    else (s, resp_error conn (st_message st)))"

definition handle_select :: handler where
  "handle_select e args sc =
     (case sc of (s, conn) \<Rightarrow>
        case from_chars (arg_str args 1) of
          (ec, idx, _) \<Rightarrow>
            if ec \<noteq> ErrcOk \<or> idx \<noteq> 0 then (s, resp_error conn ''DB index is out of range'')
            else (s, resp_ok conn))"

definition handle_quit :: handler where
  "handle_quit e args sc = (case sc of (s, conn) \<Rightarrow> (s, set_state WriteOnly (resp_ok conn)))"

section \<open>The registry\<close>

definition CMD_FLAG_NONE :: u32 where "CMD_FLAG_NONE = 0"
definition CMD_FLAG_WRITE :: u32 where "CMD_FLAG_WRITE = push_bit 0 1"
definition CMD_FLAG_READONLY :: u32 where "CMD_FLAG_READONLY = push_bit 1 1"
definition CMD_FLAG_FAST :: u32 where "CMD_FLAG_FAST = push_bit 2 1"
definition CMD_FLAG_ADMIN :: u32 where "CMD_FLAG_ADMIN = push_bit 3 1"

record command_entry =
  ce_name :: string
  ce_handler :: handler
  arity_min :: int
  arity_max :: int
  ce_flags :: u32

type_synonym registry = "string \<rightharpoonup> command_entry"

text \<open>\<^verbatim>\<open>table_.emplace\<close> keeps an entry that is already there.\<close>

definition register_command :: "command_entry \<Rightarrow> registry \<Rightarrow> registry" where
  "register_command entry table =
     (let upper_name = to_upper (ce_name entry)
      in case table upper_name of None \<Rightarrow> table(upper_name \<mapsto> entry) | Some _ \<Rightarrow> table)"

definition registry_find :: "registry \<Rightarrow> string \<Rightarrow> command_entry option" where
  "registry_find table name = table (to_upper name)"

definition cmd :: "string \<Rightarrow> handler \<Rightarrow> int \<Rightarrow> int \<Rightarrow> u32 \<Rightarrow> command_entry" where
  "cmd n h lo hi fl = \<lparr>ce_name = n, ce_handler = h, arity_min = lo, arity_max = hi, ce_flags = fl\<rparr>"

definition string_commands :: "command_entry list" where
  "string_commands =
     [cmd ''SET'' (on_db handle_set) 3 (- 1) CMD_FLAG_WRITE,
      cmd ''GET'' (on_db handle_get) 2 2 (CMD_FLAG_READONLY OR CMD_FLAG_FAST),
      cmd ''GETSET'' (on_db handle_getset) 3 3 CMD_FLAG_WRITE,
      cmd ''MSET'' (on_db handle_mset) 3 (- 1) CMD_FLAG_WRITE,
      cmd ''MGET'' (on_db handle_mget) 2 (- 1) CMD_FLAG_READONLY,
      cmd ''APPEND'' (on_db handle_append) 3 3 CMD_FLAG_WRITE,
      cmd ''STRLEN'' (on_db handle_strlen) 2 2 (CMD_FLAG_READONLY OR CMD_FLAG_FAST),
      cmd ''INCR'' (on_db handle_incr) 2 2 (CMD_FLAG_WRITE OR CMD_FLAG_FAST),
      cmd ''INCRBY'' (on_db handle_incrby) 3 3 (CMD_FLAG_WRITE OR CMD_FLAG_FAST),
      cmd ''DECR'' (on_db handle_decr) 2 2 (CMD_FLAG_WRITE OR CMD_FLAG_FAST),
      cmd ''DECRBY'' (on_db handle_decrby) 3 3 (CMD_FLAG_WRITE OR CMD_FLAG_FAST),
      cmd ''SETEX'' (on_db handle_setex) 4 4 CMD_FLAG_WRITE,
      cmd ''PSETEX'' (on_db handle_psetex) 4 4 CMD_FLAG_WRITE,
      cmd ''SETNX'' (on_db handle_setnx) 3 3 (CMD_FLAG_WRITE OR CMD_FLAG_FAST)]"

definition key_commands :: "command_entry list" where
  "key_commands =
     [cmd ''DEL'' (on_db handle_del) 2 (- 1) CMD_FLAG_WRITE,
      cmd ''EXISTS'' (on_db handle_exists) 2 (- 1) (CMD_FLAG_READONLY OR CMD_FLAG_FAST),
      cmd ''TYPE'' (on_db handle_type) 2 2 (CMD_FLAG_READONLY OR CMD_FLAG_FAST),
      cmd ''EXPIRE'' (on_db handle_expire) 3 3 CMD_FLAG_WRITE,
      cmd ''PEXPIRE'' (on_db handle_pexpire) 3 3 CMD_FLAG_WRITE,
      cmd ''EXPIREAT'' (on_db handle_expireat) 3 3 CMD_FLAG_WRITE,
      cmd ''TTL'' (on_db handle_ttl) 2 2 (CMD_FLAG_READONLY OR CMD_FLAG_FAST),
      cmd ''PTTL'' (on_db handle_pttl) 2 2 (CMD_FLAG_READONLY OR CMD_FLAG_FAST),
      cmd ''PERSIST'' (on_db handle_persist) 2 2 CMD_FLAG_WRITE,
      cmd ''KEYS'' (on_db handle_keys) 2 2 CMD_FLAG_READONLY,
      cmd ''RENAME'' (on_db handle_rename) 3 3 CMD_FLAG_WRITE,
      cmd ''DBSIZE'' (on_db handle_dbsize) 1 1 (CMD_FLAG_READONLY OR CMD_FLAG_FAST)]"

definition server_commands :: "command_entry list" where
  "server_commands =
     [cmd ''PING'' handle_ping 1 2 CMD_FLAG_FAST,
      cmd ''ECHO'' handle_echo 2 2 CMD_FLAG_FAST,
      cmd ''FLUSHDB'' handle_flushdb 1 1 (CMD_FLAG_WRITE OR CMD_FLAG_ADMIN),
      cmd ''INFO'' handle_info 1 2 CMD_FLAG_READONLY,
      cmd ''SAVE'' handle_save 1 1 CMD_FLAG_ADMIN,
      cmd ''BGSAVE'' handle_bgsave 1 1 CMD_FLAG_ADMIN,
      cmd ''SELECT'' handle_select 2 2 CMD_FLAG_FAST,
      cmd ''QUIT'' handle_quit 1 1 CMD_FLAG_FAST]"

definition register_all_commands :: registry where
  "register_all_commands =
     fold register_command server_commands
       (fold register_command key_commands (fold register_command string_commands Map.empty))"

section \<open>Dispatch\<close>

datatype dispatch_end = DispatchDone | DispatchAborted | DispatchFuel

text \<open>
  The pipeline loop. The \<open>i\<close>-th command it executes runs in the environment \<open>envs i\<close>; a refused
  allocation in the parser ends the process (\<open>DispatchAborted\<close>). One unit of fuel per turn. \<open>argc\<close>
  is not narrowed to the width of an \<^verbatim>\<open>int\<close>.
\<close>

definition execute :: "registry \<Rightarrow> env \<Rightarrow> resp_value \<Rightarrow> server \<times> connection \<Rightarrow> server \<times> connection" where
  "execute table e cmd_value sc =
     (case sc of (s, conn) \<Rightarrow>
        if \<not> is_array cmd_value \<or> rv_elements cmd_value = []
        then (s, resp_error conn ''Protocol error: expected array'')
        else if \<not> is_bulk_string (hd (rv_elements cmd_value))
        then (s, resp_error conn ''Protocol error: command name must be bulk string'')
        else
          let cmd_name = to_upper (rv_str (hd (rv_elements cmd_value)))
          in case registry_find table cmd_name of
               None \<Rightarrow>
                 (record_command s, resp_error conn (''unknown command `'' @ cmd_name @ ''`''))
             | Some entry \<Rightarrow>
                 let argc = int (length (rv_elements cmd_value))
                 in if argc < arity_min entry \<or> (arity_max entry \<noteq> - 1 \<and> arity_max entry < argc)
                    then (record_command s,
                          resp_error conn (''wrong number of arguments for '' @ [CHR 0x27] @ ce_name entry @ [CHR 0x27] @
                            '' command''))
                    else case ce_handler entry e (rv_elements cmd_value) (s, conn) of
                           (s, conn) \<Rightarrow>
                             let s = record_command s
                             in (if ce_flags entry AND CMD_FLAG_WRITE \<noteq> 0
                                 then s\<lparr>dirty_keys := dirty_keys s + 1\<rparr> else s, conn))"

fun dispatch_loop ::
    "registry \<Rightarrow> (nat \<Rightarrow> bool) \<Rightarrow> nat \<Rightarrow> (nat \<Rightarrow> env) \<Rightarrow> nat \<Rightarrow> server \<times> connection
     \<Rightarrow> (server \<times> connection) \<times> dispatch_end" where
  "dispatch_loop table rsv 0 envs i sc = (sc, DispatchFuel)"
| "dispatch_loop table rsv (Suc fuel) envs i sc =
     (case sc of (s, conn) \<Rightarrow>
        let buf = read_view conn
        in if buf = [] then ((s, conn), DispatchDone)
           else case parse rsv buf of
                  PIncomplete \<Rightarrow> ((s, conn), DispatchDone)
                | PError \<Rightarrow>
                    ((s, set_state WriteOnly (resp_error conn ''Protocol error: invalid RESP2 format'')),
                     DispatchDone)
                | PAbort \<Rightarrow> ((s, conn), DispatchAborted)
                | PFuel \<Rightarrow> ((s, conn), DispatchFuel)
                | PComplete cmd_value consumed \<Rightarrow>
                    dispatch_loop table rsv fuel envs (i + 1)
                      (execute table (envs i) cmd_value (s, consume consumed conn)))"

definition dispatch ::
    "(nat \<Rightarrow> bool) \<Rightarrow> (nat \<Rightarrow> env) \<Rightarrow> server \<times> connection \<Rightarrow> (server \<times> connection) \<times> dispatch_end" where
  "dispatch rsv envs sc =
     dispatch_loop register_all_commands rsv (length (read_view (snd sc)) + 1) envs 0 sc"

end
