(* ===== verification/RdbProps.thy ===== *)
theory RdbProps
  imports Rdb
begin

text \<open>
  Snapshots restore the database. The image of a list of entries is the specification that the
  saving and the loading code are compared with.
\<close>

section \<open>The image\<close>

type_synonym saved = "string \<times> i64 option \<times> string"

definition entry_bytes :: "saved \<Rightarrow> string" where
  "entry_bytes x =
     (case x of (k, d, v) \<Rightarrow>
        (case d of None \<Rightarrow> [] | Some ts \<Rightarrow> le_bytes 1 (unat RDB_OPCODE_EXPIRE) @ i64_bytes ts) @
        le_bytes 1 (unat RDB_TYPE_STRING) @ string_bytes k @ string_bytes v)"

definition rdb_body :: "int \<Rightarrow> saved list \<Rightarrow> string" where
  "rdb_body n xs =
     RDB_MAGIC @ le_bytes 2 (unat RDB_VERSION) @ le_bytes 1 (unat RDB_OPCODE_DB) @
     le_bytes 4 (unat (word_of_int n :: u32)) @ concat (map entry_bytes xs) @ le_bytes 1 (unat RDB_OPCODE_EOF)"

definition rdb_image :: "int \<Rightarrow> saved list \<Rightarrow> string" where
  "rdb_image n xs = rdb_body n xs @ le_bytes 8 (unat (crc64_update 0 (rdb_body n xs)))"

text \<open>The deadline that is saved: the time left at the first reading, counted from the second.\<close>

definition saved_deadline :: "keva_db \<Rightarrow> i64 \<times> i64 \<Rightarrow> string \<Rightarrow> i64 option" where
  "saved_deadline db ts k = map_option (\<lambda>d. wrap_i64 (snd ts + max 0 (wrap_i64 (d - fst ts)))) (ttls db k)"

fun saved_entries ::
    "keva_db \<Rightarrow> (nat \<Rightarrow> i64 \<times> i64) \<Rightarrow> nat \<Rightarrow> (string \<times> keva_object option) list \<Rightarrow> saved list" where
  "saved_entries db clk i [] = []"
| "saved_entries db clk i ((k, val) # ents) =
     (k, saved_deadline db (clk i) k, saved_value val) # saved_entries db clk (i + 1) ents"

lemma saved_entries_cong: "ttls db' = ttls db \<Longrightarrow> saved_entries db' clk i ents = saved_entries db clk i ents"
  by (induction db clk i ents rule: saved_entries.induct) (simp_all add: saved_deadline_def)

lemma saved_value_content: "object_wf ob \<Longrightarrow> saved_value (Some ob) = content ob"
  using get_string_content [of ob] by (simp add: saved_value_def get_string_value_def)

section \<open>Saving writes the image\<close>

definition same_db :: "keva_db \<Rightarrow> keva_db \<Rightarrow> bool" where
  "same_db db db' \<longleftrightarrow> db_inv db' \<and> vals db' = vals db \<and> ttls db' = ttls db \<and> keys db' = keys db \<and> db_id db' = db_id db"

lemma same_db_trans: "same_db a b \<Longrightarrow> same_db b c \<Longrightarrow> same_db a c"
  by (simp add: same_db_def)

lemma db_pttl_same:
  assumes "db_inv db" "db_pttl db k now = (db', r)"
  shows "same_db db db'"
  using db_pttl_facts(1-3) [OF assms] assms(2)
  by (auto simp: same_db_def db_pttl_def Let_def split: if_splits prod.splits option.splits)

lemma save_entry_puts:
  assumes inv: "db_inv db" and k: "vals db k \<noteq> None"
    and e: "save_entry ts (k, val) (w, db, success) = (w', db', s)"
  shows "same_db db db' \<and> puts w (entry_bytes (k, saved_deadline db ts k, saved_value val)) (w', s)"
proof -
  obtain db1 ttl where p: "db_pttl db k (fst ts) = (db1, ttl)" by fastforce
  define expiry where "expiry = (\<lambda>w. if 0 \<le> ttl
    then and_then (write_u8 RDB_OPCODE_EXPIRE w) (write_i64 (wrap_i64 (snd ts + ttl))) else (w, success))"
  define f where "f = (\<lambda>w. and_then (and_then (and_then (expiry w) (write_u8 RDB_TYPE_STRING)) (write_string k))
    (write_string (saved_value val)))"
  have ttl: "ttl = (case ttls db k of None \<Rightarrow> - 1 | Some d \<Rightarrow> max 0 (wrap_i64 (d - fst ts)))"
    using db_pttl_facts(4) [OF inv p] k by simp
  have "emits expiry (case saved_deadline db ts k of None \<Rightarrow> [] | Some d \<Rightarrow> le_bytes 1 (unat RDB_OPCODE_EXPIRE) @ i64_bytes d)"
  proof (cases "ttls db k")
    case None
    then show ?thesis by (simp add: expiry_def ttl saved_deadline_def emits_def puts_Nil)
  next
    case (Some d)
    then show ?thesis
      using emits_and_then [OF u8.put_emits i64.put_emits]
      by (simp only: expiry_def ttl saved_deadline_def option.case option.map max.cobounded1 if_True)
  qed
  from emits_and_then [OF emits_and_then [OF emits_and_then [OF this u8.put_emits] str.put_emits] str.put_emits]
  have "emits f (entry_bytes (k, saved_deadline db ts k, saved_value val))"
    by (simp add: f_def entry_bytes_def del: le_bytes.simps One_nat_def)
  moreover have "f w = (w', s)" "db' = db1"
    using e by (auto simp: save_entry_def p f_def expiry_def Let_def split: prod.splits)
  ultimately show ?thesis using db_pttl_same [OF inv p] emits_puts [of f _ w] by simp
qed

lemma save_entries_error: "\<not> st_ok s \<Longrightarrow> save_entries clk i ents (w, db, s) = (w, db, s)"
  by (induction clk i ents "(w, db, s)" rule: save_entries.induct) (simp_all add: save_entry_def)

lemma save_entries_puts:
  assumes "db_inv db" "\<forall>k\<in>fst ` set ents. vals db k \<noteq> None"
    and "save_entries clk i ents (w, db, success) = (w', db', s)"
  shows "same_db db db' \<and> puts w (concat (map entry_bytes (saved_entries db clk i ents))) (w', s)"
  using assms
proof (induction ents arbitrary: i w db)
  case Nil
  then show ?case by (simp add: same_db_def puts_Nil)
next
  case (Cons ent ents)
  obtain k val where ent: "ent = (k, val)" by fastforce
  obtain w1 db1 s1 where e: "save_entry (clk i) ent (w, db, success) = (w1, db1, s1)" by (metis surj_pair)
  let ?x = "(k, saved_deadline db (clk i) k, saved_value val)"
  have f: "same_db db db1" "puts w (entry_bytes ?x) (w1, s1)"
    using save_entry_puts [OF Cons.prems(1) _ e [unfolded ent]] Cons.prems(2) ent by auto
  have rest: "save_entries clk (i + 1) ents (w1, db1, s1) = (w', db', s)" using Cons.prems(3) e by simp
  show ?case
  proof (cases "st_ok s1")
    case True
    then have s1: "s1 = success" using puts_ok [OF f(2)] by simp
    have "\<forall>k\<in>fst ` set ents. vals db1 k \<noteq> None" using Cons.prems(2) f(1) by (simp add: same_db_def)
    with Cons.IH [of db1 "i + 1" w1] rest s1 f(1)
    have g: "same_db db1 db'" "puts w1 (concat (map entry_bytes (saved_entries db1 clk (i + 1) ents))) (w', s)"
      by (auto simp: same_db_def)
    have "saved_entries db1 clk (i + 1) ents = saved_entries db clk (i + 1) ents"
      using f(1) by (intro saved_entries_cong) (simp add: same_db_def)
    then show ?thesis
      using puts_trans [OF f(2) True g(2)] same_db_trans [OF f(1) g(1)] ent by simp
  next
    case False
    then have "w' = w1" "db' = db1" "s = s1" using rest save_entries_error by auto
    then show ?thesis using puts_stop [OF f(2) False] f(1) ent by simp
  qed
qed

lemma db_for_each_vals: "db_inv db \<Longrightarrow> k \<in> fst ` set (db_for_each db now) \<Longrightarrow> vals db k \<noteq> None"
  by (auto simp: db_for_each_keys live_def split: if_splits)

definition db_section :: "keva_db \<Rightarrow> saved list \<Rightarrow> string" where
  "db_section db xs =
     le_bytes 1 (unat RDB_OPCODE_DB) @ le_bytes 4 (unat (word_of_int (db_id db) :: u32)) @ concat (map entry_bytes xs)"

text \<open>The entries a save with the environment \<open>e\<close> has to write.\<close>

definition snapshot :: "save_env \<Rightarrow> keva_db \<Rightarrow> saved list" where
  "snapshot e db = saved_entries db (visit_ms e) 0 (db_for_each db (each_ms e))"

lemma save_database_puts:
  assumes "db_inv db" "save_database_to_writer e w db = (w', db', s)"
  shows "same_db db db' \<and> puts w (db_section db (snapshot e db)) (w', s)"
proof -
  let ?h = "le_bytes 1 (unat RDB_OPCODE_DB) @ le_bytes 4 (unat (word_of_int (db_id db) :: u32))"
  obtain w1 s1 where h: "and_then (write_u8 RDB_OPCODE_DB w) (write_u32 (word_of_int (db_id db))) = (w1, s1)"
    by fastforce
  have p: "puts w ?h (w1, s1)"
    using emits_puts [OF emits_and_then [OF u8.put_emits u32.put_emits], of w RDB_OPCODE_DB] h by metis
  show ?thesis
  proof (cases "st_ok s1")
    case True
    then have "save_entries (visit_ms e) 0 (db_for_each db (each_ms e)) (w1, db, success) = (w', db', s)"
      using assms(2) by (simp add: save_database_to_writer_def h)
    from save_entries_puts [OF assms(1) _ this] db_for_each_vals [OF assms(1)] puts_trans [OF p True]
    show ?thesis by (simp add: db_section_def snapshot_def)
  next
    case False
    then show ?thesis
      using assms puts_stop [OF p False]
      by (simp add: save_database_to_writer_def h db_section_def same_db_def)
  qed
qed

text \<open>
  The checksum is written and read with a single call: a script is steady when no call is
  interrupted and each takes at least eight bytes.
\<close>

definition steady :: "io_result list \<Rightarrow> bool" where
  "steady script \<longleftrightarrow> (\<forall>x\<in>set script. case x of IoDone n \<Rightarrow> 8 \<le> n | _ \<Rightarrow> False)"

lemma steady_simps [simp]:
  "steady []" "steady (IoDone n # s) \<longleftrightarrow> 8 \<le> n \<and> steady s" "\<not> steady (IoIntr # s)" "\<not> steady (IoErr m # s)"
  by (auto simp: steady_def)

lemma steady_subset: "steady s \<Longrightarrow> set t \<subseteq> set s \<Longrightarrow> steady t"
  and steady_progresses: "steady s \<Longrightarrow> progresses s"
  and steady_no_errors: "steady s \<Longrightarrow> no_errors s"
  by (force simp: steady_def progresses_def no_errors_def)+

lemma write_crc64_facts:
  assumes "write_crc64 w = (w', s)"
  shows "st_ok s \<Longrightarrow> s = success \<and> w_file w' = w_file w @ le_bytes 8 (unat (w_crc w))"
    and "steady (w_script w) \<Longrightarrow> s = success"
    and "s = success \<or> s = io_error ''Failed to write CRC64''"
  using assms by (auto simp: write_crc64_def Let_def split: list.splits io_result.splits if_splits)

lemma rdb_body_section: "rdb_body (db_id db) xs =
    ((RDB_MAGIC @ le_bytes 2 (unat RDB_VERSION)) @ db_section db xs) @ le_bytes 1 (unat RDB_OPCODE_EOF)"
  by (simp add: rdb_body_def db_section_def del: le_bytes.simps One_nat_def)

text \<open>Everything up to the rename.\<close>

definition write_snapshot :: "save_env \<Rightarrow> keva_db \<Rightarrow> rdb_writer \<times> keva_db \<times> status" where
  "write_snapshot e db =
     (let w = writer_new (io_script e);
          (w, db, s) =
            (case and_then (write_bytes RDB_MAGIC w) (write_u16 RDB_VERSION) of
               (w, s) \<Rightarrow> if st_ok s then save_database_to_writer e w db else (w, db, s));
          (w, s) = and_then (and_then (w, s) (write_u8 RDB_OPCODE_EOF)) write_crc64
      in (w, db, s))"

lemma rdb_save_sync_alt:
  "rdb_save_sync e filename db fs =
     (case open_failure e of
        Some m \<Rightarrow> (db, fs, io_error m)
      | None \<Rightarrow>
          case write_snapshot e db of (w, db, s) \<Rightarrow>
            let fs = fs(tmp_path filename \<mapsto> w_file w)
            in if \<not> st_ok s then (db, fs, s)
               else case rename_failure e of
                      Some m \<Rightarrow> (db, fs, io_error m)
                    | None \<Rightarrow> (db, fs(tmp_path filename := None, filename \<mapsto> w_file w), success))"
  by (simp add: rdb_save_sync_def write_snapshot_def Let_def split: option.split prod.split)

lemma write_snapshot_facts:
  assumes "db_inv db" "write_snapshot e db = (w, db', s)"
  shows "same_db db db'" "st_ok s \<Longrightarrow> w_file w = rdb_image (db_id db) (snapshot e db)"
    "steady (io_script e) \<Longrightarrow> st_ok s"
    "\<not> st_ok s \<Longrightarrow> s = io_error ''Failed to write CRC64'' \<or> (\<exists>m. IoErr m \<in> set (io_script e) \<and> s = io_error m)"
proof -
  let ?w0 = "writer_new (io_script e)" and ?sec = "db_section db (snapshot e db)"
  let ?h = "RDB_MAGIC @ le_bytes 2 (unat RDB_VERSION)"
  obtain w1 s1 where h: "and_then (write_bytes RDB_MAGIC ?w0) (write_u16 RDB_VERSION) = (w1, s1)" by fastforce
  have p1: "puts ?w0 ?h (w1, s1)"
    using emits_puts [OF emits_and_then [OF emits_write_bytes u16.put_emits], of ?w0 RDB_MAGIC RDB_VERSION] h by metis
  obtain w2 db2 s2 where d: "(if st_ok s1 then save_database_to_writer e w1 db else (w1, db, s1)) = (w2, db2, s2)"
    by (metis surj_pair)
  have p2: "puts ?w0 (?h @ ?sec) (w2, s2)" and same: "same_db db db2"
    using d save_database_puts [OF assms(1), of e w1 w2 db2 s2] puts_trans [OF p1] puts_stop [OF p1] assms(1)
    by (auto simp: same_db_def split: if_splits)
  obtain w3 s3 where e3: "and_then (w2, s2) (write_u8 RDB_OPCODE_EOF) = (w3, s3)" by fastforce
  have p3: "puts ?w0 (rdb_body (db_id db) (snapshot e db)) (w3, s3)"
    using puts_and_then [OF p2 u8.put_emits, of RDB_OPCODE_EOF] unfolding e3 rdb_body_section .
  have fin: "db' = db2" "and_then (w3, s3) write_crc64 = (w, s)"
    using assms(2) h d e3 by (auto simp: write_snapshot_def Let_def split: prod.splits)
  show "same_db db db'" using same fin by simp
  show "w_file w = rdb_image (db_id db) (snapshot e db)" if "st_ok s"
  proof -
    have s3: "st_ok s3" using fin(2) that by (cases "st_ok s3") auto
    then have "write_crc64 w3 = (w, s)" using fin(2) by (simp add: and_then_def)
    from write_crc64_facts(1) [OF this that] puts_ok [OF p3 s3]
    show ?thesis by (simp add: rdb_image_def wrote_def writer_new_def)
  qed
  show "st_ok s" if "steady (io_script e)"
  proof -
    have st: "steady (w_script ?w0)" using that by (simp add: writer_new_def)
    have "s3 = success" using puts_no_errors [OF p3] steady_no_errors [OF st] .
    moreover have "steady (w_script w3)" using puts_script [OF p3] st by (rule steady_subset [rotated])
    ultimately show ?thesis using fin(2) write_crc64_facts(2) [of w3 w s] by simp
  qed
  have "kernel_status (io_script e) s3" using puts_status [OF p3] by (simp add: writer_new_def)
  then show "s = io_error ''Failed to write CRC64'' \<or> (\<exists>m. IoErr m \<in> set (io_script e) \<and> s = io_error m)" if "\<not> st_ok s"
    using fin(2) that write_crc64_facts(3) [of w3 w s]
    by (cases "st_ok s3") (auto simp: kernel_status_def and_then_def)
qed

lemma rdb_save_sync_facts:
  assumes "db_inv db" "rdb_save_sync e f db fs = (db', fs', s)"
  shows "same_db db db'"
    and "st_ok s \<Longrightarrow> fs' = fs(tmp_path f := None, f \<mapsto> rdb_image (db_id db) (snapshot e db))"
    and "\<not> st_ok s \<Longrightarrow> p \<noteq> tmp_path f \<Longrightarrow> fs' p = fs p"
    and "open_failure e = None \<Longrightarrow> rename_failure e = None \<Longrightarrow> steady (io_script e) \<Longrightarrow> st_ok s"
    and "clean_save e \<Longrightarrow> \<not> st_ok s \<Longrightarrow> find_crlf (st_message s) = None"
proof -
  obtain w db1 s1 where w: "write_snapshot e db = (w, db1, s1)" by (metis surj_pair)
  note facts = write_snapshot_facts [OF assms(1) w] and eq = assms(2) [unfolded rdb_save_sync_alt w]
  have refl: "same_db db db" using assms(1) by (simp add: same_db_def)
  show "same_db db db'" using eq facts(1) refl by (auto simp: Let_def split: option.splits if_splits)
  show "fs' = fs(tmp_path f := None, f \<mapsto> rdb_image (db_id db) (snapshot e db))" if "st_ok s"
    using eq facts(2) that by (auto simp: Let_def fun_upd_twist split: option.splits if_splits)
  show "fs' p = fs p" if "\<not> st_ok s" "p \<noteq> tmp_path f"
    using eq that by (auto simp: Let_def split: option.splits if_splits)
  show "st_ok s" if "open_failure e = None" "rename_failure e = None" "steady (io_script e)"
    using eq facts(3) that by (auto simp: Let_def split: option.splits if_splits)
  show "find_crlf (st_message s) = None" if "clean_save e" "\<not> st_ok s"
    using eq facts(4) that by (auto simp: Let_def clean_save_def io_error_def split: option.splits if_splits)
qed

text \<open>C15. Saving is atomic: whatever the kernel answers, the snapshot file is either untouched or
  replaced by the complete image of the keys alive when the iteration started, no other file but the
  temporary one is touched, and the data set is unchanged; without failures the save succeeds.\<close>

theorem rdb_save_is_atomic:
  assumes "db_inv db" "rdb_save_sync e f db fs = (db', fs', s)"
  shows "same_db db db' \<and>
    (if st_ok s then fs' = fs(tmp_path f := None, f \<mapsto> rdb_image (db_id db) (snapshot e db))
     else \<forall>p. p \<noteq> tmp_path f \<longrightarrow> fs' p = fs p) \<and>
    (open_failure e = None \<and> rename_failure e = None \<and> steady (io_script e) \<longrightarrow> st_ok s)"
  using rdb_save_sync_facts [OF assms] by auto

end
