(* ===== verification/Dispatch.thy ===== *)
theory Dispatch
  imports ServerCmd RdbProps
begin

text \<open>
  The pipeline loop over a table of handlers that keep their contract. The locale
  \<open>command_table\<close> states what dispatch relies on (every registered handler, called with an allowed
  number of arguments, keeps the state invariant and appends one RESP2 value); its lemmas bound the
  loop, and preserve the invariant and the framing over whole pipelines. It is interpreted on the
  registry that \<^verbatim>\<open>register_all_commands\<close> builds.
\<close>

section \<open>The server commands keep the contract\<close>

lemma one_reply_quit: "one_reply c c' \<Longrightarrow> one_reply c (set_state WriteOnly c')"
proof -
  assume "one_reply c c'"
  then obtain v where v: "lines_ok v" "c' = (append_response c (wire v))\<lparr>conn_state := conn_state c'\<rparr>"
    by (auto simp: one_reply_def)
  have "set_state WriteOnly c' = (append_response c (wire v))\<lparr>conn_state := WriteOnly\<rparr>"
    by (subst v(2)) (simp add: set_state_def)
  then show ?thesis using v(1) unfolding one_reply_def by (intro conjI exI [of _ v]) (simp_all add: set_state_def)
qed

lemma handler_okI:
  assumes "\<And>e args s c s' c'. db_inv (database s) \<Longrightarrow> env_ok e \<Longrightarrow> h e args (s, c) = (s', c') \<Longrightarrow>
    db_inv (database s') \<and> config s' = config s \<and> one_reply c c'"
  shows "handler_ok h n"
  using assms by (simp add: handler_ok_def)

lemma server_handlers_ok:
  "handler_ok handle_ping 1" "handler_ok handle_echo 2" "handler_ok handle_flushdb 1"
  "handler_ok handle_info 1" "handler_ok handle_save 1" "handler_ok handle_bgsave 1"
  "handler_ok handle_select 2" "handler_ok handle_quit 1"
proof -
  show "handler_ok handle_ping 1"
    by (rule handler_okI) (auto simp: handle_ping_def replies split: if_splits)
  show "handler_ok handle_echo 2" by (rule handler_okI) (auto simp: handle_echo_def replies)
  show "handler_ok handle_flushdb 1"
    by (rule handler_okI) (auto simp: handle_flushdb_def replies db_flush_facts)
  show "handler_ok handle_info 1" by (rule handler_okI) (auto simp: handle_info_def replies)
  show "handler_ok handle_save 1"
  proof (rule handler_okI)
    fix e args s c s' c'
    assume a: "db_inv (database s)" "env_ok e" "handle_save e args (s, c) = (s', c')"
    obtain db fs st where r: "rdb_save_sync (save_calls e) (cfg_rdb_filename (config s)) (database s) (disk s) = (db, fs, st)"
      by (metis surj_pair)
    show "db_inv (database s') \<and> config s' = config s \<and> one_reply c c'"
      using a rdb_save_sync_facts(1,5) [OF a(1) r]
      by (auto simp: handle_save_def r replies env_ok_def same_db_def Let_def split: if_splits)
  qed
  show "handler_ok handle_bgsave 1"
    by (rule handler_okI)
      (auto simp: handle_bgsave_def replies env_ok_def rdb_save_background_def io_error_def Let_def split: if_splits)
  show "handler_ok handle_select 2"
    by (rule handler_okI) (auto simp: handle_select_def replies split: prod.splits if_splits)
  show "handler_ok handle_quit 1"
    by (rule handler_okI) (auto simp: handle_quit_def replies one_reply_quit)
qed

section \<open>The interface\<close>

definition command_ok :: "(server \<Rightarrow> bool) \<Rightarrow> command_entry \<Rightarrow> bool" where
  "command_ok good entry \<longleftrightarrow>
     find_crlf (ce_name entry) = None \<and>
     (\<forall>e args s c s' c'. good s \<longrightarrow> env_ok e \<longrightarrow> arity_min entry \<le> int (length args) \<longrightarrow>
        ce_handler entry e args (s, c) = (s', c') \<longrightarrow> good s' \<and> one_reply c c')"

lemma command_okD:
  assumes "command_ok good entry" "good s" "env_ok e" "arity_min entry \<le> int (length args)"
    and "ce_handler entry e args (s, c) = (s', c')"
  shows "good s'" "one_reply c c'"
  using assms by (auto simp: command_ok_def)

text \<open>
  The one reply that can break the framing: the name of an unknown command is echoed, line ends
  included.
\<close>

definition echoes_clean :: "registry \<Rightarrow> resp_value \<Rightarrow> bool" where
  "echoes_clean table v \<longleftrightarrow>
     (is_array v \<and> rv_elements v \<noteq> [] \<and> is_bulk_string (hd (rv_elements v)) \<and>
      registry_find table (to_upper (rv_str (hd (rv_elements v)))) = None \<longrightarrow>
      find_crlf (to_upper (rv_str (hd (rv_elements v)))) = None)"

lemma no_crlf_around:
  assumes "find_crlf m = None" "CR \<notin> set p" "q \<noteq> []" "CR \<notin> set q" "hd q \<noteq> LF"
  shows "find_crlf (p @ m @ q) = None"
proof -
  have q: "find_crlf q = None" using assms(4) by (rule find_crlf_no_CR)
  have "find_crlf (m @ q) = None"
    using assms(1)
  proof (induction m rule: find_crlf.induct)
    case (1 c d cs)
    then show ?case by (auto split: if_splits)
  qed (use q assms(3,5) in \<open>cases q; auto\<close>)+
  then show ?thesis using assms(2) by (rule no_crlf_prefix)
qed

definition only_appends :: "connection \<Rightarrow> connection \<Rightarrow> bool" where
  "only_appends c c' \<longleftrightarrow>
     read_buf c' = read_buf c \<and> read_pos c' = read_pos c \<and> write_pos c' = write_pos c \<and>
     client_id c' = client_id c \<and> conn_state c' \<in> {conn_state c, WriteOnly} \<and>
     (\<exists>w. write_buf c' = write_buf c @ w)"

lemma one_reply_appends: "one_reply c c' \<Longrightarrow> only_appends c c'"
  using one_reply_frame [of c c'] by (auto simp: only_appends_def one_reply_def)

lemma only_appends_facts:
  assumes "only_appends c c'"
  shows "read_view c' = read_view c" "conn_inv c \<Longrightarrow> conn_inv c'" "client_id c' = client_id c" "answered c c'"
  using assms by (auto simp: only_appends_def conn_inv_def answered_def)

text \<open>\<open>n\<close> values were appended to what the client will be sent.\<close>

definition replies_added :: "nat \<Rightarrow> connection \<Rightarrow> connection \<Rightarrow> bool" where
  "replies_added n c c' \<longleftrightarrow>
     (\<exists>rs. length rs = n \<and> (\<forall>r\<in>set rs. lines_ok r) \<and> write_buf c' = write_buf c @ concat (map wire rs))"

lemma replies_added_Suc:
  assumes "one_reply c c1" "replies_added n c1 c'"
  shows "replies_added (Suc n) c c'"
proof -
  obtain v where v: "lines_ok v" "write_buf c1 = write_buf c @ wire v"
    using one_reply_frame(5) [OF assms(1)] by blast
  obtain rs where "length rs = n" "\<forall>r\<in>set rs. lines_ok r" "write_buf c' = write_buf c1 @ concat (map wire rs)"
    using assms(2) by (auto simp: replies_added_def)
  then show ?thesis using v unfolding replies_added_def by (intro exI [of _ "v # rs"]) simp
qed

lemma wire_nonempty: "wire v \<noteq> []"
  by (cases v) simp_all

text \<open>The commands one after the other, without the parser.\<close>

fun run_commands :: "registry \<Rightarrow> (nat \<Rightarrow> env) \<Rightarrow> nat \<Rightarrow> resp_value list \<Rightarrow> server \<times> connection \<Rightarrow> server \<times> connection" where
  "run_commands table envs i [] sc = sc"
| "run_commands table envs i (v # vs) sc =
     run_commands table envs (i + 1) vs
       (execute table (envs i) v (fst sc, consume (length (wire v)) (snd sc)))"

locale command_table =
  fixes table :: registry
    and good :: "server \<Rightarrow> bool"
  assumes entries_ok: "table n = Some entry \<Longrightarrow> command_ok good entry"
    and good_record: "good s \<Longrightarrow> good (record_command s)"
    and good_dirty: "good s \<Longrightarrow> good (s\<lparr>dirty_keys := k\<rparr>)"
begin

lemma execute_inv:
  assumes "good s" "env_ok e" "execute table e v (s, c) = (s', c')"
  shows "good s' \<and> (echoes_clean table v \<longrightarrow> one_reply c c') \<and> only_appends c c'"
proof -
  consider "\<not> is_array v \<or> rv_elements v = []"
    | "is_array v" "rv_elements v \<noteq> []" "\<not> is_bulk_string (hd (rv_elements v))"
    | "is_array v" "rv_elements v \<noteq> []" "is_bulk_string (hd (rv_elements v))" by blast
  then show ?thesis
  proof cases
    case 1
    then have "s' = s" "c' = resp_error c ''Protocol error: expected array''"
      using assms(3) by (auto simp: execute_def)
    moreover have "one_reply c (resp_error c ''Protocol error: expected array'')"
      by (rule reply_error) simp
    ultimately show ?thesis using assms(1) one_reply_appends by blast
  next
    case 2
    then have "s' = s" "c' = resp_error c ''Protocol error: command name must be bulk string''"
      using assms(3) by (auto simp: execute_def)
    moreover have "one_reply c (resp_error c ''Protocol error: command name must be bulk string'')"
      by (rule reply_error) simp
    ultimately show ?thesis using assms(1) one_reply_appends by blast
  next
    case 3
    let ?name = "to_upper (rv_str (hd (rv_elements v)))"
    let ?argc = "int (length (rv_elements v))"
    show ?thesis
    proof (cases "registry_find table ?name")
      case None
      let ?m = "''unknown command `'' @ ?name @ ''`''"
      have s': "s' = record_command s" and c': "c' = resp_error c ?m"
        using assms(3) 3 None by (auto simp: execute_def Let_def)
      have "find_crlf ?name = None \<Longrightarrow> find_crlf ?m = None"
        by (rule no_crlf_around) simp_all
      then have "echoes_clean table v \<Longrightarrow> one_reply c c'"
        using 3 None reply_error [of ?m c] by (simp add: echoes_clean_def c')
      moreover have "only_appends c c'" by (simp add: c' resp_error_def only_appends_def)
      ultimately show ?thesis using assms(1) good_record s' by simp
    next
      case (Some entry)
      then have ok: "command_ok good entry" using entries_ok by (auto simp: registry_find_def)
      show ?thesis
      proof (cases "?argc < arity_min entry \<or> (arity_max entry \<noteq> - 1 \<and> arity_max entry < ?argc)")
        case True
        let ?m = "(''wrong number of arguments for '' @ [CHR 0x27]) @ ce_name entry @ [CHR 0x27] @ '' command''"
        have s': "s' = record_command s" and c': "c' = resp_error c ?m"
          using assms(3) 3 Some True by (auto simp: execute_def Let_def)
        have "find_crlf ?m = None"
          using ok by (intro no_crlf_around) (simp_all add: command_ok_def)
        then have "one_reply c c'" unfolding c' by (rule reply_error)
        then show ?thesis using assms(1) good_record s' one_reply_appends by blast
      next
        case False
        obtain s1 c1 where h: "ce_handler entry e (rv_elements v) (s, c) = (s1, c1)" by fastforce
        have i: "good s1" "one_reply c c1"
          using command_okD [OF ok assms(1,2) _ h] False by simp_all
        have "c' = c1" "s' = (if ce_flags entry AND CMD_FLAG_WRITE \<noteq> 0
            then (record_command s1)\<lparr>dirty_keys := dirty_keys (record_command s1) + 1\<rparr> else record_command s1)"
          using assms(3) 3 Some False h by (auto simp: execute_def Let_def)
        then show ?thesis using i good_record good_dirty one_reply_appends [OF i(2)] by auto
      qed
    qed
  qed
qed

text \<open>One turn consumes at least a byte, so fuel above the number of unread bytes is enough.\<close>

lemma dispatch_loop_ends:
  assumes "good s" "conn_inv c" "\<forall>n. env_ok (envs n)" "length (read_view c) < f"
    and "dispatch_loop table rsv f envs i (s, c) = ((s', c'), r)"
  shows "good s' \<and> conn_inv c' \<and> r \<noteq> DispatchFuel"
  using assms
proof (induction f arbitrary: s c i)
  case (Suc f)
  show ?case
  proof (cases "parse rsv (read_view c)")
    case (PComplete v n)
    have n: "0 < n" "n \<le> length (read_view c)"
      using parse_bounds(1) [OF PComplete [unfolded parse_def]] by simp_all
    have ne: "read_view c \<noteq> []" using n by auto
    note cf = consume_facts [OF Suc.prems(2) n(2)]
    obtain s1 c1 where x: "execute table (envs i) v (s, consume n c) = (s1, c1)" by fastforce
    have env: "env_ok (envs i)" using Suc.prems(3) by blast
    note e = execute_inv [OF Suc.prems(1) env x]
    have view: "read_view c1 = drop n (read_view c)" and "conn_inv c1"
      using only_appends_facts [of "consume n c" c1] e cf by simp_all
    moreover have "length (read_view c1) < f" using view n Suc.prems(4) by simp
    moreover have "dispatch_loop table rsv f envs (i + 1) (s1, c1) = ((s', c'), r)"
      using Suc.prems(5) PComplete ne x by (simp add: Let_def)
    ultimately show ?thesis using Suc.IH e Suc.prems(3) by blast
  next
    case PFuel
    then show ?thesis using parse_total by blast
  qed (use Suc.prems in \<open>auto simp: Let_def resp_error_def split: if_splits\<close>)
qed simp

text \<open>Whatever the outcome, replies are only added to what the client will be sent.\<close>

lemma dispatch_loop_answers:
  assumes "good s" "conn_inv c" "\<forall>n. env_ok (envs n)" "dispatch_loop table rsv f envs i (s, c) = ((s', c'), r)"
  shows "answered c c'"
  using assms
proof (induction f arbitrary: s c i)
  case (Suc f)
  show ?case
  proof (cases "parse rsv (read_view c)")
    case (PComplete v n)
    have n: "0 < n" "n \<le> length (read_view c)"
      using parse_bounds(1) [OF PComplete [unfolded parse_def]] by simp_all
    have ne: "read_view c \<noteq> []" using n by auto
    note cf = consume_facts [OF Suc.prems(2) n(2)]
    obtain s1 c1 where x: "execute table (envs i) v (s, consume n c) = (s1, c1)" by fastforce
    have env: "env_ok (envs i)" using Suc.prems(3) by blast
    note e = execute_inv [OF Suc.prems(1) env x]
    have c1: "answered (consume n c) c1" "conn_inv c1" using only_appends_facts [of "consume n c" c1] e cf by simp_all
    have "dispatch_loop table rsv f envs (i + 1) (s1, c1) = ((s', c'), r)"
      using Suc.prems(4) PComplete ne x by (simp add: Let_def)
    then have "answered c1 c'" using Suc.IH c1(2) e Suc.prems(3) by blast
    then show ?thesis using answered_trans [OF answered_consume answered_trans [OF c1(1)]] by blast
  next
    case PError
    then show ?thesis using Suc.prems(4)
      by (auto simp: Let_def resp_error_def answered_write_only split: if_splits)
  qed (use Suc.prems(4) in \<open>auto simp: Let_def split: if_splits\<close>)
qed simp

text \<open>A pipeline of complete commands is executed in order, one reply each.\<close>

lemma pipeline:
  assumes "good s" "conn_inv c" "\<forall>n. env_ok (envs n)" "\<forall>v\<in>set vs. wire_ok v \<and> sizes_allowed rsv v"
    and "read_view c = concat (map wire vs) @ t" "length (read_view c) < f"
  shows "\<exists>s' c' f'. dispatch_loop table rsv f envs i (s, c) = dispatch_loop table rsv f' envs (i + length vs) (s', c') \<and>
    run_commands table envs i vs (s, c) = (s', c') \<and> good s' \<and> conn_inv c' \<and> read_view c' = t \<and> length t < f' \<and>
    ((\<forall>v\<in>set vs. echoes_clean table v) \<longrightarrow> replies_added (length vs) c c')"
  using assms
proof (induction vs arbitrary: s c i f)
  case Nil
  then show ?case by (intro exI [of _ s] exI [of _ c] exI [of _ f]) (simp add: replies_added_def)
next
  case (Cons v vs)
  let ?n = "length (wire v)"
  have buf: "read_view c = wire v @ concat (map wire vs) @ t" using Cons.prems(5) by simp
  have p: "parse rsv (read_view c) = PComplete v ?n"
    unfolding buf using Cons.prems(4) by (intro parse_wire) simp_all
  have n: "?n \<le> length (read_view c)" "0 < ?n" using buf by (simp_all add: wire_nonempty)
  note cf = consume_facts [OF Cons.prems(2) n(1)]
  obtain g where g: "f = Suc g" using Cons.prems(6) by (cases f) auto
  obtain s1 c1 where x: "execute table (envs i) v (s, consume ?n c) = (s1, c1)" by fastforce
  note e = execute_inv [OF Cons.prems(1) _ x]
  have env: "env_ok (envs i)" using Cons.prems(3) by blast
  have f1: "read_view c1 = concat (map wire vs) @ t" "conn_inv c1"
    using only_appends_facts [of "consume ?n c" c1] e [OF env] cf buf by (simp_all del: read_view_drop)
  have g1: "good s1" using e [OF env] by simp
  have small: "length (read_view c1) < g" using f1(1) Cons.prems(6) buf n(2) g
    by (cases "wire v") (simp_all del: read_view_drop)
  have ok: "\<forall>v\<in>set vs. wire_ok v \<and> sizes_allowed rsv v" using Cons.prems(4) by simp
  obtain s' c' f' where ih: "dispatch_loop table rsv g envs (i + 1) (s1, c1) =
      dispatch_loop table rsv f' envs (i + 1 + length vs) (s', c')"
    "run_commands table envs (i + 1) vs (s1, c1) = (s', c')" "good s'" "conn_inv c'" "read_view c' = t"
    "length t < f'" "(\<forall>v\<in>set vs. echoes_clean table v) \<longrightarrow> replies_added (length vs) c1 c'"
    using Cons.IH [OF g1 f1(2) Cons.prems(3) ok f1(1) small] by blast
  have "dispatch_loop table rsv f envs i (s, c) = dispatch_loop table rsv g envs (i + 1) (s1, c1)"
    using p n x by (auto simp: g Let_def)
  moreover have "replies_added (length (v # vs)) c c'" if "\<forall>w\<in>set (v # vs). echoes_clean table w"
  proof -
    have "replies_added (length vs) c1 c'" "one_reply (consume ?n c) c1"
      using that ih(7) e [OF env] by simp_all
    then show ?thesis using replies_added_Suc [of "consume ?n c" c1] cf(3) by (simp add: replies_added_def)
  qed
  ultimately show ?case using ih x by (intro exI [of _ s'] exI [of _ c'] exI [of _ f']) simp
qed

end

section \<open>The registered commands\<close>

lemma fold_register_ok:
  assumes "\<forall>x\<in>set es. P x" "\<forall>n x. table n = Some x \<longrightarrow> P x"
  shows "\<forall>n x. fold register_command es table n = Some x \<longrightarrow> P x"
  using assms
proof (induction es arbitrary: table)
  case (Cons y es)
  have "P x" if "register_command y table n = Some x" for n x
  proof (cases "table (to_upper (ce_name y)) = None \<and> n = to_upper (ce_name y)")
    case True
    then have "x = y" using that by (simp add: register_command_def Let_def)
    then show ?thesis using Cons.prems(1) by simp
  next
    case False
    then have "table n = Some x"
      using that by (auto simp: register_command_def Let_def split: option.splits if_splits)
    then show ?thesis using Cons.prems(2) by blast
  qed
  then have t: "\<forall>n x. register_command y table n = Some x \<longrightarrow> P x" by blast
  have "\<forall>x\<in>set es. P x" using Cons.prems(1) by simp
  from Cons.IH [OF this t] show ?case by simp
qed simp

abbreviation db_good :: "server \<Rightarrow> bool" where
  "db_good s \<equiv> db_inv (database s)"

text \<open>The same with the configuration, which no command changes.\<close>

definition serves :: "server_config \<Rightarrow> server \<Rightarrow> bool" where
  "serves cfg s \<longleftrightarrow> db_inv (database s) \<and> config s = cfg"

lemma command_ok_cmd:
  assumes "handler_ok h n" "good = db_good \<or> good = serves cfg" "lo = int n" "find_crlf nm = None"
  shows "command_ok good (cmd nm h lo hi fl)"
  using assms by (auto simp: command_ok_def cmd_def handler_ok_def serves_def)

lemmas handlers_ok = server_handlers_ok string_handlers_ok [THEN handler_ok_on_db]
  key_handlers_ok [THEN handler_ok_on_db]

lemma commands_ok:
  assumes "good = db_good \<or> good = serves cfg"
  shows "\<forall>x\<in>set string_commands. command_ok good x"
    and "\<forall>x\<in>set key_commands. command_ok good x"
    and "\<forall>x\<in>set server_commands. command_ok good x"
  unfolding string_commands_def key_commands_def server_commands_def list.set ball_simps
  by (intro conjI TrueI handlers_ok [THEN command_ok_cmd [OF _ assms]]; simp)+

lemma registered_ok:
  assumes "good = db_good \<or> good = serves cfg" "register_all_commands n = Some x"
  shows "command_ok good x"
proof -
  have "\<forall>n x. (Map.empty :: registry) n = Some x \<longrightarrow> command_ok good x" by simp
  from fold_register_ok [OF commands_ok(3) [OF assms(1)]
      fold_register_ok [OF commands_ok(2) [OF assms(1)] fold_register_ok [OF commands_ok(1) [OF assms(1)] this]]]
  show ?thesis using assms(2) unfolding register_all_commands_def by blast
qed

interpretation commands: command_table register_all_commands db_good
  by unfold_locales (auto simp: registered_ok record_command_def)

interpretation configured: command_table register_all_commands "serves cfg" for cfg
  by unfold_locales (auto simp: registered_ok [OF disjI2 [OF refl]] record_command_def serves_def)

end
