(* ===== verification/Logger.thy ===== *)
theory Logger
  imports Prelude
begin

text \<open>
  \<^verbatim>\<open>Logger\<close> (\<^verbatim>\<open>src/common/logger.cpp\<close>): the level filter and the assembly of a line in fixed
  buffers. The formatted timestamp and the message that \<^verbatim>\<open>vsnprintf\<close> would write into an unlimited
  buffer are arguments. An operation returns what it hands to \<^verbatim>\<open>write\<close>, or \<open>None\<close> when that call reads past
  the end of the buffer.
\<close>

datatype log_level = LogDebug | LogInfo | LogWarn | LogError

fun level_number :: "log_level \<Rightarrow> int" where
  "level_number LogDebug = 0"
| "level_number LogInfo = 1"
| "level_number LogWarn = 2"
| "level_number LogError = 3"

fun level_tag :: "log_level \<Rightarrow> string" where
  "level_tag LogDebug = ''DEBUG''"
| "level_tag LogInfo = ''INFO ''"
| "level_tag LogWarn = ''WARN ''"
| "level_tag LogError = ''ERROR''"

text \<open>The levels are ordered as the numbers of the enumeration.\<close>

instantiation log_level :: linorder
begin

definition less_eq_log_level :: "log_level \<Rightarrow> log_level \<Rightarrow> bool" where
  "less_eq_log_level a b \<longleftrightarrow> level_number a \<le> level_number b"

definition less_log_level :: "log_level \<Rightarrow> log_level \<Rightarrow> bool" where
  "less_log_level a b \<longleftrightarrow> level_number a < level_number b"

instance
proof
  fix a b :: log_level
  show "a = b" if "a \<le> b" "b \<le> a" using that by (cases a; cases b) (simp_all add: less_eq_log_level_def)
qed (auto simp: less_eq_log_level_def less_log_level_def)

end

text \<open>\<^verbatim>\<open>snprintf\<close>: the buffer, with its terminating zero, and the length of the whole text.\<close>

definition c_snprintf :: "nat \<Rightarrow> string \<Rightarrow> string \<times> nat" where
  "c_snprintf n text = (take (n - 1) text @ [CHR 0x00], length text)"

definition c_string :: "string \<Rightarrow> string" where
  "c_string buf = takeWhile (\<lambda>c. c \<noteq> CHR 0x00) buf"

definition write_prefix :: "nat \<Rightarrow> string \<Rightarrow> nat \<Rightarrow> string option" where
  "write_prefix n buf len = (if len \<le> n \<and> len \<le> length buf then Some (take len buf) else None)"

definition logger_write :: "log_level \<Rightarrow> string \<Rightarrow> string \<Rightarrow> string option" where
  "logger_write lvl ts msg =
     (let ts_buf = c_string ts;
          msg_buf = c_string (fst (c_snprintf 2048 msg));
          (line_buf, len) = c_snprintf 2200 (''['' @ ts_buf @ ''] ['' @ level_tag lvl @ ''] '' @ msg_buf @ [CHR 0x0A])
      in write_prefix 2200 line_buf len)"

section \<open>The logging functions\<close>

text \<open>The list of the calls of \<^verbatim>\<open>write\<close> that are made.\<close>

definition logger_debug :: "log_level \<Rightarrow> string \<Rightarrow> string \<Rightarrow> string option list" where
  "logger_debug level ts msg = (if LogDebug < level then [] else [logger_write LogDebug ts msg])"

definition logger_info :: "log_level \<Rightarrow> string \<Rightarrow> string \<Rightarrow> string option list" where
  "logger_info level ts msg = (if LogInfo < level then [] else [logger_write LogInfo ts msg])"

definition logger_warn :: "log_level \<Rightarrow> string \<Rightarrow> string \<Rightarrow> string option list" where
  "logger_warn level ts msg = (if LogWarn < level then [] else [logger_write LogWarn ts msg])"

definition logger_error :: "log_level \<Rightarrow> string \<Rightarrow> string \<Rightarrow> string option list" where
  "logger_error level ts msg = [logger_write LogError ts msg]"

text \<open>The free functions test the level the other way round.\<close>

definition log_debug :: "log_level \<Rightarrow> string \<Rightarrow> string \<Rightarrow> string option list" where
  "log_debug level ts msg = (if level \<le> LogDebug then [logger_write LogDebug ts msg] else [])"

definition log_info :: "log_level \<Rightarrow> string \<Rightarrow> string \<Rightarrow> string option list" where
  "log_info level ts msg = (if level \<le> LogInfo then [logger_write LogInfo ts msg] else [])"

definition log_warn :: "log_level \<Rightarrow> string \<Rightarrow> string \<Rightarrow> string option list" where
  "log_warn level ts msg = (if level \<le> LogWarn then [logger_write LogWarn ts msg] else [])"

definition log_error :: "log_level \<Rightarrow> string \<Rightarrow> string \<Rightarrow> string option list" where
  "log_error level ts msg = [logger_write LogError ts msg]"

text \<open>Step 2 of \<^verbatim>\<open>main\<close>.\<close>

definition configured_level :: "string \<Rightarrow> log_level" where
  "configured_level loglevel =
     (if loglevel = ''debug'' then LogDebug
      else if loglevel = ''warn'' then LogWarn
      else if loglevel = ''error'' then LogError
      else LogInfo)"

lemma free_functions_agree:
  "log_debug level ts msg = logger_debug level ts msg" "log_info level ts msg = logger_info level ts msg"
  "log_warn level ts msg = logger_warn level ts msg" "log_error level ts msg = logger_error level ts msg"
  by (simp_all add: log_debug_def logger_debug_def log_info_def logger_info_def log_warn_def logger_warn_def
      log_error_def logger_error_def not_less)

lemma length_level_tag: "length (level_tag lvl) = 5"
  by (cases lvl) simp_all

lemma takeWhile_take_id: "CHR 0x00 \<notin> set s \<Longrightarrow> c_string (take n s @ [CHR 0x00]) = take n s"
  unfolding c_string_def
  by (subst takeWhile_append2) (auto dest: in_set_takeD)

lemma write_fitting:
  "length text < n \<Longrightarrow> c_snprintf n text = (buf, len) \<Longrightarrow> write_prefix n buf len = Some text"
  by (auto simp: c_snprintf_def write_prefix_def)

text \<open>The line buffer is large enough: for every timestamp that fits its buffer and every message,
  however long, the line that is written is complete, with the message cut after 2047 bytes, and no
  byte beyond the buffer is read.\<close>

lemma log_line_in_bounds:
  assumes "length ts < 32" "CHR 0x00 \<notin> set ts" "CHR 0x00 \<notin> set msg"
  shows "logger_write lvl ts msg =
    Some (''['' @ ts @ ''] ['' @ level_tag lvl @ ''] '' @ take 2047 msg @ [CHR 0x0A])"
proof -
  have ts: "c_string ts = ts" using assms(2) by (auto simp: c_string_def takeWhile_eq_all_conv)
  have msg: "c_string (fst (c_snprintf 2048 msg)) = take 2047 msg"
    using takeWhile_take_id [OF assms(3), of 2047] by (simp add: c_snprintf_def)
  let ?line = "''['' @ ts @ ''] ['' @ level_tag lvl @ ''] '' @ take 2047 msg @ [CHR 0x0A]"
  obtain buf len where line: "c_snprintf 2200 ?line = (buf, len)" by fastforce
  have "length ?line < 2200" using assms(1) by (simp add: length_level_tag)
  from write_fitting [OF this line] show ?thesis
    unfolding logger_write_def ts msg Let_def line by simp
qed

lemma log_line_in_bounds_witness:
  "logger_write LogWarn ''2026-09-15T18:30:00Z'' (replicate 5000 (CHR ''x'')) \<noteq> None"
  using log_line_in_bounds [of "''2026-09-15T18:30:00Z''" "replicate 5000 (CHR ''x'')" LogWarn] by simp

end
