(* ===== verification/EntryPoint.thy ===== *)
theory EntryPoint
  imports TcpInv Rdb Dispatch Logger
begin

text \<open>
  \<^verbatim>\<open>src/main.cpp\<close>: the command line, the signal pipe, the wiring of the components, startup and
  shutdown. The callbacks that the event loop holds are the constructors of \<open>callback\<close>; \<open>main_call\<close>
  says what each of them runs.
\<close>

section \<open>Command line\<close>

text \<open>
  \<^verbatim>\<open>std::atoi\<close> and \<^verbatim>\<open>std::atoll\<close>: white space, a sign, digits, the rest ignored. The result is
  undefined when it does not fit the type.
\<close>

definition is_space :: "char \<Rightarrow> bool" where
  "is_space c \<longleftrightarrow> c = CHR '' '' \<or> (9 \<le> (of_char c :: nat) \<and> (of_char c :: nat) \<le> 13)"

definition c_digit :: "char \<Rightarrow> bool" where
  "c_digit c \<longleftrightarrow> 48 \<le> (of_char c :: nat) \<and> (of_char c :: nat) \<le> 57"

definition digits_value :: "string \<Rightarrow> int" where
  "digits_value s = foldl (\<lambda>n c. 10 * n + (of_char c - 48)) 0 (takeWhile c_digit s)"

definition atoi_value :: "string \<Rightarrow> int" where
  "atoi_value s =
     (case dropWhile is_space s of
        [] \<Rightarrow> 0
      | c # cs \<Rightarrow>
          if c = CHR ''-'' then - digits_value cs else if c = CHR ''+'' then digits_value cs else digits_value (c # cs))"

definition c_atoi :: "nat \<Rightarrow> string \<Rightarrow> int option" where
  "c_atoi bits s =
     (let v = atoi_value s in if - (2 ^ (bits - 1)) \<le> v \<and> v < 2 ^ (bits - 1) then Some v else None)"

datatype args_outcome = Config server_config | ExitWith int | Undefined

text \<open>The arguments after the name of the program.\<close>

fun parse_args_from :: "server_config \<Rightarrow> string list \<Rightarrow> args_outcome" where
  "parse_args_from cfg [] = Config cfg"
| "parse_args_from cfg (arg # rest) =
     (if (arg = ''--host'' \<or> arg = ''-h'') \<and> rest \<noteq> [] then parse_args_from (cfg\<lparr>cfg_host := hd rest\<rparr>) (tl rest)
      else if (arg = ''--port'' \<or> arg = ''-p'') \<and> rest \<noteq> [] then
        (case c_atoi 32 (hd rest) of
           None \<Rightarrow> Undefined
         | Some v \<Rightarrow> parse_args_from (cfg\<lparr>cfg_port := word_of_int v\<rparr>) (tl rest))
      else if arg = ''--loglevel'' \<and> rest \<noteq> [] then parse_args_from (cfg\<lparr>cfg_loglevel := hd rest\<rparr>) (tl rest)
      else if arg = ''--maxmemory'' \<and> rest \<noteq> [] then
        (case c_atoi 64 (hd rest) of
           None \<Rightarrow> Undefined
         | Some v \<Rightarrow> parse_args_from (cfg\<lparr>cfg_maxmemory := unat (word_of_int v :: u64)\<rparr>) (tl rest))
      else if arg = ''--rdb-filename'' \<and> rest \<noteq> [] then
        parse_args_from (cfg\<lparr>cfg_rdb_filename := hd rest\<rparr>) (tl rest)
      else if arg = ''--no-rdb'' then parse_args_from (cfg\<lparr>cfg_rdb_enabled := False\<rparr>) rest
      else if arg = ''--help'' then ExitWith 0
      else parse_args_from cfg rest)"

definition parse_args :: "string list \<Rightarrow> args_outcome" where
  "parse_args args = parse_args_from default_config args"

section \<open>The application behind the server\<close>

text \<open>What the world answers to one callback besides the calls on sockets.\<close>

record main_input =
  reserve_ok :: "nat \<Rightarrow> bool"
  envs :: "nat \<Rightarrow> env"
  pipe_byte :: "char option"
  reaped_pid :: int
  child_exited :: bool
  child_code :: int
  unix_time :: i64
  cron_draws :: "(u64 \<times> u64) \<times> (u64 \<times> u64) \<times> (u64 \<times> u64)"
  cron_ms :: i64
  cron_s :: i64
  disk_change :: "files \<Rightarrow> files"

type_synonym 'k main_state = "('k, server, main_input) tcp_server"

text \<open>The lambda given to \<^verbatim>\<open>set_request_handler\<close>.\<close>

definition main_handler :: "main_input \<Rightarrow> server \<times> connection \<Rightarrow> (server \<times> connection) option" where
  "main_handler inp sc =
     (case dispatch (reserve_ok inp) (envs inp) sc of
        (sc, outcome) \<Rightarrow> if outcome = DispatchAborted then None else Some sc)"

definition SIGINT :: int where "SIGINT = 2"
definition SIGTERM :: int where "SIGTERM = 15"
definition SIGCHLD :: int where "SIGCHLD = 17"

text \<open>The byte that the signal handler writes to the pipe.\<close>

definition signal_handler :: "int \<Rightarrow> char" where
  "signal_handler signum = char_of signum"

text \<open>\<open>static_cast<int>\<close> of a \<open>char\<close>, which is signed.\<close>

definition signum_of :: "char \<Rightarrow> int" where
  "signum_of b = (if (of_char b :: int) < 128 then of_char b else of_char b - 256)"

lemma signum_of_handler: "0 \<le> signum \<Longrightarrow> signum < 128 \<Longrightarrow> signum_of (signal_handler signum) = signum"
  by (simp add: signum_of_def signal_handler_def of_char_of)

definition on_signal_pipe_readable :: "main_input \<Rightarrow> 'k main_state \<Rightarrow> 'k main_state" where
  "on_signal_pipe_readable inp w =
     (case pipe_byte inp of
        None \<Rightarrow> w
      | Some b \<Rightarrow>
          let signum = signum_of b in
          if signum = SIGTERM \<or> signum = SIGINT then w\<lparr>ev_loop := loop_stop (ev_loop w)\<rparr>
          else if signum = SIGCHLD then
            (if bgsave_child_pid (app w) \<noteq> - 1
             then w\<lparr>app :=
                     on_bgsave_child_exit (reaped_pid inp) (child_exited inp) (child_code inp) (unix_time inp)
                       (app w)\<rparr>
             else w)
          else w)"

text \<open>
  Other processes run between the callbacks, the child of \<^verbatim>\<open>BGSAVE\<close> among them; \<open>disk_change\<close> is what
  they did to the files since the last callback.
\<close>

definition others_write :: "(files \<Rightarrow> files) \<Rightarrow> 'k main_state \<Rightarrow> 'k main_state" where
  "others_write change w = w\<lparr>app := (app w)\<lparr>disk := change (disk (app w))\<rparr>\<rparr>"

definition main_cron :: "main_input \<Rightarrow> 'k main_state \<Rightarrow> 'k main_state" where
  "main_cron inp w =
     w\<lparr>app := fst (server_cron (cron_draws inp) (cron_ms inp) (cron_s inp) (app w))\<rparr>"

text \<open>What the callbacks run; after a crash, nothing runs.\<close>

definition main_call :: "'k epoll_ctl \<Rightarrow> callback \<Rightarrow> int \<Rightarrow> 'k main_state \<Rightarrow> 'k main_state" where
  "main_call ctl cb fd w =
     (if crashed w then w
      else case next_answer w of
             None \<Rightarrow> w
           | Some (an, w) \<Rightarrow>
               let w = others_write (disk_change (input an)) w in
               case cb of
                 OnNewConnection \<Rightarrow> on_new_connection ctl an w
               | OnClientReadable \<Rightarrow> on_client_readable ctl an fd w
               | OnClientWritable \<Rightarrow> on_client_writable ctl an fd w
               | OnSignal \<Rightarrow> on_signal_pipe_readable (input an) w
               | OnTimer \<Rightarrow> main_cron (input an) w)"

section \<open>Startup and shutdown\<close>

text \<open>Steps 3 and 5: the context and the snapshot.\<close>

definition main_boot :: "server_config \<Rightarrow> i64 \<Rightarrow> load_env \<Rightarrow> files \<Rightarrow> server" where
  "main_boot cfg now e fs =
     (let s = server_init fs cfg now
      in s\<lparr>database := load_at_startup e (cfg_rdb_filename cfg) fs (database s)\<rparr>)"

text \<open>\<open>pipe\<close> is the read end that \<^verbatim>\<open>pipe2\<close> returns, if it succeeds.\<close>

definition install_signal_handlers ::
    "'k epoll_ctl \<Rightarrow> int option \<Rightarrow> 'k main_state \<Rightarrow> 'k main_state \<times> bool" where
  "install_signal_handlers ctl pipe w =
     (case pipe of
        None \<Rightarrow> (w, False)
      | Some fd \<Rightarrow> (w\<lparr>ev_loop := fst (add_readable ctl fd OnSignal (ev_loop w))\<rparr>, True))"

text \<open>The division of C++ rounds towards zero; the one by zero is the caller's concern.\<close>

definition c_quot :: "int \<Rightarrow> int \<Rightarrow> int" where
  "c_quot a b = sgn a * sgn b * (\<bar>a\<bar> div \<bar>b\<bar>)"

text \<open>
  Steps 7 to 10; \<open>None\<close> is the end of the process: the exit with code 1, or the trap of a division by
  zero.
\<close>

definition main_setup ::
    "'k epoll_ctl \<Rightarrow> 'k \<Rightarrow> int option \<Rightarrow> sock_answers \<Rightarrow> int \<Rightarrow> server \<Rightarrow> 'k main_state option" where
  "main_setup ctl k pipe a now s =
     (let created = fst (create_server a (cfg_host (config s)) (cfg_port (config s)));
          w = tcp_new (loop_new k) s [];
          w = set_request_handler main_handler w;
          (w, ok) = install_signal_handlers ctl pipe w
      in if \<not> ok then None
         else case tcp_start ctl created w of
                (w, st) \<Rightarrow>
                  if \<not> st_ok st then None
                  else if cfg_hz (config s) = 0 then None
                  else Some (w\<lparr>ev_loop := set_timer (c_quot 1000 (cfg_hz (config s))) OnTimer now (ev_loop w)\<rparr>))"

text \<open>Step 12; the status of the final save is ignored.\<close>

definition main_shutdown ::
    "'k epoll_ctl \<Rightarrow> int list \<Rightarrow> save_env \<Rightarrow> 'k main_state \<Rightarrow> 'k main_state" where
  "main_shutdown ctl order e w =
     (let w = tcp_stop ctl order w; s = app w
      in if cfg_rdb_enabled (config s) \<and> 0 < dirty_keys s
         then case rdb_save_sync e (cfg_rdb_filename (config s)) (database s) (disk s) of
                (db, fs, _) \<Rightarrow> w\<lparr>app := s\<lparr>database := db, disk := fs\<rparr>\<rparr>
         else w)"

section \<open>The running server\<close>

text \<open>The loop of the program: its state with the callbacks of \<open>main_call\<close>.\<close>

definition put_loop :: "('k, callback) event_loop \<Rightarrow> 'k main_state \<Rightarrow> 'k main_state" where
  "put_loop lp w = w\<lparr>ev_loop := lp\<rparr>"

definition main_turn :: "'k epoll_ctl \<Rightarrow> wait_result \<times> int \<Rightarrow> 'k main_state \<Rightarrow> 'k main_state" where
  "main_turn ctl wait w = fst (run_turn ev_loop put_loop (main_call ctl) wait w)"

end
