(* ===== verification/DispatchProps.thy ===== *)
theory DispatchProps
  imports Dispatch RespStream
begin

text \<open>
  The properties of the pipeline loop and of the registry.
\<close>

section \<open>The registry\<close>

definition all_commands :: "command_entry list" where
  "all_commands = string_commands @ key_commands @ server_commands"

lemma fold_register_find:
  "fold register_command es table n =
     (case table n of Some x \<Rightarrow> Some x | None \<Rightarrow> find (\<lambda>x. to_upper (ce_name x) = n) es)"
proof (induction es arbitrary: table)
  case (Cons y es)
  have "register_command y table n =
      (case table n of Some x \<Rightarrow> Some x | None \<Rightarrow> if to_upper (ce_name y) = n then Some y else None)"
    by (auto simp: register_command_def Let_def split: option.splits)
  then show ?case by (auto simp: Cons.IH split: option.splits)
qed (simp split: option.splits)

lemma register_all_find: "register_all_commands n = find (\<lambda>x. to_upper (ce_name x) = n) all_commands"
proof -
  have "register_all_commands = fold register_command all_commands Map.empty"
    unfolding register_all_commands_def all_commands_def by (simp only: fold_append comp_apply)
  then have "register_all_commands n = fold register_command all_commands Map.empty n" by (rule arg_cong)
  also have "\<dots> = find (\<lambda>x. to_upper (ce_name x) = n) all_commands" by (subst fold_register_find) simp
  finally show ?thesis .
qed

lemma all_names:
  "map ce_name all_commands =
     [''SET'', ''GET'', ''GETSET'', ''MSET'', ''MGET'', ''APPEND'', ''STRLEN'', ''INCR'', ''INCRBY'', ''DECR'',
      ''DECRBY'', ''SETEX'', ''PSETEX'', ''SETNX'', ''DEL'', ''EXISTS'', ''TYPE'', ''EXPIRE'', ''PEXPIRE'',
      ''EXPIREAT'', ''TTL'', ''PTTL'', ''PERSIST'', ''KEYS'', ''RENAME'', ''DBSIZE'', ''PING'', ''ECHO'',
      ''FLUSHDB'', ''INFO'', ''SAVE'', ''BGSAVE'', ''SELECT'', ''QUIT'']"
  by (simp add: all_commands_def string_commands_def key_commands_def server_commands_def cmd_def)

lemma registry_find_name: "registry_find register_all_commands name = find (\<lambda>x. ce_name x = to_upper name) all_commands"
proof -
  have "\<forall>n\<in>set (map ce_name all_commands). to_upper n = n"
    unfolding all_names by (simp add: to_upper_def toupper_char_def)
  then have "\<forall>x\<in>set all_commands. to_upper (ce_name x) = ce_name x" by simp
  then have "find (\<lambda>x. to_upper (ce_name x) = n) all_commands = find (\<lambda>x. ce_name x = n) all_commands" for n
    by (intro find_cong) auto
  then show ?thesis by (simp add: registry_find_def register_all_find)
qed

lemma registry_find_None:
  "registry_find register_all_commands name = None \<longleftrightarrow> to_upper name \<notin> set (map ce_name all_commands)"
  unfolding registry_find_name find_None_iff by force

text \<open>The registry is complete and unambiguous: the 34 commands have distinct upper-case names, so
  no registration is lost to an earlier one, and a lookup finds, for a name in any mix of cases,
  the first entry registered under it.\<close>

lemma registry_lookup:
  "registry_find register_all_commands name = find (\<lambda>x. ce_name x = to_upper name) all_commands \<and>
   distinct (map ce_name all_commands) \<and> length all_commands = 34"
proof -
  have "distinct (map ce_name all_commands)" "length (map ce_name all_commands) = 34"
    unfolding all_names by simp_all
  then show ?thesis by (simp add: registry_find_name)
qed

section \<open>The pipeline\<close>

definition sample_conn :: "string \<Rightarrow> connection" where
  "sample_conn bytes = (conn_new 1)\<lparr>read_buf := bytes\<rparr>"

abbreviation empty_server :: server where
  "empty_server \<equiv> server_init Map.empty default_config 0"

lemma sample_facts [simp]:
  "conn_inv (sample_conn s)" "read_view (sample_conn s) = s" "write_buf (sample_conn s) = []" "db_inv (database empty_server)"
  by (simp_all add: sample_conn_def conn_inv_def conn_new_def server_init_def db_new_facts)

text \<open>C9. The server survives any input: whatever bytes a client sends, dispatching them ends with fuel
  to spare, and leaves a consistent database and connection, also where the parser aborts or
  reports an error.\<close>

theorem dispatch_keeps_invariants:
  assumes "db_inv (database s)" "conn_inv c" "\<forall>n. env_ok (envs n)"
    and "dispatch rsv envs (s, c) = ((s', c'), outcome)"
  shows "db_inv (database s') \<and> conn_inv c' \<and> outcome \<noteq> DispatchFuel"
  using commands.dispatch_loop_ends [OF assms(1-3) _ assms(4) [unfolded dispatch_def]] by simp

lemma dispatch_keeps_invariants_witness:
  "db_inv (database (fst (fst (dispatch (\<lambda>_. True) (\<lambda>_. at_time 5) (empty_server, sample_conn ''*2abc'')))))"
proof -
  obtain s' c' r where d: "dispatch (\<lambda>_. True) (\<lambda>_. at_time 5) (empty_server, sample_conn ''*2abc'') = ((s', c'), r)"
    by (metis surj_pair)
  show ?thesis using dispatch_keeps_invariants [OF _ _ _ d] by (simp add: d)
qed

text \<open>C8. Pipelining: when the unread bytes are complete commands followed by an incomplete rest, the
  commands are executed exactly once each and in order, each adds exactly one RESP2 value to the
  output, and the rest stays in the buffer. Excluded are only unknown commands whose name holds a
  line end.\<close>

theorem pipeline_answers_in_order:
  assumes "db_inv (database s)" "conn_inv c" "\<forall>n. env_ok (envs n)"
    and "\<forall>v\<in>set vs. wire_ok v \<and> sizes_allowed rsv v"
    and "read_view c = concat (map wire vs) @ t" "parse rsv t = PIncomplete"
  shows "\<exists>s' c'. dispatch rsv envs (s, c) = ((s', c'), DispatchDone) \<and>
    run_commands register_all_commands envs 0 vs (s, c) = (s', c') \<and>
    db_inv (database s') \<and> read_view c' = t \<and>
    ((\<forall>v\<in>set vs. echoes_clean register_all_commands v) \<longrightarrow>
      (\<exists>rs. length rs = length vs \<and> (\<forall>r\<in>set rs. lines_ok r) \<and> write_buf c' = write_buf c @ concat (map wire rs)))"
proof -
  obtain s' c' f where p: "dispatch rsv envs (s, c) = dispatch_loop register_all_commands rsv f envs (length vs) (s', c')"
    "run_commands register_all_commands envs 0 vs (s, c) = (s', c')" "db_inv (database s')" "read_view c' = t" "length t < f"
    "(\<forall>v\<in>set vs. echoes_clean register_all_commands v) \<longrightarrow> replies_added (length vs) c c'"
    using commands.pipeline [OF assms(1-5), of "length (read_view c) + 1" 0] unfolding dispatch_def by auto
  have "dispatch_loop register_all_commands rsv f envs (length vs) (s', c') = ((s', c'), DispatchDone)"
    using p(4,5) assms(6) by (cases f) (auto simp: Let_def)
  then show ?thesis using p by (auto simp: replies_added_def)
qed

definition two_pings :: "resp_value list" where
  "two_pings = [RespArray [BulkString ''ping''], RespArray [BulkString ''PING'', BulkString ''a'']]"

lemma two_pings_known: "\<forall>v\<in>set two_pings. echoes_clean register_all_commands v"
proof -
  have "to_upper ''ping'' = ''PING''" "to_upper ''PING'' = ''PING''" by code_simp+
  moreover have "registry_find register_all_commands ''PING'' \<noteq> None"
    unfolding registry_find_None \<open>to_upper ''PING'' = ''PING''\<close> all_names by simp
  ultimately show ?thesis by (simp add: two_pings_def echoes_clean_def)
qed

lemma pipeline_answers_in_order_witness:
  "\<exists>s' c' r1 r2. dispatch (\<lambda>_. True) (\<lambda>_. at_time 5) (empty_server, sample_conn (concat (map wire two_pings))) =
     ((s', c'), DispatchDone) \<and> write_buf c' = wire r1 @ wire r2 \<and> read_view c' = []"
proof -
  let ?c = "sample_conn (concat (map wire two_pings))"
  have ok: "\<forall>v\<in>set two_pings. wire_ok v \<and> sizes_allowed (\<lambda>_. True) v"
    by (simp add: two_pings_def in_i64_def LLONG_MAX_def LLONG_MIN_def)
  have n: "length two_pings = 2" by (simp add: two_pings_def)
  have "parse (\<lambda>_. True) [] = PIncomplete" by (simp add: parse_def parse_value.simps)
  from pipeline_answers_in_order [OF sample_facts(4,1) _ ok _ this, of "\<lambda>_. at_time 5" "concat (map wire two_pings)"]
  obtain s' c' rs where r: "dispatch (\<lambda>_. True) (\<lambda>_. at_time 5) (empty_server, ?c) = ((s', c'), DispatchDone)"
    "read_view c' = []" "length rs = 2" "write_buf c' = concat (map wire rs)"
    using two_pings_known n by (auto simp del: read_view_drop)
  obtain r1 r2 where "rs = [r1, r2]" using r(3) by (auto simp: numeral_2_eq_2 length_Suc_conv)
  then show ?thesis using r by auto
qed

text \<open>An unknown command is answered by echoing its name, line ends included: a client that sends
  the single command \<^verbatim>\<open>x CR LF +OK\<close> receives two replies, the second of which no command gave.\<close>

lemma unknown_command_splits_response:
  "write_buf (snd (execute register_all_commands e (RespArray [BulkString (''x'' @ CRLF @ ''+OK'')]) (s, conn_new 1))) =
     wire (RespError (''ERR unknown command `X'')) @ wire (SimpleString ''OK`'')"
proof -
  have up: "to_upper (''x'' @ CRLF @ ''+OK'') = ''X'' @ CRLF @ ''+OK''" by code_simp
  have up2: "to_upper (''X'' @ CRLF @ ''+OK'') = ''X'' @ CRLF @ ''+OK''" by code_simp
  have "''X'' @ CRLF @ ''+OK'' \<notin> set (map ce_name all_commands)" unfolding all_names by simp
  then have "registry_find register_all_commands (''X'' @ CRLF @ ''+OK'') = None"
    unfolding registry_find_None up2 .
  then show ?thesis using up by (simp add: execute_def resp_error_def conn_new_def Let_def)
qed

text \<open>A protocol error is reported, the connection is told to stop reading, and nothing is consumed:
  the offending bytes stay at the front of the buffer, so every further dispatch of the same
  connection appends the same error reply once more.\<close>

lemma protocol_error_repeats:
  assumes "parse rsv (read_view c) = PError"
  shows "\<exists>c'. dispatch rsv envs (s, c) = ((s, c'), DispatchDone) \<and>
    conn_state c' = WriteOnly \<and> read_view c' = read_view c \<and>
    write_buf c' = write_buf c @ wire (RespError ''ERR Protocol error: invalid RESP2 format'') \<and>
    dispatch rsv envs (s, c') = ((s, resp_error c' ''Protocol error: invalid RESP2 format''), DispatchDone)"
proof -
  have "read_view c \<noteq> []" using assms by (auto simp: parse_def parse_value.simps)
  then show ?thesis using assms by (auto simp: dispatch_def Let_def set_state_def resp_error_def)
qed

lemma protocol_error_stays_buffered:
  "read_view (snd (fst (dispatch (\<lambda>_. True) (\<lambda>_. at_time 5) (empty_server, sample_conn ''hello'')))) = ''hello''"
proof -
  have "parse (\<lambda>_. True) (read_view (sample_conn ''hello'')) = PError"
    unfolding sample_facts by (simp add: parse_def parse_value.simps)
  from protocol_error_repeats [OF this, of "\<lambda>_. at_time 5" empty_server] show ?thesis
    unfolding sample_facts by auto
qed

end
