(* ===== verification/EntryInv.thy ===== *)
theory EntryInv
  imports EntryPoint DispatchProps RdbProps
begin

text \<open>
  The server as a whole: the request handler keeps its contract, the states that turns of the event
  loop reach under an honest kernel, and the invariant of all of them.
\<close>

section \<open>The request handler keeps its contract\<close>

definition input_good :: "main_input \<Rightarrow> bool" where
  "input_good inp \<longleftrightarrow> (\<forall>n. env_ok (envs inp n))"

interpretation main_requests: request_contract main_handler "serves cfg" input_good for cfg
proof unfold_locales
  fix a a' c c' e
  assume a: "serves cfg a" "conn_inv c" "input_good e" "main_handler e (a, c) = Some (a', c')"
  obtain s2 c2 r where d: "dispatch (reserve_ok e) (envs e) (a, c) = ((s2, c2), r)" by (metis surj_pair)
  have envs: "\<forall>n. env_ok (envs e n)" using a(3) by (simp add: input_good_def)
  have "serves cfg s2 \<and> conn_inv c2 \<and> answered c c2"
    using configured.dispatch_loop_ends [OF a(1,2) envs _ d [unfolded dispatch_def]]
      configured.dispatch_loop_answers [OF a(1,2) envs d [unfolded dispatch_def]] by simp
  then show "serves cfg a' \<and> conn_inv c' \<and> answered c c'"
    using a(4) by (auto simp: main_handler_def d split: if_splits)
qed

lemma main_contract: "epoll_kernel ctl interest \<Longrightarrow> tcp_contract ctl interest main_handler (serves cfg) input_good"
  by (simp add: tcp_contract_def main_requests.request_contract_axioms)

interpretation main_tcp: tcp_contract map_ctl "\<lambda>m. m" main_handler "serves cfg" input_good for cfg
  by (rule main_contract) (rule map_kernel.epoll_kernel_axioms)

section \<open>What the callbacks leave alone\<close>

definition same_wiring :: "('k, 'a, 'e) tcp_server \<Rightarrow> ('k, 'a, 'e) tcp_server \<Rightarrow> bool" where
  "same_wiring w w' \<longleftrightarrow> request_handler w' = request_handler w \<and> answers w' = answers w \<and>
     timer_callback (ev_loop w') = timer_callback (ev_loop w)"

lemma same_wiring_close: "same_wiring w w' \<Longrightarrow> same_wiring w (close_connection ctl fd w')"
  by (simp add: same_wiring_def close_connection_def)

lemma same_wiring_accept: "same_wiring w (accept_loop ctl rs w)"
proof (induction rs arbitrary: w)
  case (Cons x rs)
  have "same_wiring w (accept_client ctl fd w)" for fd by (simp add: same_wiring_def accept_client_def Let_def)
  then show ?case using Cons.IH by (cases x) (auto simp: same_wiring_def)
qed (simp add: same_wiring_def)

lemma same_wiring_client:
  "same_wiring w (on_client_readable ctl an fd w)" "same_wiring w (on_client_writable ctl an fd w)"
proof -
  have "same_wiring w (if b then close_connection ctl fd w' else w')" if "same_wiring w w'" for b w'
    using same_wiring_close [OF that] that by simp
  then show "same_wiring w (on_client_readable ctl an fd w)" "same_wiring w (on_client_writable ctl an fd w)"
    by (auto simp: on_client_readable_def on_client_writable_def flush_client_def Let_def same_wiring_def
        close_connection_def split: option.split prod.split)
qed

section \<open>The invariant of the running server\<close>

definition answer_ok :: "main_input io_answer \<Rightarrow> bool" where
  "answer_ok an \<longleftrightarrow> reads_fit (reads an) \<and> input_good (input an)"

definition main_inv :: "('k \<Rightarrow> int \<rightharpoonup> u32) \<Rightarrow> server_config \<Rightarrow> 'k main_state \<Rightarrow> bool" where
  "main_inv interest cfg w \<longleftrightarrow> tcp_inv interest (serves cfg) w \<and> request_handler w = Some main_handler \<and>
     timer_callback (ev_loop w) \<in> {None, Some OnTimer}"

text \<open>The kernel is honest: \<^verbatim>\<open>accept4\<close> returns descriptors that are not in use.\<close>

definition call_honest :: "'k epoll_ctl \<Rightarrow> callback \<Rightarrow> int \<Rightarrow> 'k main_state \<Rightarrow> bool" where
  "call_honest ctl cb fd w =
     (case next_answer w of
        None \<Rightarrow> True
      | Some (an, w) \<Rightarrow>
          cb = OnNewConnection \<longrightarrow> accepts_fresh ctl (accepts an) (others_write (disk_change (input an)) w))"

text \<open>
  A turn of the loop: \<^verbatim>\<open>epoll_wait\<close> returns events \<open>evs\<close>, \<open>ans\<close> are the kernel's answers to the calls
  that their callbacks make; or the wait is interrupted.
\<close>

inductive main_step :: "'k epoll_ctl \<Rightarrow> 'k main_state \<Rightarrow> 'k main_state \<Rightarrow> bool" for ctl where
  turn: "running (ev_loop w) \<Longrightarrow> \<not> crashed w \<Longrightarrow> \<forall>an\<in>set ans. answer_ok an \<Longrightarrow>
    events_allowed ev_loop (main_call ctl) (call_honest ctl) evs (w\<lparr>answers := ans\<rparr>) \<Longrightarrow>
    main_step ctl w (main_turn ctl (Events evs, now) (w\<lparr>answers := ans\<rparr>))"
| interrupted: "running (ev_loop w) \<Longrightarrow> main_step ctl w (main_turn ctl (WaitIntr, now) w)"

inductive main_reachable :: "'k epoll_ctl \<Rightarrow> 'k main_state \<Rightarrow> 'k main_state \<Rightarrow> bool" for ctl w0 where
  start: "main_reachable ctl w0 w0"
| step: "main_reachable ctl w0 w \<Longrightarrow> main_step ctl w w' \<Longrightarrow> main_reachable ctl w0 w'"

inductive_cases main_stepE: "main_step ctl w w'"

lemma tcp_inv_frame [simp]:
  "tcp_inv interest good (w\<lparr>answers := ans\<rparr>) = tcp_inv interest good w"
  "tcp_inv interest good (w\<lparr>ev_loop := (ev_loop w)\<lparr>running := b\<rparr>\<rparr>) = tcp_inv interest good w"
  "tcp_inv interest good (w\<lparr>ev_loop := (ev_loop w)\<lparr>last_timer_fire_ms := t\<rparr>\<rparr>) = tcp_inv interest good w"
  by (simp_all add: tcp_inv_def client_ok_def)

lemma tcp_inv_app: "tcp_inv interest good w \<Longrightarrow> good a \<Longrightarrow> tcp_inv interest good (w\<lparr>app := a\<rparr>)"
  by (simp add: tcp_inv_def)

lemma on_signal_inv:
  assumes "tcp_inv interest (serves cfg) w"
  shows "tcp_inv interest (serves cfg) (on_signal_pipe_readable inp w) \<and> same_wiring w (on_signal_pipe_readable inp w)"
proof -
  have "serves cfg (on_bgsave_child_exit p x c t (app w))" for p x c t
    using tcp_invD(2) [OF assms] by (simp add: serves_def on_bgsave_child_exit_def Let_def)
  then show ?thesis using assms
    by (auto simp: on_signal_pipe_readable_def Let_def loop_stop_def same_wiring_def intro: tcp_inv_app split: option.split)
qed

lemma main_cron_inv:
  assumes "tcp_inv interest (serves cfg) w"
  shows "tcp_inv interest (serves cfg) (main_cron inp w) \<and> same_wiring w (main_cron inp w)"
  using assms tcp_invD(2) [OF assms]
  by (auto simp: main_cron_def same_wiring_def serves_def intro!: tcp_inv_app server_cron_inv)

lemma others_write_simps [simp]:
  "ev_loop (others_write f w) = ev_loop w" "clients (others_write f w) = clients w" "answers (others_write f w) = answers w"
  "request_handler (others_write f w) = request_handler w" "next_client_id (others_write f w) = next_client_id w"
  "database (app (others_write f w)) = database (app w)" "disk (app (others_write f w)) = f (disk (app w))"
  by (simp_all add: others_write_def)

lemma others_write_inv: "tcp_inv interest (serves cfg) w \<Longrightarrow> tcp_inv interest (serves cfg) (others_write f w)"
  using tcp_invD(2) [of interest "serves cfg" w] by (simp add: others_write_def tcp_inv_app serves_def)

text \<open>Every callback keeps the invariant.\<close>

lemma main_call_inv:
  assumes k: "epoll_kernel ctl interest" and inv: "main_inv interest cfg w" "\<forall>an\<in>set (answers w). answer_ok an"
    and honest: "call_honest ctl cb fd w"
  shows "main_inv interest cfg (main_call ctl cb fd w) \<and> (\<forall>an\<in>set (answers (main_call ctl cb fd w)). answer_ok an)"
proof (cases "crashed w \<or> answers w = []")
  case False
  then obtain an ans where an: "answers w = an # ans" by (cases "answers w") auto
  let ?w = "others_write (disk_change (input an)) (w\<lparr>answers := ans\<rparr>)"
  have ok: "answer_ok an" "\<forall>an\<in>set ans. answer_ok an" using inv(2) an by simp_all
  have t: "tcp_inv interest (serves cfg) ?w" "request_handler ?w = Some main_handler"
    "timer_callback (ev_loop ?w) \<in> {None, Some OnTimer}" using inv(1) by (simp_all add: main_inv_def others_write_inv)
  have io: "reads_fit (reads an)" "input_good (input an)" using ok(1) by (simp_all add: answer_ok_def)
  note tcp = tcp_contract.on_client_readable_inv [OF main_contract [OF k] t(1) io t(2)]
    tcp_contract.on_client_writable_inv [OF main_contract [OF k] t(1)]
    tcp_contract.on_new_connection_inv [OF main_contract [OF k] t(1)]
  have fresh: "cb = OnNewConnection \<Longrightarrow> accepts_fresh ctl (accepts an) ?w"
    using honest by (simp add: call_honest_def next_answer_def an)
  have "tcp_inv interest (serves cfg) (main_call ctl cb fd w) \<and> same_wiring ?w (main_call ctl cb fd w)"
    using False tcp fresh on_signal_inv [OF t(1)] main_cron_inv [OF t(1)]
      same_wiring_client [of ?w ctl an fd] same_wiring_accept [of ?w ctl "accepts an"]
    by (cases cb) (simp_all add: main_call_def next_answer_def an on_new_connection_def)
  then show ?thesis using t(2,3) ok(2) by (simp add: main_inv_def same_wiring_def)
qed (use inv in \<open>auto simp: main_call_def next_answer_def\<close>)

text \<open>What every callback and the clock of the timer keep, a turn of the loop keeps.\<close>

lemma main_turn_keeps:
  assumes call: "\<And>cb fd w. G w \<Longrightarrow> call_honest ctl cb fd w \<Longrightarrow> G (main_call ctl cb fd w)"
    and fired: "\<And>w t. G w \<Longrightarrow> G (w\<lparr>ev_loop := (ev_loop w)\<lparr>last_timer_fire_ms := t\<rparr>\<rparr>)"
    and timer: "\<And>w. G w \<Longrightarrow> timer_callback (ev_loop w) \<in> {None, Some OnTimer}"
    and "G w" "events_allowed ev_loop (main_call ctl) (call_honest ctl) evs w"
  shows "G (main_turn ctl (Events evs, now) w)"
proof -
  let ?w = "dispatch_events ev_loop (main_call ctl) evs w"
  have w: "G ?w" by (rule dispatch_events_keep [of G "call_honest ctl", OF call assms(4,5)])
  obtain lp c where t: "maybe_run_timer now (ev_loop ?w) = (lp, c)" by fastforce
  then have lp: "lp = ev_loop ?w \<or> lp = (ev_loop ?w)\<lparr>last_timer_fire_ms := now\<rparr>" and c: "c \<in> {None, Some OnTimer}"
    using timer [OF w] by (auto simp: maybe_run_timer_def split: if_splits)
  have put: "G (put_loop lp ?w)" using lp fired [OF w, of now] w by (auto simp: put_loop_def)
  have "call_honest ctl OnTimer timer_fd (put_loop lp ?w)" by (simp add: call_honest_def split: option.split)
  then have "G (call_if (main_call ctl) True c timer_fd (put_loop lp ?w))"
    using c put call by (auto simp: call_if_def)
  then show ?thesis by (simp add: main_turn_def run_turn_def Let_def t)
qed

definition main_ok :: "('k \<Rightarrow> int \<rightharpoonup> u32) \<Rightarrow> server_config \<Rightarrow> 'k main_state \<Rightarrow> bool" where
  "main_ok interest cfg w \<longleftrightarrow> main_inv interest cfg w \<and> (\<forall>an\<in>set (answers w). answer_ok an)"

lemma main_ok_keeps:
  "epoll_kernel ctl interest \<Longrightarrow> main_ok interest cfg w \<Longrightarrow> call_honest ctl cb fd w \<Longrightarrow>
    main_ok interest cfg (main_call ctl cb fd w)"
  "main_ok interest cfg w \<Longrightarrow> main_ok interest cfg (w\<lparr>ev_loop := (ev_loop w)\<lparr>last_timer_fire_ms := t\<rparr>\<rparr>)"
  "main_ok interest cfg w \<Longrightarrow> timer_callback (ev_loop w) \<in> {None, Some OnTimer}"
  unfolding main_ok_def using main_call_inv by blast (simp_all add: main_inv_def)

lemma main_turn_inv:
  assumes k: "epoll_kernel ctl interest" and inv: "main_inv interest cfg w" "\<forall>an\<in>set (answers w). answer_ok an"
    and "events_allowed ev_loop (main_call ctl) (call_honest ctl) evs w"
  shows "main_inv interest cfg (main_turn ctl (Events evs, now) w)"
proof -
  have "main_ok interest cfg w" using inv by (simp add: main_ok_def)
  then have "main_ok interest cfg (main_turn ctl (Events evs, now) w)"
    by (rule main_turn_keeps [where G = "main_ok interest cfg", OF _ _ _ _ assms(4), rotated -1])
      (use main_ok_keeps k in blast)+
  then show ?thesis by (simp add: main_ok_def)
qed

lemma main_step_inv:
  assumes k: "epoll_kernel ctl interest" and "main_step ctl w w'" "main_inv interest cfg w"
  shows "main_inv interest cfg w'"
  using assms(2)
proof cases
  case (turn ans evs now)
  have "main_inv interest cfg (w\<lparr>answers := ans\<rparr>)" using assms(3) by (simp add: main_inv_def)
  with main_turn_inv [OF k this _ turn(5)] turn(1,4) show ?thesis by simp
next
  case interrupted
  then show ?thesis using assms(3) by (simp add: main_turn_def run_turn_def)
qed

lemma main_reachable_inv:
  assumes "epoll_kernel ctl interest" "main_reachable ctl w0 w" "main_inv interest cfg w0"
  shows "main_inv interest cfg w"
  using assms(2,3) by (induction rule: main_reachable.induct) (auto intro: main_step_inv [OF assms(1)])

text \<open>Startup establishes the invariant.\<close>

lemma main_setup_inv:
  assumes k: "epoll_kernel ctl interest" and empty: "interest k = Map.empty" and db: "serves cfg s"
    and w: "main_setup ctl k (Some p) a now s = Some w"
  shows "main_inv interest cfg w"
proof -
  let ?w = "set_request_handler main_handler (tcp_new (loop_new k) s [])"
  have sync: "in_sync interest (ev_loop ?w)"
    by (simp add: in_sync_def set_request_handler_def tcp_new_def loop_new_def empty)
  obtain lp s1 where lp: "add_readable ctl p OnSignal (ev_loop ?w) = (lp, s1)" by fastforce
  note sig = epoll_kernel.add_readable_facts [OF k sync lp]
  obtain l st where created: "fst (create_server a (cfg_host (config s)) (cfg_port (config s))) = (l, st)" by fastforce
  obtain lp2 s2 where lp2: "add_readable ctl l OnNewConnection lp = (lp2, s2)" by fastforce
  note b = epoll_kernel.add_readable_facts [OF k sig(2) lp2]
  have w: "w = ?w\<lparr>listen_fd := l, ev_loop := set_timer (c_quot 1000 (cfg_hz (config s))) OnTimer now lp2\<rparr>"
    using w b(1) lp2
    by (auto simp: main_setup_def install_signal_handlers_def lp tcp_start_def Let_def created split: if_splits)
  have "tcp_inv interest (serves cfg) w"
    by (rule tcp_invI)
      (use b sig(4) db in \<open>auto simp: w set_request_handler_def tcp_new_def loop_new_def serves_def set_timer_def
         in_sync_def client_handlers_def handlers_of_def split: if_splits option.splits\<close>)
  then show ?thesis by (simp add: main_inv_def w set_request_handler_def set_timer_def)
qed

text \<open>C6. The running server never loses track of a client: in every state that any sequence of turns of
  the event loop can reach from startup, with any input and any short or failed system call, the
  database invariant holds, the configuration is the one of startup, every connection is consistent and open, the kernel watches it for input,
  and it watches it for output whenever replies are waiting to be sent; and no client's callback is
  left registered for a descriptor without a client.\<close>

theorem no_client_is_stuck:
  assumes "epoll_kernel ctl interest" "interest k = Map.empty" "db_inv (database s)"
    and "main_setup ctl k (Some p) a now s = Some w0"
    and "main_reachable ctl (w0\<lparr>ev_loop := (ev_loop w0)\<lparr>running := True\<rparr>\<rparr>) w"
  shows "db_inv (database (app w)) \<and> config (app w) = config s \<and>
    (\<forall>fd c. clients w fd = Some c \<longrightarrow> conn_inv c \<and> \<not> is_closed c \<and>
       (\<exists>ev. interest (epoll (ev_loop w)) fd = Some ev \<and> ev AND EPOLLIN \<noteq> 0 \<and>
          (has_pending_writes c \<longrightarrow> ev AND EPOLLOUT \<noteq> 0))) \<and>
    (\<forall>fd h. handlers (ev_loop w) fd = Some h \<longrightarrow> on_readable h = Some OnClientReadable \<longrightarrow> clients w fd \<noteq> None)"
proof -
  let ?cfg = "config s"
  have "serves ?cfg s" using assms(3) by (simp add: serves_def)
  then have "main_inv interest ?cfg (w0\<lparr>ev_loop := (ev_loop w0)\<lparr>running := True\<rparr>\<rparr>)"
    using main_setup_inv [OF assms(1,2) _ assms(4)] by (simp add: main_inv_def)
  then have "tcp_inv interest (serves ?cfg) w" using main_reachable_inv [OF assms(1,5)] by (simp add: main_inv_def)
  note d = tcp_invD [OF this]
  have "\<exists>ev. interest (epoll (ev_loop w)) fd = Some ev \<and> ev AND EPOLLIN \<noteq> 0 \<and> (has_pending_writes c \<longrightarrow> ev AND EPOLLOUT \<noteq> 0)"
    if cl: "clients w fd = Some c" for fd c
  proof -
    obtain h where h: "handlers (ev_loop w) fd = Some h" "on_readable h = Some OnClientReadable"
      "has_pending_writes c \<longrightarrow> on_writable h \<noteq> None" using d(4) [OF cl] by (auto simp: client_ok_def)
    have "event_mask h AND EPOLLIN \<noteq> 0" "on_writable h \<noteq> None \<longrightarrow> event_mask h AND EPOLLOUT \<noteq> 0"
      using h(2) by (cases "on_writable h"; simp add: event_mask_def EPOLLIN_def EPOLLOUT_def)+
    then show ?thesis using d(1) h by (simp add: in_sync_def)
  qed
  then show ?thesis using d(2,4,5) by (auto simp: serves_def client_ok_def client_handlers_def)
qed

definition sample_input :: main_input where
  "sample_input =
     \<lparr>reserve_ok = (\<lambda>_. True), envs = (\<lambda>_. at_time 5), pipe_byte = None, reaped_pid = 0, child_exited = True,
      child_code = 0, unix_time = 0, cron_draws = ((0, 0), (0, 0), (0, 0)), cron_ms = 5, cron_s = 0, disk_change = id\<rparr>"

definition sample_sock :: sock_answers where
  "sample_sock =
     \<lparr>a_socket = Inr 4, a_reuse = None, a_nodelay = None, a_getfl = Inr 2, a_setfl = None, a_pton = True,
      a_bind = None, a_listen = None\<rparr>"

definition first_loop :: "(int \<rightharpoonup> u32, callback) event_loop" where
  "first_loop =
     \<lparr>epoll = [3 \<mapsto> EPOLLIN, 4 \<mapsto> EPOLLIN],
      handlers = [3 \<mapsto> \<lparr>on_readable = Some OnSignal, on_writable = None\<rparr>,
        4 \<mapsto> \<lparr>on_readable = Some OnNewConnection, on_writable = None\<rparr>],
      running = False, timer_callback = Some OnTimer, timer_interval_ms = 100, last_timer_fire_ms = 0\<rparr>"

definition first_state :: "(int \<rightharpoonup> u32) main_state" where
  "first_state =
     (set_request_handler main_handler (tcp_new (loop_new Map.empty) empty_server []))
       \<lparr>listen_fd := 4, ev_loop := first_loop\<rparr>"

lemma sample_starts: "main_setup map_ctl Map.empty (Some 3) sample_sock 0 empty_server = Some first_state"
proof -
  have c: "fst (create_server sample_sock h p) = (4, success)" for h p
    by (simp add: create_server_def sample_sock_def Let_def set_nonblocking_def sock_move_def)
  have hz: "cfg_hz (config empty_server) = 10" by (simp add: server_init_def default_config_def)
  show ?thesis
    unfolding main_setup_def c
    by (simp add: install_signal_handlers_def tcp_start_def set_request_handler_def tcp_new_def first_state_def
        first_loop_def loop_new_def add_readable_def add_or_modify_def epoll_ctl_op_def handlers_of_def Let_def
        set_timer_def hz c_quot_def)
qed

text \<open>A client connects in the first turn of the loop.\<close>

definition connecting :: "main_input io_answer" where
  "connecting = \<lparr>accepts = [Accepted 5, AcceptAgain], reads = [], writes = [], input = sample_input\<rparr>"

lemma no_client_is_stuck_witness:
  "\<exists>w c ev. main_reachable map_ctl (first_state\<lparr>ev_loop := (ev_loop first_state)\<lparr>running := True\<rparr>\<rparr>) w \<and>
     clients w 5 = Some c \<and> conn_inv c \<and> epoll (ev_loop w) 5 = Some ev \<and> ev AND EPOLLIN \<noteq> 0"
proof -
  let ?start = "first_state\<lparr>ev_loop := (ev_loop first_state)\<lparr>running := True\<rparr>\<rparr>"
  let ?w = "main_turn map_ctl (Events [(4, EPOLLIN)], 1) (?start\<lparr>answers := [connecting]\<rparr>)"
  note defs = others_write_def sample_input_def first_state_def first_loop_def set_request_handler_def tcp_new_def connecting_def main_call_def
    next_answer_def call_if_def EPOLLIN_def EPOLLOUT_def EPOLLERR_def EPOLLHUP_def Let_def on_new_connection_def
    accept_client_def
  have ok: "answer_ok connecting" by (simp add: answer_ok_def connecting_def sample_input_def input_good_def reads_fit_def)
  have "main_step map_ctl ?start ?w"
  proof (rule main_step.turn)
    show "events_allowed ev_loop (main_call map_ctl) (call_honest map_ctl) [(4, EPOLLIN)] (?start\<lparr>answers := [connecting]\<rparr>)"
      by (simp add: event_allowed_def allowed_if_def call_honest_def add_readable_def add_or_modify_def
          epoll_ctl_op_def handlers_of_def defs split: option.split)
  qed (simp_all add: ok first_state_def set_request_handler_def tcp_new_def)
  then have r: "main_reachable map_ctl ?start ?w" by (rule main_reachable.step [OF main_reachable.start])
  have "clients ?w 5 = Some (conn_new 1)"
    by (simp add: main_turn_def run_turn_def dispatch_events_def dispatch_event_def maybe_run_timer_def put_loop_def
        add_readable_def add_or_modify_def epoll_ctl_op_def handlers_of_def defs)
  with no_client_is_stuck [OF map_kernel.epoll_kernel_axioms _ sample_facts(4) sample_starts r] r show ?thesis by blast
qed

end
