(* ===== verification/EntryProps.thy ===== *)
theory EntryProps
  imports EntryInv
begin

text \<open>
  What a client experiences from the arrival of its bytes to the delivery of the replies; the command
  line, the shutdown.
\<close>

section \<open>What a client experiences\<close>

lemma on_client_readable_effect:
  assumes c: "clients w fd = Some c" and fill: "fill_read_buffer (reads an) c = (c1, n, rest)" "0 < n"
    and rh: "request_handler w = Some handler" "handler (input an) (app w, c1) = Some (a, c2)" and inv: "conn_inv c2"
  obtains out where "app (on_client_readable ctl an fd w) = a"
    "pending c2 = out @ drop (length out) (pending c2)"
    "delivered (on_client_readable ctl an fd w) =
       (if pending c2 = [] then delivered w else delivered w @ [(client_id c2, out)])"
    "\<forall>c'. clients (on_client_readable ctl an fd w) fd = Some c' \<longrightarrow>
       read_view c' = read_view c2 \<and> pending c2 = out @ pending c' \<and> client_id c' = client_id c2"
    "received (on_client_readable ctl an fd w) = received w @ [(client_id c2, script_data (reads an))]"
    "\<forall>k. k \<noteq> fd \<longrightarrow> clients (on_client_readable ctl an fd w) k = clients w k"
    "next_client_id (on_client_readable ctl an fd w) = next_client_id w"
proof -
  obtain c3 good out rs where fl: "flush_write_buffer (writes an) c2 = (c3, good, out, rs)" by (metis surj_pair)
  note ff = flush_write_buffer_facts [OF inv fl]
  have id: "client_id c3 = client_id c2" using flush_write_buffer_id [of "writes an" c2] by (simp add: fl)
  let ?out = "if pending c2 = [] then [] else out"
  have eq: "on_client_readable ctl an fd w =
     (let c4 = (if pending c2 = [] then c2 else c3);
          w1 = w\<lparr>app := a, received := received w @ [(client_id c2, script_data (reads an))], delivered := (if pending c2 = [] then delivered w else delivered w @ [(client_id c2, out)]),
            ev_loop := (if pending c2 \<noteq> [] \<and> pending c3 \<noteq> []
                        then fst (add_writable ctl fd OnClientWritable (ev_loop w)) else ev_loop w),
            clients := (clients w)(fd \<mapsto> c4)\<rparr>
      in if is_closed c4 then close_connection ctl fd w1 else w1)"
    using fill by (simp add: on_client_readable_def c rh flush_client_def fl has_pending_iff Let_def id)
  show ?thesis
  proof (rule that [of ?out])
    show "app (on_client_readable ctl an fd w) = a"
      by (simp add: eq Let_def close_connection_def)
    show "pending c2 = ?out @ drop (length ?out) (pending c2)" using ff(2) by simp
    show "delivered (on_client_readable ctl an fd w) =
       (if pending c2 = [] then delivered w else delivered w @ [(client_id c2, ?out)])"
      by (simp add: eq Let_def close_connection_def)
    show "received (on_client_readable ctl an fd w) = received w @ [(client_id c2, script_data (reads an))]"
      "next_client_id (on_client_readable ctl an fd w) = next_client_id w"
      by (simp_all add: eq Let_def close_connection_def)
    show "\<forall>k. k \<noteq> fd \<longrightarrow> clients (on_client_readable ctl an fd w) k = clients w k"
      by (simp add: eq Let_def close_connection_def)
    show "\<forall>c'. clients (on_client_readable ctl an fd w) fd = Some c' \<longrightarrow>
       read_view c' = read_view c2 \<and> pending c2 = ?out @ pending c' \<and> client_id c' = client_id c2"
      using ff id by (auto simp: eq Let_def close_connection_def simp del: read_view_drop split: if_splits)
  qed
qed

lemma fill_read_buffer_id:
  assumes "reads_fit script" "fill_read_buffer script c = (c1, n, rest)"
  shows "client_id c1 = client_id c"
proof -
  have f: "client_id c1 = client_id d" if "fill_loop script d 0 = (c1, n, rest)" for d
    using fill_loop_facts(1) [OF assms(1) that] by simp
  have "client_id (compact_read_buffer c) = client_id c" by (simp add: compact_read_buffer_def Let_def)
  then show ?thesis using assms(2) f by (auto simp: fill_read_buffer_def Let_def split: if_splits)
qed

text \<open>A readable event that completes a pipeline.\<close>

lemma readable_pipeline:
  assumes "db_inv (database (app w))" "request_handler w = Some main_handler"
    and "clients w fd = Some c" "conn_inv c" "input_good (input an)"
    and "reads_fit (reads an)" "script_end (reads an) = ReadAgain" "script_data (reads an) \<noteq> []"
    and "\<forall>v\<in>set vs. wire_ok v \<and> sizes_allowed (reserve_ok (input an)) v"
    and "read_view c @ script_data (reads an) = concat (map wire vs) @ t" "parse (reserve_ok (input an)) t = PIncomplete"
    and w': "w' = on_client_readable ctl an fd w"
  obtains c1 c2 out where "read_view c1 = read_view c @ script_data (reads an)"
    "run_commands register_all_commands (envs (input an)) 0 vs (app w, c1) = (app w', c2)"
    "(\<forall>v\<in>set vs. echoes_clean register_all_commands v) \<longrightarrow> replies_added (length vs) c1 c2"
    "\<forall>bs. write_buf c2 = write_buf c1 @ bs \<longrightarrow> pending c2 = pending c @ bs"
    "delivered w' = delivered w @ [(client_id c, out)] \<or> delivered w' = delivered w \<and> out = []"
    "pending c2 = out @ drop (length out) (pending c2)"
    "\<forall>c'. clients w' fd = Some c' \<longrightarrow> pending c' = drop (length out) (pending c2) \<and> read_view c' = t"
proof -
  obtain c1 n rest where fill: "fill_read_buffer (reads an) c = (c1, n, rest)" by (metis surj_pair)
  note fr = fill_read_buffer_facts [OF assms(4,6) fill]
  have n: "0 < n" using fr(5) assms(7,8) by simp
  have view: "read_view c1 = concat (map wire vs) @ t" using fr(2) assms(10) by (simp del: read_view_drop)
  have envs: "\<forall>n. env_ok (envs (input an) n)" using assms(5) by (simp add: input_good_def)
  from commands.pipeline [OF assms(1) fr(1) envs assms(9) view less_add_one, of 0]
  obtain s2 c2 f where p: "dispatch (reserve_ok (input an)) (envs (input an)) (app w, c1) =
      dispatch_loop register_all_commands (reserve_ok (input an)) f (envs (input an)) (length vs) (s2, c2)"
    "run_commands register_all_commands (envs (input an)) 0 vs (app w, c1) = (s2, c2)"
    "conn_inv c2" "read_view c2 = t" "length t < f"
    "(\<forall>v\<in>set vs. echoes_clean register_all_commands v) \<longrightarrow> replies_added (length vs) c1 c2"
    unfolding dispatch_def by auto
  have d: "dispatch (reserve_ok (input an)) (envs (input an)) (app w, c1) = ((s2, c2), DispatchDone)"
    using p(1,4,5) assms(11) by (cases f) (auto simp: Let_def)
  have "answered c1 c2"
    using commands.dispatch_loop_answers [OF assms(1) fr(1) envs d [unfolded dispatch_def]] by simp
  then have id: "client_id c2 = client_id c" "write_pos c2 = write_pos c1"
    using fill_read_buffer_id [OF assms(6) fill] by (simp_all add: answered_def)
  have a: "main_handler (input an) (app w, c1) = Some (s2, c2)" by (simp add: main_handler_def d)
  obtain out where out: "app w' = s2" "pending c2 = out @ drop (length out) (pending c2)"
    "delivered w' = (if pending c2 = [] then delivered w else delivered w @ [(client_id c2, out)])"
    "\<forall>c'. clients w' fd = Some c' \<longrightarrow>
       read_view c' = read_view c2 \<and> pending c2 = out @ pending c' \<and> client_id c' = client_id c2"
    "received w' = received w @ [(client_id c2, script_data (reads an))]"
    "\<forall>k. k \<noteq> fd \<longrightarrow> clients w' k = clients w k" "next_client_id w' = next_client_id w"
    unfolding w' by (rule on_client_readable_effect [where ctl = ctl, OF assms(3) fill n assms(2) a p(3)])
  show thesis
  proof (rule that [of c1 c2 out])
    show "\<forall>bs. write_buf c2 = write_buf c1 @ bs \<longrightarrow> pending c2 = pending c @ bs"
      using id(2) fr(1,3) by (simp add: pending_def conn_inv_def)
    show "delivered w' = delivered w @ [(client_id c, out)] \<or> delivered w' = delivered w \<and> out = []"
      using out(2,3) id(1) by auto
    show "\<forall>c'. clients w' fd = Some c' \<longrightarrow> pending c' = drop (length out) (pending c2) \<and> read_view c' = t"
      using out(4) p(4) by (metis append_eq_conv_conj)
  qed (use fr(2) p(2,6) out(1,2) in simp_all)
qed

text \<open>From the wire to the wire: when the bytes that have arrived complete a pipeline of commands,
  one readable event executes each of them exactly once and in order, and the kernel is given, after
  the replies that were still waiting, one RESP2 value per command in order; what it does not take now
  stays queued for the same client, and the unread rest of the input stays in its buffer.\<close>

lemma client_gets_replies:
  assumes "db_inv (database (app w))" "request_handler w = Some main_handler"
    and "clients w fd = Some c" "conn_inv c" "input_good (input an)"
    and "reads_fit (reads an)" "script_end (reads an) = ReadAgain" "script_data (reads an) \<noteq> []"
    and "\<forall>v\<in>set vs. wire_ok v \<and> sizes_allowed (reserve_ok (input an)) v \<and> echoes_clean register_all_commands v"
    and "read_view c @ script_data (reads an) = concat (map wire vs) @ t" "parse (reserve_ok (input an)) t = PIncomplete"
    and w': "w' = on_client_readable ctl an fd w"
  shows "\<exists>c1 c2 rs out. read_view c1 = read_view c @ script_data (reads an) \<and>
    run_commands register_all_commands (envs (input an)) 0 vs (app w, c1) = (app w', c2) \<and>
    length rs = length vs \<and> (\<forall>r\<in>set rs. lines_ok r) \<and>
    (delivered w' = delivered w @ [(client_id c, out)] \<or> delivered w' = delivered w \<and> out = []) \<and>
    (\<exists>rest. pending c @ concat (map wire rs) = out @ rest \<and>
      (\<forall>c'. clients w' fd = Some c' \<longrightarrow> pending c' = rest \<and> read_view c' = t))"
proof -
  have vs: "\<forall>v\<in>set vs. wire_ok v \<and> sizes_allowed (reserve_ok (input an)) v" using assms(9) by blast
  obtain c1 c2 out where p: "read_view c1 = read_view c @ script_data (reads an)"
    "run_commands register_all_commands (envs (input an)) 0 vs (app w, c1) = (app w', c2)"
    "(\<forall>v\<in>set vs. echoes_clean register_all_commands v) \<longrightarrow> replies_added (length vs) c1 c2"
    "\<forall>bs. write_buf c2 = write_buf c1 @ bs \<longrightarrow> pending c2 = pending c @ bs"
    "delivered w' = delivered w @ [(client_id c, out)] \<or> delivered w' = delivered w \<and> out = []"
    "pending c2 = out @ drop (length out) (pending c2)"
    "\<forall>c'. clients w' fd = Some c' \<longrightarrow> pending c' = drop (length out) (pending c2) \<and> read_view c' = t"
    by (rule readable_pipeline [OF assms(1-8) vs assms(10-12)])
  obtain rs where rs: "length rs = length vs" "\<forall>r\<in>set rs. lines_ok r" "write_buf c2 = write_buf c1 @ concat (map wire rs)"
    using p(3) assms(9) by (auto simp: replies_added_def)
  then have "pending c @ concat (map wire rs) = out @ drop (length out) (pending c2)" using p(4,6) by metis
  then show ?thesis using p(1,2,5,7) rs(1,2)
    by (intro exI [of _ c1] exI [of _ c2] exI [of _ rs] exI [of _ out] conjI exI [of _ "drop (length out) (pending c2)"])
qed

text \<open>Requests that arrive together with the end of the stream are lost: when a readable event
  delivers data and then the end of the input (or an error, or nothing), the client is closed without
  the request handler being called; the data set is as before and no reply is sent.\<close>

lemma requests_before_eof_are_dropped:
  assumes "clients w fd = Some c" "conn_inv c" "reads_fit (reads an)"
    and "script_end (reads an) \<in> {ReadEof, ReadError} \<or> script_data (reads an) = []"
    and "w' = on_client_readable ctl an fd w"
  shows "app w' = app w \<and> clients w' = (clients w)(fd := None) \<and> delivered w' = delivered w"
proof -
  obtain c1 n rest where fill: "fill_read_buffer (reads an) c = (c1, n, rest)" by (metis surj_pair)
  have "n \<le> 0" using fill_read_buffer_facts(5) [OF assms(2,3) fill] assms(4) by (auto split: if_splits)
  then have "w' = close_connection ctl fd w"
    using assms(1,5) fill by (auto simp: on_client_readable_def)
  then show ?thesis by (simp add: close_connection_def)
qed

definition sample_answer :: "read_result list \<Rightarrow> main_input io_answer" where
  "sample_answer rs = \<lparr>accepts = [], reads = rs, writes = [Wrote 3], input = sample_input\<rparr>"

definition sample_state :: "(int \<rightharpoonup> u32) main_state" where
  "sample_state =
     (set_request_handler main_handler (tcp_new (loop_new Map.empty) empty_server []))
       \<lparr>clients := [5 \<mapsto> conn_new 1]\<rparr>"

lemma sample_state_facts:
  "request_handler sample_state = Some main_handler" "clients sample_state 5 = Some (conn_new 1)"
  "app sample_state = empty_server" "delivered sample_state = []" "read_view (conn_new 1) = []"
  "pending (conn_new 1) = []" "client_id (conn_new 1) = 1"
  by (simp_all add: sample_state_def set_request_handler_def tcp_new_def conn_new_def pending_def)

lemma client_gets_replies_witness:
  "\<exists>out r1 r2 rest. wire r1 @ wire r2 = out @ rest \<and>
     delivered (on_client_readable map_ctl (sample_answer [ReadData (concat (map wire two_pings))]) 5 sample_state) \<in>
       {[(1, out)], []}"
proof -
  let ?bytes = "concat (map wire two_pings)" and ?an = "sample_answer [ReadData (concat (map wire two_pings))]"
  have ok: "\<forall>v\<in>set two_pings. wire_ok v \<and> sizes_allowed (reserve_ok (input ?an)) v \<and> echoes_clean register_all_commands v"
    using two_pings_known
    by (simp add: two_pings_def in_i64_def LLONG_MAX_def LLONG_MIN_def sample_answer_def sample_input_def)
  have short: "length (to_chars (wrap_i64 k)) \<le> 20" for k using length_to_chars [of "wrap_i64 k"] by simp
  have n: "length two_pings = 2" and len: "0 < length ?bytes" "length ?bytes \<le> READ_BUFFER_SIZE"
    using short [of 4] short [of 2] short [of 1] by (simp_all add: two_pings_def READ_BUFFER_SIZE_def)
  have an: "input_good (input ?an)" "reads_fit (reads ?an)" "script_end (reads ?an) = ReadAgain" "script_data (reads ?an) = ?bytes"
    using len by (simp_all add: sample_answer_def sample_input_def input_good_def reads_fit_def)
  have "parse (reserve_ok (input ?an)) [] = PIncomplete" by (simp add: parse_def parse_value.simps)
  from client_gets_replies [OF _ sample_state_facts(1,2) _ an(1,2,3) _ ok _ this refl, of map_ctl] an(4) len(1)
  obtain rs out rest where r: "length rs = length two_pings"
    "delivered (on_client_readable map_ctl ?an 5 sample_state) = [(1, out)] \<or>
     delivered (on_client_readable map_ctl ?an 5 sample_state) = []"
    "concat (map wire rs) = out @ rest"
    by (auto simp: sample_state_facts simp del: read_view_drop)
  obtain r1 r2 where "rs = [r1, r2]" using r(1) n by (auto simp: numeral_2_eq_2 length_Suc_conv)
  then show ?thesis using r by auto
qed

lemma requests_before_eof_are_dropped_witness:
  "clients (on_client_readable map_ctl (sample_answer [ReadData ''PING'', ReadEof]) 5 sample_state) 5 = None \<and>
   delivered (on_client_readable map_ctl (sample_answer [ReadData ''PING'', ReadEof]) 5 sample_state) = []"
proof -
  let ?an = "sample_answer [ReadData ''PING'', ReadEof]"
  have "reads_fit (reads ?an)" "script_end (reads ?an) = ReadEof"
    by (auto simp: sample_answer_def reads_fit_def READ_BUFFER_SIZE_def)
  with requests_before_eof_are_dropped [OF sample_state_facts(2) conn_inv_new, of ?an _ map_ctl] show ?thesis
    by (simp add: sample_state_facts)
qed

section \<open>Waiting replies drain\<close>

definition sent_to :: "u64 \<Rightarrow> ('k, 'a, 'e) tcp_server \<Rightarrow> string" where
  "sent_to cid w = concat (map snd (filter (\<lambda>x. fst x = cid) (delivered w)))"

text \<open>The kernel takes at least a byte and reports no error.\<close>

definition takes_some :: "write_result list \<Rightarrow> bool" where
  "takes_some script \<longleftrightarrow> (\<exists>n s. script = Wrote n # s \<and> 0 < n) \<and> WriteError \<notin> set script"

lemma flush_loop_no_error: "WriteError \<notin> set script \<Longrightarrow> flush_loop script c = (c', ok, out, rest) \<Longrightarrow> ok"
proof (induction script arbitrary: c out)
  case Nil
  then show ?case by (simp add: flush_loop.simps [of "[]"] split: if_splits)
next
  case (Cons x script)
  then show ?case
    by (cases x) (auto simp: flush_loop.simps [of "_ # _"] Let_def split: if_splits prod.splits)
qed

lemma flush_takes_some:
  assumes "takes_some script" "flush_write_buffer script c = (c', ok, out, rest)"
  shows "ok" "pending c \<noteq> [] \<Longrightarrow> out \<noteq> []"
proof -
  obtain d where f: "flush_loop script c = (d, ok, out, rest)"
    using assms(2) by (auto simp: flush_write_buffer_def split: prod.splits)
  show "ok" using flush_loop_no_error [OF _ f] assms(1) by (simp add: takes_some_def)
  show "out \<noteq> []" if "pending c \<noteq> []"
    using assms(1) f that
    by (auto simp: takes_some_def pending_def flush_loop.simps [of "_ # _"] Let_def split: prod.splits)
qed

lemma writable_event_drains:
  assumes k: "epoll_kernel ctl interest" and inv: "tcp_inv interest (serves cfg) w" and c: "clients w fd = Some c"
    and takes: "takes_some (writes an)"
  obtains c' out where "clients (on_client_writable ctl an fd w) fd = Some c'" "pending c = out @ pending c'"
    "pending c \<noteq> [] \<longrightarrow> out \<noteq> []" "read_view c' = read_view c" "client_id c' = client_id c"
    "delivered (on_client_writable ctl an fd w) = delivered w @ [(client_id c, out)]"
    "pending c' = [] \<longrightarrow> interest (epoll (ev_loop (on_client_writable ctl an fd w))) fd = Some EPOLLIN"
proof -
  note ok = tcp_invD(4) [OF inv c]
  have ci: "conn_inv c" "\<not> is_closed c" using ok by (simp_all add: client_ok_def)
  obtain c' good out rest where fl: "flush_write_buffer (writes an) c = (c', good, out, rest)" by (metis surj_pair)
  note ff = flush_write_buffer_facts [OF ci(1) fl] and ts = flush_takes_some [OF takes fl]
  have id: "client_id c' = client_id c" using flush_write_buffer_id [of "writes an" c] by (simp add: fl)
  obtain h where h: "handlers (ev_loop w) fd = Some h" "on_readable h = Some OnClientReadable"
    using ok by (auto simp: client_ok_def)
  obtain lp s where lp: "remove_writable ctl fd (ev_loop w) = (lp, s)" by fastforce
  have "on_readable h \<noteq> None" using h(2) by simp
  note rw = epoll_kernel.remove_writable_facts [OF k tcp_invD(1) [OF inv] h(1) this lp]
  have "\<not> is_closed c'" using ff(4) ts(1) ci(2) by (simp add: is_closed_def)
  then have w': "on_client_writable ctl an fd w = w\<lparr>delivered := delivered w @ [(client_id c, out)],
      ev_loop := (if pending c' = [] then lp else ev_loop w), clients := (clients w)(fd \<mapsto> c')\<rparr>"
    by (simp add: on_client_writable_def c flush_client_def fl lp Let_def id has_pending_iff)
  have "interest (epoll lp) fd = Some EPOLLIN"
    using rw(2,4) h(2) by (simp add: in_sync_def event_mask_def)
  moreover have "pending c \<noteq> [] \<longrightarrow> out \<noteq> []" using ts(2) by blast
  ultimately show ?thesis
    by (intro that [of c' out]) (use w' ff(2,3) id in \<open>simp_all del: read_view_drop\<close>)
qed

text \<open>C10. Waiting replies are delivered: if the kernel keeps reporting the client writable and takes at
  least one byte each time, then after at most one event more than there are bytes waiting, exactly
  these bytes have been delivered to this client, in order, the client is still connected with its
  unread input, and the kernel no longer watches it for output.\<close>

theorem waiting_replies_drain:
  assumes "epoll_kernel ctl interest" "tcp_inv interest (serves cfg) w" "clients w fd = Some c"
    and "\<forall>an\<in>set ans. takes_some (writes an)" "length (pending c) < length ans"
    and "w' = fold (\<lambda>an. on_client_writable ctl an fd) ans w"
  shows "\<exists>c'. clients w' fd = Some c' \<and> pending c' = [] \<and> read_view c' = read_view c \<and>
    sent_to (client_id c) w' = sent_to (client_id c) w @ pending c \<and>
    interest (epoll (ev_loop w')) fd = Some EPOLLIN"
  using assms(2-6)
proof (induction ans arbitrary: w c)
  case (Cons an ans)
  let ?w = "on_client_writable ctl an fd w"
  have "takes_some (writes an)" using Cons.prems(3) by simp
  from writable_event_drains [OF assms(1) Cons.prems(1,2) this]
  obtain d out where d: "clients ?w fd = Some d" "pending c = out @ pending d" "pending c \<noteq> [] \<longrightarrow> out \<noteq> []"
    "read_view d = read_view c" "client_id d = client_id c" "delivered ?w = delivered w @ [(client_id c, out)]"
    "pending d = [] \<longrightarrow> interest (epoll (ev_loop ?w)) fd = Some EPOLLIN" .
  have sent: "sent_to (client_id c) ?w = sent_to (client_id c) w @ out" by (simp add: sent_to_def d(6))
  show ?case
  proof (cases ans)
    case Nil
    then have nil: "pending c = []" "w' = ?w" using Cons.prems(4,5) by simp_all
    then have "out = []" "pending d = []" using d(2) by simp_all
    with d(1,4,7) sent nil show ?thesis by (simp del: read_view_drop)
  next
    case (Cons a as)
    have inv: "tcp_inv interest (serves cfg) ?w"
      using tcp_contract.on_client_writable_inv [OF main_contract [OF assms(1)] Cons.prems(1)] .
    have less: "length (pending d) < length ans"
    proof (cases "pending c = []")
      case True
      then show ?thesis using d(2) Cons by simp
    next
      case False
      then have "0 < length out" using d(3) by simp
      moreover have "length (pending c) = length out + length (pending d)" using arg_cong [OF d(2), of length] by simp
      moreover have "length (pending c) < Suc (length ans)" using Cons.prems(4) by simp
      ultimately show ?thesis by linarith
    qed
    have rest: "\<forall>an\<in>set ans. takes_some (writes an)" "w' = fold (\<lambda>an. on_client_writable ctl an fd) ans ?w"
      using Cons.prems(3,5) by simp_all
    from Cons.IH [OF inv d(1) rest(1) less rest(2)] obtain e where "clients w' fd = Some e" "pending e = []"
      "read_view e = read_view d" "sent_to (client_id d) w' = sent_to (client_id d) ?w @ pending d"
      "interest (epoll (ev_loop w')) fd = Some EPOLLIN" by blast
    moreover have "sent_to (client_id c) w @ pending c = (sent_to (client_id c) w @ out) @ pending d"
      by (subst d(2)) simp
    ultimately show ?thesis using d(4,5) sent by (simp del: read_view_drop append_assoc)
  qed
qed simp

definition slow_state :: "(int \<rightharpoonup> u32) main_state" where
  "slow_state = sample_state
     \<lparr>clients := [5 \<mapsto> append_response (conn_new 1) ''+OK''],
      ev_loop := (loop_new [5 \<mapsto> EPOLLIN OR EPOLLOUT])
        \<lparr>handlers := [5 \<mapsto> \<lparr>on_readable = Some OnClientReadable, on_writable = Some OnClientWritable\<rparr>]\<rparr>\<rparr>"

lemma waiting_replies_drain_witness:
  "sent_to 1 (fold (\<lambda>an. on_client_writable map_ctl an 5) (replicate 4 (sample_answer [])) slow_state) = ''+OK''"
proof -
  let ?c = "append_response (conn_new 1) ''+OK''" and ?ans = "replicate 4 (sample_answer [])"
  have inv: "tcp_inv (\<lambda>m. m) (serves (config empty_server)) slow_state"
    by (rule tcp_invI)
      (auto simp: slow_state_def sample_state_def set_request_handler_def tcp_new_def loop_new_def in_sync_def
        event_mask_def serves_def client_ok_def is_closed_def conn_new_def conn_inv_def fun_eq_iff split: if_splits)
  have c: "clients slow_state 5 = Some ?c" "pending ?c = ''+OK''" "client_id ?c = 1" "delivered slow_state = []"
    by (simp_all add: slow_state_def pending_def conn_new_def sample_state_facts)
  have "\<forall>an\<in>set ?ans. takes_some (writes an)" by (simp add: sample_answer_def takes_some_def)
  from waiting_replies_drain [OF map_kernel.epoll_kernel_axioms inv c(1) this _ refl]
  have "sent_to (client_id ?c) (fold (\<lambda>an. on_client_writable map_ctl an 5) ?ans slow_state) =
    sent_to (client_id ?c) slow_state @ pending ?c" using c(2) by (auto simp del: fold_replicate)
  then show ?thesis unfolding c(2,3) by (simp add: c(4) sent_to_def del: fold_replicate)
qed

section \<open>The command line\<close>

text \<open>No option changes the frequency of the timer, so the division at startup is defined.\<close>

lemma parse_args_from_hz: "parse_args_from cfg args = Config cfg' \<Longrightarrow> cfg_hz cfg' = cfg_hz cfg"
proof (induction args arbitrary: cfg rule: length_induct)
  case (1 args)
  show ?case
  proof (cases args)
    case (Cons arg rest)
    have ih: "cfg_hz cfg' = cfg_hz c" if "parse_args_from c xs = Config cfg'" "length xs \<le> length rest" for c xs
      using 1(1) [rule_format, of xs c] that Cons by (simp add: less_Suc_eq_le)
    have r: "cfg_hz cfg' = cfg_hz c" if "parse_args_from c rest = Config cfg' \<or> parse_args_from c (tl rest) = Config cfg'" for c
      using ih [of c rest] ih [of c "tl rest"] that by auto
    show ?thesis
      by (insert 1(2) [unfolded Cons parse_args_from.simps(2)],
          simp only: args_outcome.distinct split: if_split_asm option.split_asm)
        ((drule r [OF disjI1] | drule r [OF disjI2]), erule trans, simp (no_asm))+
  qed (use 1(2) in simp)
qed

lemma parse_args_hz: "parse_args args = Config cfg \<Longrightarrow> cfg_hz cfg \<noteq> 0 \<and> c_quot 1000 (cfg_hz cfg) = 100"
  using parse_args_from_hz [of default_config args cfg] by (simp add: parse_args_def default_config_def c_quot_def)

text \<open>The key that \<^verbatim>\<open>main\<close> reads from the random device is dropped: every process hashes with the key (0, 0).\<close>

lemma hash_key_is_constant:
  "dict_hash (keys (database (server_init fs cfg now))) key = siphash_1_2 key 0 0"
  "dict_hash (expires (database (server_init fs cfg now))) key = siphash_1_2 key 0 0"
  by (simp_all add: server_init_def db_new_def dict_new_def dict_hash_def)

section \<open>Shutdown\<close>

lemma main_shutdown_saves:
  assumes "db_inv (database (app w))" "main_shutdown ctl order e w = w'"
    and "cfg_rdb_enabled (config (app w))" "0 < dirty_keys (app w)"
    and "open_failure e = None" "rename_failure e = None" "steady (io_script e)"
  obtains db where
    "rdb_save_sync e (cfg_rdb_filename (config (app w))) (database (app w)) (disk (app w)) = (db, disk (app w'), success)"
proof -
  obtain db fs1 s where
    save: "rdb_save_sync e (cfg_rdb_filename (config (app w))) (database (app w)) (disk (app w)) = (db, fs1, s)"
    by (metis surj_pair)
  have "fs1 = disk (app w')" using assms(2-4) save by (auto simp: main_shutdown_def tcp_stop_def Let_def)
  moreover have "s = success"
    using rdb_save_sync_facts(4) [OF assms(1) save assms(5-7)] save
    by (auto simp: rdb_save_sync_alt Let_def split: option.splits prod.splits if_splits)
  ultimately show ?thesis using save that by simp
qed

end
