(* ===== verification/RdbLoad.thy ===== *)
theory RdbLoad
  imports RdbProps Expiry
begin

text \<open>
  Loading a snapshot: the loop of \<^verbatim>\<open>rdb_load\<close> turns the image of a list of entries into the map of
  these entries; together with the facts about saving, a saved database comes back.
\<close>

section \<open>Loading entries\<close>

definition entry_ok :: "saved \<Rightarrow> bool" where
  "entry_ok x \<longleftrightarrow>
     (case x of (k, d, v) \<Rightarrow>
        length k < 2 ^ 32 \<and> length v < 2 ^ 32 \<and> (case d of None \<Rightarrow> True | Some ts \<Rightarrow> 0 \<le> ts \<and> in_i64 ts))"

text \<open>What loading an entry does to the values and to the deadlines.\<close>

fun put_value :: "saved \<Rightarrow> (string \<rightharpoonup> string) \<Rightarrow> string \<rightharpoonup> string" where
  "put_value (k, d, v) m = m(k \<mapsto> canonical_int v)"

fun put_deadline :: "saved \<Rightarrow> (string \<rightharpoonup> i64) \<Rightarrow> string \<rightharpoonup> i64" where
  "put_deadline (k, d, v) m = m(k := d)"

definition restores :: "keva_db \<Rightarrow> saved list \<Rightarrow> keva_db \<Rightarrow> bool" where
  "restores db xs db' \<longleftrightarrow> db_inv db' \<and> vals db' = fold put_value xs (vals db) \<and> ttls db' = fold put_deadline xs (ttls db)"

lemma yields_pair:
  assumes "length k < 2 ^ 32" "length v < 2 ^ 32"
  shows "yields read_pair (string_bytes k @ string_bytes v) (k, v)"
  unfolding read_pair_def [abs_def]
  using yields_read_then [OF str.get_yields [OF assms(1)] yields_map [OF str.get_yields [OF assms(2)]],
      of "\<lambda>k v. (k, v)"] .

lemma yields_expiry:
  assumes "in_i64 ts"
  shows "yields read_expiry (i64_bytes ts @ le_bytes 1 (unat op)) (ts, op)"
  unfolding read_expiry_def [abs_def]
  using yields_read_then [OF i64.get_yields [OF assms] yields_map [OF u8.get_yields [OF TrueI]],
      of "\<lambda>ts op. (ts, op)"] .

lemma yields_tag: "yields read_u8 (le_bytes 1 (unat op)) op"
  by (rule u8.get_yields) simp

lemma opcodes [simp]:
  "RDB_OPCODE_EXPIRE \<noteq> RDB_OPCODE_EOF" "RDB_OPCODE_EXPIRE \<noteq> RDB_OPCODE_DB"
  "RDB_TYPE_STRING \<noteq> RDB_OPCODE_EOF" "RDB_TYPE_STRING \<noteq> RDB_OPCODE_DB" "RDB_TYPE_STRING \<noteq> RDB_OPCODE_EXPIRE"
  "RDB_OPCODE_DB \<noteq> RDB_OPCODE_EOF"
  by (simp_all add: RDB_OPCODE_EXPIRE_def RDB_OPCODE_EOF_def RDB_OPCODE_DB_def RDB_TYPE_STRING_def)

text \<open>The state a reader is left in, to be handed on.\<close>

definition moved :: "rdb_reader \<Rightarrow> string \<Rightarrow> string \<Rightarrow> rdb_reader \<Rightarrow> bool" where
  "moved r d rest r' \<longleftrightarrow> ate r d r' \<and> r_file r' = rest \<and> set (r_script r') \<subseteq> set (r_script r)"

lemma moved_trans: "moved r a x r1 \<Longrightarrow> moved r1 b rest r2 \<Longrightarrow> moved r (a @ b) rest r2"
  using ate_trans by (auto simp: moved_def)

lemma moved_script: "moved r d rest r' \<Longrightarrow> progresses (r_script r) \<Longrightarrow> progresses (r_script r')"
  by (auto simp: moved_def intro: progresses_subset)

lemma moved_file: "moved r d rest r' \<Longrightarrow> r_file r' = rest"
  by (simp add: moved_def)

lemma yields_moved:
  assumes "yields g d x" "progresses (r_script r)" "r_file r = d @ rest"
  obtains r' where "g r = (r', Inr x)" "moved r d rest r'" "progresses (r_script r')" "r_file r' = rest"
proof -
  from yieldsD [OF assms] obtain r' where "g r = (r', Inr x)" "moved r d rest r'"
    by (auto simp: moved_def)
  then show ?thesis using moved_script [OF _ assms(2)] moved_file that by blast
qed

lemma yields_if: "b \<Longrightarrow> yields g d x \<Longrightarrow> yields (\<lambda>r. if b then g r else h r) d x"
  and yields_else: "\<not> b \<Longrightarrow> yields h d x \<Longrightarrow> yields (\<lambda>r. if b then g r else h r) d x"
  by simp_all

lemma yields_stored:
  assumes "length k < 2 ^ 32" "length v < 2 ^ 32"
  shows "yields (\<lambda>r. read_then (read_pair r) (\<lambda>(k, v) r. (r, Inr (f k v)))) (string_bytes k @ string_bytes v) (f k v)"
  using yields_map [OF yields_pair [OF assms], of "\<lambda>(k, v). f k v"] by (simp add: case_prod_unfold)

text \<open>The database after an entry, and the turn of the loop that reads the entry.\<close>

definition stored :: "(nat \<Rightarrow> i64) \<Rightarrow> usize \<Rightarrow> keva_db \<Rightarrow> saved \<Rightarrow> keva_db" where
  "stored clk n db x =
     (case x of (k, d, v) \<Rightarrow>
        let db = db_set db k (create_string v (lru_clock_current (clk n)))
        in case d of None \<Rightarrow> db | Some ts \<Rightarrow> set_expire db k ts)"

lemma restores_stored:
  assumes "db_inv db" "entry_ok x"
  shows "restores db [x] (stored clk n db x)"
proof -
  obtain k d v where x: "x = (k, d, v)" by (metis surj_pair)
  note f = db_set_facts [OF assms(1) object_wf_create_string, of k v "lru_clock_current (clk n)"]
  show ?thesis
    using f set_expire_facts [OF f(1), of k] assms(2)
    by (cases d) (simp_all add: x stored_def restores_def entry_ok_def)
qed

lemma yields_entry:
  assumes "entry_ok x"
  shows "yields (load_turn clk n (- 1) db) (entry_bytes x) (Some (n + 1, - 1, stored clk n db x))"
proof -
  obtain k d v where x: "x = (k, d, v)" by (metis surj_pair)
  have len: "length k < 2 ^ 32" "length v < 2 ^ 32" using assms by (simp_all add: x entry_ok_def)
  let ?store = "\<lambda>pe k v. let db = db_set db k (create_string v (lru_clock_current (clk n)))
    in Some (n + 1, - 1 :: int, if pe \<noteq> - 1 then set_expire db k pe else db)"
  let ?body = "\<lambda>(pe, opcode) r. if opcode = RDB_TYPE_STRING
    then read_then (read_pair r) (\<lambda>(k, v) r. (r, Inr (?store pe k v))) else (r, Inr (Some (n, pe, db)))"
  let ?turn = "\<lambda>opcode r. if opcode = RDB_OPCODE_EOF then (r, Inr None)
    else if opcode = RDB_OPCODE_DB then read_then (read_u32 r) (\<lambda>db_idx r. (r, Inr (Some (n, - 1, db))))
    else read_then (if opcode = RDB_OPCODE_EXPIRE then read_expiry r else (r, Inr (- 1, opcode))) ?body"
  have turn: "load_turn clk n (- 1) db = (\<lambda>r. read_then (read_u8 r) ?turn)"
    by (rule ext) (simp only: load_turn_def Let_def)
  have body: "yields (?body (pe, RDB_TYPE_STRING)) (string_bytes k @ string_bytes v) (?store pe k v)" for pe
    using yields_stored [OF len, of "?store pe"] by simp
  show ?thesis
  proof (cases d)
    case None
    have "yields (?turn RDB_TYPE_STRING) (string_bytes k @ string_bytes v) (?store (- 1) k v)"
      using body [of "- 1"] by simp
    from yields_read_then [where f = ?turn, OF yields_tag this] None show ?thesis
      by (simp add: turn x entry_bytes_def stored_def Let_def del: le_bytes.simps One_nat_def)
  next
    case (Some ts)
    then have ts: "in_i64 ts" "ts \<noteq> - 1" using assms by (auto simp: x entry_ok_def)
    from yields_read_then [where f = ?body, OF yields_expiry [OF ts(1)] body [of ts]]
    have "yields (?turn RDB_OPCODE_EXPIRE)
      ((i64_bytes ts @ le_bytes 1 (unat RDB_TYPE_STRING)) @ string_bytes k @ string_bytes v) (?store ts k v)"
      by (simp del: le_bytes.simps One_nat_def)
    from yields_read_then [where f = ?turn, OF yields_tag this] Some ts(2) show ?thesis
      by (simp add: turn x entry_bytes_def stored_def Let_def del: le_bytes.simps One_nat_def)
  qed
qed

lemma load_loop_entry:
  assumes "progresses (r_script r)" "r_file r = entry_bytes x @ rest" "entry_ok x" "db_inv db"
  obtains r' where "load_loop clk n (- 1) r db = load_loop clk (n + 1) (- 1) r' (stored clk n db x)"
    "moved r (entry_bytes x) rest r'"
proof -
  obtain r' where "load_turn clk n (- 1) db r = (r', Inr (Some (n + 1, - 1, stored clk n db x)))"
    "moved r (entry_bytes x) rest r'" by (rule yields_moved [OF yields_entry [OF assms(3)] assms(1,2)])
  then show ?thesis using that by (subst (asm) load_loop.simps) simp
qed

lemma restores_Cons: "restores db [x] db1 \<Longrightarrow> restores db1 xs db' \<Longrightarrow> restores db (x # xs) db'"
  by (simp add: restores_def)

lemma load_loop_entries:
  assumes "progresses (r_script r)" "r_file r = concat (map entry_bytes xs) @ rest" "\<forall>x\<in>set xs. entry_ok x" "db_inv db"
  shows "\<exists>r' db' m. load_loop clk n (- 1) r db = load_loop clk m (- 1) r' db' \<and>
    moved r (concat (map entry_bytes xs)) rest r' \<and> restores db xs db'"
  using assms
proof (induction xs arbitrary: n r db)
  case Nil
  then show ?case by (intro exI [of _ r] exI [of _ db] exI [of _ n]) (auto simp: moved_def restores_def)
next
  case (Cons x xs)
  then have "r_file r = entry_bytes x @ concat (map entry_bytes xs) @ rest" "entry_ok x" by auto
  from load_loop_entry [OF Cons.prems(1) this Cons.prems(4), of clk n] restores_stored [OF Cons.prems(4) this(2)]
  obtain r1 db1 where r1: "load_loop clk n (- 1) r db = load_loop clk (n + 1) (- 1) r1 db1"
    "moved r (entry_bytes x) (concat (map entry_bytes xs) @ rest) r1" "restores db [x] db1" by metis
  have "progresses (r_script r1)" "r_file r1 = concat (map entry_bytes xs) @ rest" "db_inv db1"
    using moved_script [OF r1(2) Cons.prems(1)] moved_file [OF r1(2)] r1(3) by (simp_all add: restores_def)
  with Cons.IH [of r1 db1 "n + 1"] Cons.prems(3)
  obtain r' db' m where "load_loop clk (n + 1) (- 1) r1 db1 = load_loop clk m (- 1) r' db'"
    "moved r1 (concat (map entry_bytes xs)) rest r'" "restores db1 xs db'" by auto
  then show ?case using r1 moved_trans [OF r1(2)] restores_Cons [OF r1(3)]
    by (intro exI [of _ r'] exI [of _ db'] exI [of _ m]) simp
qed

section \<open>Loading an image\<close>

lemma yields_header: "yields read_header (RDB_MAGIC @ le_bytes 2 (unat RDB_VERSION)) ()"
proof -
  let ?f = "\<lambda>magic r.
       if magic ! 0 \<noteq> CHR ''K'' \<or> magic ! 1 \<noteq> CHR ''E'' \<or> magic ! 2 \<noteq> CHR ''V'' \<or> magic ! 3 \<noteq> CHR ''A''
       then (r, Inl (proto_error ''Not a valid Keva RDB file (wrong magic bytes)''))
       else read_then (read_u16 r) (\<lambda>version r.
         if RDB_VERSION < version
         then (r, Inl (proto_error ''RDB version is newer than this server supports'')) else (r, Inr ()))"
  have m: "yields (read_bytes 4) RDB_MAGIC RDB_MAGIC"
    using yields_read_bytes [of RDB_MAGIC] by (simp add: RDB_MAGIC_def numeral_eq_Suc)
  have "yields (\<lambda>r. read_then (read_u16 r) (\<lambda>version r.
         if RDB_VERSION < version
         then (r, Inl (proto_error ''RDB version is newer than this server supports'')) else (r, Inr ())))
      (le_bytes 2 (unat RDB_VERSION) @ []) ()"
    by (rule yields_read_then [OF u16.get_yields [OF TrueI]]) (simp add: yields_return)
  then have "yields (?f RDB_MAGIC) (le_bytes 2 (unat RDB_VERSION)) ()" by (simp add: RDB_MAGIC_def)
  from yields_read_then [where f = ?f, OF m this] show ?thesis
    by (simp only: read_header_def [abs_def])
qed

text \<open>What \<^verbatim>\<open>rdb_load\<close> does with the stream of an open file.\<close>

definition load_stream :: "(nat \<Rightarrow> i64) \<Rightarrow> rdb_reader \<Rightarrow> keva_db \<Rightarrow> rdb_reader \<times> keva_db \<times> (status + unit)" where
  "load_stream clk r db =
     (case read_header r of
        (r, Inl s) \<Rightarrow> (r, db, Inl s)
      | (r, Inr _) \<Rightarrow>
          case load_loop clk 0 (- 1) r db of
            (r, db, Inl s) \<Rightarrow> (r, db, Inl s)
          | (r, db, Inr _) \<Rightarrow> case verify_crc64 r of (r, x) \<Rightarrow> (r, db, x))"

lemma rdb_load_alt:
  "rdb_load l f fs db =
     (case load_open_failure l of
        Some m \<Rightarrow> (db, io_error m)
      | None \<Rightarrow>
          case fs f of
            None \<Rightarrow> (db, not_found)
          | Some bytes \<Rightarrow>
              case load_stream (load_clock l) (reader_new (load_script l) bytes) db of
                (r, db, x) \<Rightarrow> (db, case x of Inl s \<Rightarrow> s | Inr _ \<Rightarrow> success))"
  by (auto simp: rdb_load_def load_stream_def split: option.split prod.split sum.split)

lemma verify_crc64_image:
  assumes "steady (r_script r)" "r_file r = le_bytes 8 (unat (r_crc r))"
  shows "\<exists>r'. verify_crc64 r = (r', Inr ()) \<and> r_file r' = []"
proof (cases "r_script r")
  case Nil
  then show ?thesis using assms(2) le_value_unat(4) [of "r_crc r"] by (simp add: verify_crc64_def Let_def del: le_bytes.simps)
next
  case (Cons x script)
  then obtain k where "x = IoDone k" "8 \<le> k" using assms(1) by (cases x) simp_all
  then show ?thesis using Cons assms(2) le_value_unat(4) [of "r_crc r"]
    by (simp add: verify_crc64_def Let_def del: le_bytes.simps)
qed

lemma load_loop_select:
  assumes "progresses (r_script r)" "r_file r = db_section db0 xs @ rest" "\<forall>x\<in>set xs. entry_ok x" "db_inv db"
  shows "\<exists>r' db' m. load_loop clk n (- 1) r db = load_loop clk m (- 1) r' db' \<and>
    moved r (db_section db0 xs) rest r' \<and> restores db xs db'"
proof -
  let ?t = "le_bytes 1 (unat RDB_OPCODE_DB)" and ?n = "le_bytes 4 (unat (word_of_int (db_id db0) :: u32))"
  let ?xs = "concat (map entry_bytes xs)"
  have "r_file r = ?t @ ?n @ ?xs @ rest" using assms(2) by (simp add: db_section_def del: le_bytes.simps One_nat_def)
  then obtain r1 where r1: "read_u8 r = (r1, Inr RDB_OPCODE_DB)" "moved r ?t (?n @ ?xs @ rest) r1"
      "progresses (r_script r1)" "r_file r1 = ?n @ ?xs @ rest"
    by (rule yields_moved [OF yields_tag assms(1)])
  obtain r2 where r2: "read_u32 r1 = (r2, Inr (word_of_int (db_id db0)))" "moved r1 ?n (?xs @ rest) r2"
      "progresses (r_script r2)" "r_file r2 = ?xs @ rest"
    by (rule yields_moved [OF u32.get_yields [OF TrueI] r1(3,4)])
  have "load_loop clk n (- 1) r db = load_loop clk n (- 1) r2 db"
    by (subst load_loop.simps) (simp add: load_turn_def r1(1) r2(1))
  moreover from load_loop_entries [OF r2(3,4) assms(3,4), of clk n]
  obtain r3 db' m where "load_loop clk n (- 1) r2 db = load_loop clk m (- 1) r3 db'"
    "moved r2 ?xs rest r3" "restores db xs db'" by blast
  moreover have "moved r (db_section db0 xs) rest r3"
    using moved_trans [OF r1(2) moved_trans [OF r2(2) \<open>moved r2 ?xs rest r3\<close>]] by (simp only: db_section_def)
  ultimately show ?thesis by auto
qed

lemma load_stream_image:
  assumes "steady script" "\<forall>x\<in>set xs. entry_ok x" "db_inv db"
  shows "\<exists>r' db'. load_stream clk (reader_new script (rdb_image (db_id (db0 :: keva_db)) xs)) db = (r', db', Inr ()) \<and>
    r_file r' = [] \<and> restores db xs db'"
proof -
  let ?h = "RDB_MAGIC @ le_bytes 2 (unat RDB_VERSION)" and ?sec = "db_section db0 xs"
  let ?t = "le_bytes 1 (unat RDB_OPCODE_EOF)" and ?crc = "le_bytes 8 (unat (crc64_update 0 (rdb_body (db_id db0) xs)))"
  let ?r = "reader_new script (rdb_image (db_id db0) xs)"
  have p: "progresses (r_script ?r)" using steady_progresses [OF assms(1)] by (simp add: reader_new_def)
  have "r_file ?r = ?h @ ?sec @ ?t @ ?crc"
    by (simp add: reader_new_def rdb_image_def rdb_body_section del: le_bytes.simps One_nat_def)
  then obtain r1 where r1: "read_header ?r = (r1, Inr ())" "moved ?r ?h (?sec @ ?t @ ?crc) r1"
      "progresses (r_script r1)" "r_file r1 = ?sec @ ?t @ ?crc"
    by (rule yields_moved [OF yields_header p])
  from load_loop_select [OF r1(3,4) assms(2,3), of clk 0]
  obtain r2 db' m where r2: "load_loop clk 0 (- 1) r1 db = load_loop clk m (- 1) r2 db'"
    "moved r1 ?sec (?t @ ?crc) r2" "restores db xs db'" by blast
  obtain r3 where r3: "read_u8 r2 = (r3, Inr RDB_OPCODE_EOF)" "moved r2 ?t ?crc r3"
    by (rule yields_moved [OF yields_tag moved_script [OF r2(2) r1(3)] moved_file [OF r2(2)]])
  have "load_loop clk m (- 1) r2 db' = (r3, db', Inr m)"
    by (subst load_loop.simps) (simp add: load_turn_def r3(1))
  moreover have "moved ?r (rdb_body (db_id db0) xs) ?crc r3"
    using moved_trans [OF r1(2) moved_trans [OF r2(2) r3(2)]] by (simp only: rdb_body_section append_assoc)
  then have "r_crc r3 = crc64_update 0 (rdb_body (db_id db0) xs)" "r_file r3 = ?crc" "steady (r_script r3)"
    using steady_subset [OF assms(1), of "r_script r3"] by (auto simp: moved_def ate_def reader_new_def)
  then obtain r4 where "verify_crc64 r3 = (r4, Inr ())" "r_file r4 = []" using verify_crc64_image [of r3] by auto
  ultimately show ?thesis using r1(1) r2(1,3) by (simp add: load_stream_def)
qed

lemma rdb_load_image:
  assumes "load_open_failure l = None" "steady (load_script l)" "fs f = Some (rdb_image (db_id (db0 :: keva_db)) xs)"
    and "\<forall>x\<in>set xs. entry_ok x" "db_inv db"
  shows "\<exists>db'. rdb_load l f fs db = (db', success) \<and> restores db xs db'"
  using load_stream_image [OF assms(2,4,5), of "load_clock l" db0] assms(1,3) by (auto simp: rdb_load_alt)

section \<open>Save, then load\<close>

text \<open>The readings of the clock during a save lie between its start and \<open>hi\<close> and do not go back.\<close>

definition clock_ok :: "save_env \<Rightarrow> i64 \<Rightarrow> bool" where
  "clock_ok e hi \<longleftrightarrow> 0 \<le> each_ms e \<and>
     (\<forall>i. each_ms e \<le> fst (visit_ms e i) \<and> fst (visit_ms e i) \<le> snd (visit_ms e i) \<and> snd (visit_ms e i) \<le> hi)"

lemma saved_deadline_None [simp]: "ttls db k = None \<Longrightarrow> saved_deadline db ts k = None"
  by (simp add: saved_deadline_def)

lemma saved_deadline_bounds:
  assumes "db_inv db" "clock_ok e hi" "ttls db k = Some d" "each_ms e < d" "d + (hi - each_ms e) < 2 ^ 63"
  obtains d' where "saved_deadline db (visit_ms e i) k = Some d'" "d \<le> d'" "d' \<le> d + (hi - each_ms e)"
proof -
  obtain a b where ab: "visit_ms e i = (a, b)" by fastforce
  then have c: "0 \<le> each_ms e" "each_ms e \<le> a" "a \<le> b" "b \<le> hi"
    using assms(2) by (auto simp: clock_ok_def dest: spec [of _ i])
  have "in_i64 d" using db_invD(5) [OF assms(1)] assms(3) by (simp add: ttls_def)
  then have "wrap_i64 (d - a) = d - a" "wrap_i64 (b + max 0 (d - a)) = b + max 0 (d - a)"
    using c assms(4,5) by (intro wrap_i64_id; auto simp: in_i64_alt max_def)+
  then have "saved_deadline db (visit_ms e i) k = Some (b + max 0 (d - a))"
    using assms(3) by (simp add: saved_deadline_def ab)
  then show ?thesis using that c assms(4) by simp
qed

lemma set_saved_entries:
  "x \<in> set (saved_entries db clk i ents) \<Longrightarrow>
    \<exists>j k val. (k, val) \<in> set ents \<and> x = (k, saved_deadline db (clk j) k, saved_value val)"
  by (induction db clk i ents rule: saved_entries.induct) auto

lemma fold_put_value:
  "distinct (map fst ents) \<Longrightarrow>
    fold put_value (saved_entries db clk i ents) m k =
      (case map_of ents k of None \<Rightarrow> m k | Some val \<Rightarrow> Some (canonical_int (saved_value val)))"
proof (induction db clk i ents arbitrary: m rule: saved_entries.induct)
  case (2 db clk i k' val ents)
  then have "map_of ents k' = None" by (simp add: map_of_eq_None_iff image_iff)
  then show ?case using 2 by (cases "k = k'"; cases "map_of ents k") simp_all
qed simp

lemma fold_put_deadline_other:
  "k \<notin> fst ` set ents \<Longrightarrow> fold put_deadline (saved_entries db clk i ents) m k = m k"
  by (induction db clk i ents arbitrary: m rule: saved_entries.induct) auto

lemma fold_put_deadline:
  "distinct (map fst ents) \<Longrightarrow> k \<in> fst ` set ents \<Longrightarrow>
    \<exists>j. fold put_deadline (saved_entries db clk i ents) m k = saved_deadline db (clk j) k"
proof (induction db clk i ents arbitrary: m rule: saved_entries.induct)
  case (2 db clk i k' val ents)
  let ?m = "m(k' := saved_deadline db (clk i) k')"
  show ?case
  proof (cases "k = k'")
    case True
    then have "k \<notin> fst ` set ents" using 2(2) by simp
    from fold_put_deadline_other [OF this, of db clk "i + 1" ?m] True show ?thesis
      by (intro exI [of _ i]) simp
  next
    case False
    then have "distinct (map fst ents)" "k \<in> fst ` set ents" using 2(2,3) by auto
    from 2(1) [OF this, of ?m] show ?thesis by (simp only: saved_entries.simps fold_simps put_deadline.simps)
  qed
qed simp

lemma live_dead: "db_inv db \<Longrightarrow> live db now k = Some v \<Longrightarrow> ttls db k = Some d \<Longrightarrow> now < d"
  by (auto simp: live_def dead_def split: if_splits)

lemma map_of_for_each:
  assumes "db_inv db"
  shows "map_option (\<lambda>val. canonical_int (saved_value val)) (map_of (db_for_each db now) k) = live db now k"
proof (cases "map_of (db_for_each db now) k")
  case None
  then have "k \<notin> dom (live db now)" using db_for_each_keys [OF assms, of now] by (auto simp: map_of_eq_None_iff)
  then show ?thesis using None by (simp add: domIff)
next
  case (Some val)
  then have "(k, val) \<in> set (db_for_each db now)" by (rule map_of_SomeD)
  then obtain ob where ob: "val = Some ob" "dict_abs (keys db) k = Some ob" "\<not> dead db now k"
    unfolding db_for_each_facts(2) [OF assms] by blast
  have "object_wf ob" using db_invD(4) [OF assms ob(2)] .
  then show ?thesis using Some ob by (simp add: saved_value_content live_def vals_def)
qed

lemma snapshot_entries_ok:
  assumes "db_inv db" "clock_ok e hi" "\<forall>k d. ttls db k = Some d \<longrightarrow> d + (hi - each_ms e) < 2 ^ 63"
    and "\<forall>k v. live db (each_ms e) k = Some v \<longrightarrow> length k < 2 ^ 32 \<and> length v < 2 ^ 32"
    and "x \<in> set (snapshot e db)"
  shows "entry_ok x"
proof -
  obtain j k val where x: "(k, val) \<in> set (db_for_each db (each_ms e))"
    "x = (k, saved_deadline db (visit_ms e j) k, saved_value val)"
    using set_saved_entries [OF assms(5) [unfolded snapshot_def]] by blast
  obtain ob where ob: "val = Some ob" "dict_abs (keys db) k = Some ob" "\<not> dead db (each_ms e) k"
    using x(1) unfolding db_for_each_facts(2) [OF assms(1)] by blast
  have v: "live db (each_ms e) k = Some (saved_value val)"
    using ob saved_value_content [OF db_invD(4) [OF assms(1) ob(2)]] by (simp add: live_def vals_def)
  show ?thesis
  proof (cases "ttls db k")
    case (Some d)
    have t: "each_ms e < d" using live_dead [OF assms(1) v Some] .
    have fits: "d + (hi - each_ms e) < 2 ^ 63" using assms(3) Some by blast
    from saved_deadline_bounds [OF assms(1,2) Some t fits, of j]
    obtain d' where d': "saved_deadline db (visit_ms e j) k = Some d'" "d \<le> d'" "d' \<le> d + (hi - each_ms e)" .
    then have "0 \<le> d' \<and> in_i64 d'" using t fits assms(2) by (simp add: in_i64_alt clock_ok_def)
    then show ?thesis using assms(4) v x(2) d'(1) by (auto simp: entry_ok_def)
  qed (use assms(4) v x(2) in \<open>auto simp: entry_ok_def\<close>)
qed

lemma snapshot_restores:
  assumes "db_inv db" "clock_ok e hi" "\<forall>k d. ttls db k = Some d \<longrightarrow> d + (hi - each_ms e) < 2 ^ 63"
    and "\<forall>k v. live db (each_ms e) k = Some v \<longrightarrow> length k < 2 ^ 32 \<and> length v < 2 ^ 32"
    and "rdb_save_sync e f db fs = (db1, fs1, s)" "st_ok s"
    and "load_open_failure l = None" "steady (load_script l)"
  shows "\<exists>db'. rdb_load l f fs1 (db_new n) = (db', success) \<and> db_inv db' \<and> vals db' = live db (each_ms e) \<and>
    (\<forall>k\<in>dom (vals db'). case ttls db k of None \<Rightarrow> ttls db' k = None
       | Some d \<Rightarrow> \<exists>d'. ttls db' k = Some d' \<and> d \<le> d' \<and> d' \<le> d + (hi - each_ms e))"
proof -
  let ?ents = "db_for_each db (each_ms e)"
  have "fs1 f = Some (rdb_image (db_id db) (snapshot e db))"
    using rdb_save_sync_facts(2) [OF assms(1,5,6)] by simp
  from rdb_load_image [where fs = fs1 and f = f and ?db0.0 = db and db = "db_new n", OF assms(7,8) this] db_new_facts(1) snapshot_entries_ok [OF assms(1-4)]
  obtain db' where load: "rdb_load l f fs1 (db_new n) = (db', success)"
    and r: "restores (db_new n) (snapshot e db) db'" by blast
  note dist = db_for_each_facts(1) [OF assms(1), of "each_ms e"]
  have vals: "vals db' = live db (each_ms e)"
  proof
    fix k
    show "vals db' k = live db (each_ms e) k"
      using r map_of_for_each [OF assms(1), of "each_ms e" k]
      by (cases "map_of ?ents k")
        (simp_all add: restores_def snapshot_def fold_put_value [OF dist] db_new_facts)
  qed
  have "case ttls db k of None \<Rightarrow> ttls db' k = None
       | Some d \<Rightarrow> \<exists>d'. ttls db' k = Some d' \<and> d \<le> d' \<and> d' \<le> d + (hi - each_ms e)" if "k \<in> dom (vals db')" for k
  proof -
    from that vals have k: "k \<in> fst ` set ?ents" using db_for_each_keys [OF assms(1)] by simp
    then obtain j where j: "ttls db' k = saved_deadline db (visit_ms e j) k"
      using fold_put_deadline [OF dist, of k db "visit_ms e" 0 "ttls (db_new n)"] r
      by (auto simp: restores_def snapshot_def)
    show ?thesis
    proof (cases "ttls db k")
      case (Some d)
      obtain v where "live db (each_ms e) k = Some v" using \<open>k \<in> dom (vals db')\<close> vals by auto
      from live_dead [OF assms(1) this Some] have t: "each_ms e < d" .
      have fits: "d + (hi - each_ms e) < 2 ^ 63" using assms(3) Some by blast
      from saved_deadline_bounds [OF assms(1,2) Some t fits, of j] j Some show ?thesis by auto
    qed (simp add: j)
  qed
  then show ?thesis using load r vals by (auto simp: restores_def)
qed

text \<open>C14. A save followed by a load restores the data set: every key alive at the start of the save
  comes back with its value and nothing else does; keys without a deadline come back without one, and
  a deadline comes back never earlier and later by at most the duration of the save. The time of the
  load plays no part: a key whose deadline has passed by then is restored with that deadline too, no
  lookup sees it and the first one or the periodic task removes it. This is what the code does
  (\<^verbatim>\<open>rdb_load\<close> never reads the clock); documentation.md:1059 says that such keys are discarded, and the
  disagreement is recorded as a finding (\<open>expired_keys_are_loaded\<close> is an instance).\<close>

theorem snapshot_round_trip:
  assumes "db_inv db" "clock_ok e hi" "\<forall>k d. ttls db k = Some d \<longrightarrow> d + (hi - each_ms e) < 2 ^ 63"
    and "\<forall>k v. live db (each_ms e) k = Some v \<longrightarrow> length k < 2 ^ 32 \<and> length v < 2 ^ 32"
    and "rdb_save_sync e f db fs = (db1, fs1, s)" "st_ok s"
    and "load_open_failure l = None" "steady (load_script l)"
  shows "\<exists>db'. rdb_load l f fs1 (db_new n) = (db', success) \<and> db_inv db' \<and> vals db' = live db (each_ms e) \<and>
    (\<forall>k\<in>dom (vals db'). case ttls db k of None \<Rightarrow> ttls db' k = None
       | Some d \<Rightarrow> \<exists>d'. ttls db' k = Some d' \<and> d \<le> d' \<and> d' \<le> d + (hi - each_ms e))"
  using snapshot_restores [OF assms] .

definition sample_save :: save_env where
  "sample_save = \<lparr>each_ms = 1, visit_ms = (\<lambda>i. (2, 3)), open_failure = None, io_script = [IoDone 9], rename_failure = None\<rparr>"

definition sample_load :: load_env where
  "sample_load = \<lparr>load_open_failure = None, load_script = [IoDone 9], load_clock = (\<lambda>n. 0)\<rparr>"

lemma sample_save_ok: "clock_ok sample_save 3" "each_ms sample_save = 1" "steady (io_script sample_save)"
  "open_failure sample_save = None" "rename_failure sample_save = None"
  by (simp_all add: clock_ok_def sample_save_def)

lemma sample_live: "live sample_db 1 = vals sample_db"
  by (auto simp: live_def dead_def sample_db_facts)

lemma sample_small:
  "\<forall>k v. live sample_db (each_ms sample_save) k = Some v \<longrightarrow> length k < 2 ^ 32 \<and> length v < 2 ^ 32"
  using length_canonical_int [of "''x''"] length_canonical_int [of "''y''"]
  by (auto simp: sample_save_ok(2) sample_live sample_db_facts split: if_splits)

lemma rdb_save_is_atomic_witness:
  "st_ok (snd (snd (rdb_save_sync sample_save ''d'' sample_db [''c'' \<mapsto> ''z'']))) \<and>
   fst (snd (rdb_save_sync sample_save ''d'' sample_db [''c'' \<mapsto> ''z''])) ''c'' = Some ''z''"
proof -
  obtain db' fs' s where e: "rdb_save_sync sample_save ''d'' sample_db [''c'' \<mapsto> ''z''] = (db', fs', s)"
    by (metis surj_pair)
  from rdb_save_is_atomic [OF sample_db_facts(1) e] show ?thesis
    by (simp add: e sample_save_ok tmp_path_def)
qed

lemma snapshot_round_trip_witness:
  "\<exists>db'. rdb_load sample_load ''d'' (fst (snd (rdb_save_sync sample_save ''d'' sample_db Map.empty))) (db_new 0) =
     (db', success) \<and> vals db' = vals sample_db \<and> (\<exists>d. ttls db' ''a'' = Some d \<and> 5 \<le> d \<and> d \<le> 7)"
proof -
  obtain db1 fs1 s where e: "rdb_save_sync sample_save ''d'' sample_db Map.empty = (db1, fs1, s)"
    by (metis surj_pair)
  have ok: "st_ok s" using rdb_save_sync_facts(4) [OF sample_db_facts(1) e] sample_save_ok by simp
  have late: "\<forall>k d. ttls sample_db k = Some d \<longrightarrow> d + (3 - each_ms sample_save) < 2 ^ 63"
    by (simp add: sample_db_facts sample_save_ok(2))
  have l: "load_open_failure sample_load = None" "steady (load_script sample_load)"
    by (simp_all add: sample_load_def)
  from snapshot_round_trip [OF sample_db_facts(1) sample_save_ok(1) late sample_small e ok l, of 0]
  obtain db' where db': "rdb_load sample_load ''d'' fs1 (db_new 0) = (db', success)" "vals db' = vals sample_db"
    "\<forall>k\<in>dom (vals db'). case ttls sample_db k of None \<Rightarrow> ttls db' k = None
       | Some d \<Rightarrow> \<exists>d'. ttls db' k = Some d' \<and> d \<le> d' \<and> d' \<le> d + (3 - each_ms sample_save)"
    by (auto simp: sample_save_ok(2) sample_live)
  then show ?thesis by (auto simp: e sample_db_facts sample_save_ok(2) split: if_splits)
qed

section \<open>Keys that expired while the server was down\<close>

text \<open>The sample database is saved from time 1 on; its key \<open>a\<close> has the deadline 5. A load at any later
  time restores it, although no client can see it at time 9.\<close>

lemma expired_keys_are_loaded:
  assumes "load_open_failure l = None" "steady (load_script l)"
  shows "\<exists>db. rdb_load l ''d'' (fst (snd (rdb_save_sync sample_save ''d'' sample_db Map.empty))) (db_new 0) = (db, success) \<and>
    vals db ''a'' = Some (canonical_int ''x'') \<and> live db 9 ''a'' = None"
proof -
  obtain db1 fs1 s where save: "rdb_save_sync sample_save ''d'' sample_db Map.empty = (db1, fs1, s)"
    by (metis surj_pair)
  have s: "st_ok s" using rdb_save_sync_facts(4) [OF sample_db_facts(1) save sample_save_ok(4,5,3)] .
  have late: "\<forall>k d. ttls sample_db k = Some d \<longrightarrow> d + (3 - each_ms sample_save) < 2 ^ 63"
    by (simp add: sample_db_facts sample_save_ok(2))
  from snapshot_restores [OF sample_db_facts(1) sample_save_ok(1) late sample_small save s assms, of 0]
  obtain db where db: "rdb_load l ''d'' fs1 (db_new 0) = (db, success)" "vals db = vals sample_db"
    "case ttls sample_db ''a'' of None \<Rightarrow> ttls db ''a'' = None
     | Some d \<Rightarrow> \<exists>d'. ttls db ''a'' = Some d' \<and> d \<le> d' \<and> d' \<le> d + 2"
    by (auto simp: sample_save_ok(2) sample_live sample_db_facts)
  then show ?thesis by (auto simp: save live_def dead_def sample_db_facts)
qed

end
