(* ===== verification/RdbTorn.thy ===== *)
theory RdbTorn
  imports RdbLoad
begin

text \<open>
  Damaged snapshots: reading is monotone in the file (what succeeds on a file does the same on a
  longer one), so a truncated snapshot cannot load; and the start of the server, which drops what a
  failed load left behind, is all or nothing.
\<close>

section \<open>Reading does not look ahead\<close>

definition longer :: "string \<Rightarrow> rdb_reader \<Rightarrow> rdb_reader" where
  "longer ext r = r\<lparr>r_file := r_file r @ ext\<rparr>"

lemma longer_simps [simp]:
  "r_file (longer ext r) = r_file r @ ext" "r_script (longer ext r) = r_script r" "r_crc (longer ext r) = r_crc r"
  "(longer ext r)\<lparr>r_script := s\<rparr> = longer ext (r\<lparr>r_script := s\<rparr>)"
  by (simp_all add: longer_def)

lemma advance_longer: "n \<le> length (r_file r) \<Longrightarrow> advance n (longer ext r) = longer ext (advance n r)"
  by (simp add: advance_def longer_def)

definition stable :: "(rdb_reader \<Rightarrow> 'a read_outcome) \<Rightarrow> bool" where
  "stable g \<longleftrightarrow> (\<forall>r r' x ext. g r = (r', Inr x) \<longrightarrow> g (longer ext r) = (longer ext r', Inr x))"

text \<open>A failure is an input error, never the answer that there is no file.\<close>

definition fails_hard :: "(rdb_reader \<Rightarrow> 'a read_outcome) \<Rightarrow> bool" where
  "fails_hard g \<longleftrightarrow> (\<forall>r r' e. g r = (r', Inl e) \<longrightarrow> \<not> st_ok e \<and> \<not> is_not_found e)"

named_theorems reader_facts \<open>stability and failures of the reading operations\<close>

lemma stableD: "stable g \<Longrightarrow> g r = (r', Inr x) \<Longrightarrow> g (longer ext r) = (longer ext r', Inr x)"
  by (simp add: stable_def)

lemma fails_hardD: "fails_hard g \<Longrightarrow> g r = (r', Inl e) \<Longrightarrow> \<not> st_ok e \<and> \<not> is_not_found e"
  by (simp add: fails_hard_def)

lemma stable_return [reader_facts]: "stable (\<lambda>r. (r, Inr x))"
  and stable_error [reader_facts]: "stable (\<lambda>r. (r, Inl e))"
  and fails_hard_return [reader_facts]: "fails_hard (\<lambda>r. (r, Inr x))"
  by (simp_all add: stable_def fails_hard_def)

lemma fails_hard_error [reader_facts]:
  "fails_hard (\<lambda>r. (r, Inl (io_error m)))" "fails_hard (\<lambda>r. (r, Inl (proto_error m)))"
  by (simp_all add: fails_hard_def)

lemma stable_read_then [reader_facts]:
  assumes "stable g" "\<And>x. stable (f x)"
  shows "stable (\<lambda>r. read_then (g r) f)"
  unfolding stable_def
proof (intro allI impI)
  fix r r' x ext assume "read_then (g r) f = (r', Inr x)"
  then obtain r1 u where "g r = (r1, Inr u)" "f u r1 = (r', Inr x)" by (blast dest: read_then_InrD)
  then show "read_then (g (longer ext r)) f = (longer ext r', Inr x)"
    using stableD [OF assms(1)] stableD [OF assms(2)] by simp
qed

lemma fails_hard_read_then [reader_facts]:
  assumes "fails_hard g" "\<And>x. fails_hard (f x)"
  shows "fails_hard (\<lambda>r. read_then (g r) f)"
  using fails_hardD [OF assms(1)] fails_hardD [OF assms(2)]
  by (fastforce simp: fails_hard_def read_then_def split: prod.splits sum.splits)

lemma stable_if [reader_facts]: "stable g \<Longrightarrow> stable h \<Longrightarrow> stable (\<lambda>r. if b then g r else h r)"
  by (cases b) simp_all

lemma fails_hard_if [reader_facts]: "fails_hard g \<Longrightarrow> fails_hard h \<Longrightarrow> fails_hard (\<lambda>r. if b then g r else h r)"
  by (cases b) simp_all

lemma read_loop_length:
  "read_loop script k out r = (r', Inr bs) \<Longrightarrow> k \<le> length (r_file r)"
  by (drule read_loop_sound) (auto simp: ate_def)

lemma read_loop_longer:
  "read_loop script k out r = (r', Inr bs) \<Longrightarrow> read_loop script k out (longer ext r) = (longer ext r', Inr bs)"
proof (induction script k out r rule: read_loop.induct)
  case (2 k out r)
  then show ?case using advance_longer [of "Suc k" r ext] by (simp split: if_splits)
next
  case (3 m script k out r)
  have "Suc k \<le> length (r_file r)" using read_loop_length [OF 3(2)] .
  then have n: "min m (min (Suc k) (length (r_file (longer ext r)))) = min m (min (Suc k) (length (r_file r)))" by simp
  show ?case using 3 advance_longer [of "min m (min (Suc k) (length (r_file r)))" r ext]
    unfolding read_loop.simps n Let_def by (auto split: if_splits)
qed auto

lemma read_loop_fails: "read_loop script k out r = (r', Inl e) \<Longrightarrow> \<not> st_ok e \<and> \<not> is_not_found e"
  by (induction script k out r rule: read_loop.induct) (auto simp: eof_error_def Let_def split: if_splits)

lemma read_bytes_reader [reader_facts]: "stable (read_bytes k)" "fails_hard (read_bytes k)"
  using read_loop_longer read_loop_fails by (auto simp: stable_def fails_hard_def read_bytes_def)

lemma read_numbers_reader [reader_facts]:
  "stable read_u8" "stable read_u16" "stable read_u32" "stable read_i64"
  "fails_hard read_u8" "fails_hard read_u16" "fails_hard read_u32" "fails_hard read_i64"
  unfolding read_u8_def [abs_def] read_u16_def [abs_def] read_u32_def [abs_def] read_i64_def [abs_def]
  by (intro reader_facts)+

lemma read_string_reader [reader_facts]: "stable read_string" "fails_hard read_string"
  unfolding read_string_def [abs_def] by (intro reader_facts)+

lemma read_groups_reader [reader_facts]:
  "stable read_expiry" "stable read_pair" "stable read_header"
  "fails_hard read_expiry" "fails_hard read_pair" "fails_hard read_header"
  unfolding read_expiry_def [abs_def] read_pair_def [abs_def] read_header_def [abs_def]
  by (intro reader_facts)+

lemma verify_crc64_reader [reader_facts]: "stable verify_crc64" "fails_hard verify_crc64"
  by (auto simp: stable_def fails_hard_def verify_crc64_def Let_def longer_def
      split: list.splits io_result.splits if_splits)

section \<open>The loop\<close>

lemma reader_prod [reader_facts]:
  "(\<And>a b. stable (g a b)) \<Longrightarrow> stable (case_prod g x)"
  "(\<And>a b. fails_hard (h a b)) \<Longrightarrow> fails_hard (case_prod h x)"
  by (simp_all split: prod.split)

lemma load_turn_reader [reader_facts]: "stable (load_turn clk n pe db)" "fails_hard (load_turn clk n pe db)"
  unfolding load_turn_def [abs_def] Let_def by (intro reader_facts)+

lemma load_loop_longer:
  "load_loop clk n pe r db = (r', db', Inr m) \<Longrightarrow>
    load_loop clk n pe (longer ext r) db = (longer ext r', db', Inr m)"
proof (induction clk n pe r db rule: load_loop.induct)
  case (1 clk n pe r db)
  note run = 1(2) [unfolded load_loop.simps [of clk n pe r db]]
  obtain r1 x where r1: "load_turn clk n pe db r = (r1, Inr x)"
    using run by (auto split: prod.splits sum.splits)
  note l1 = stableD [OF load_turn_reader(1) r1, of ext]
  show ?case
  proof (cases x)
    case None
    then show ?thesis using run l1 by (subst load_loop.simps) (auto simp: r1)
  next
    case (Some y)
    obtain n' pe' db1 where y: "y = (n', pe', db1)" by (metis surj_pair)
    have "load_loop clk n' pe' r1 db1 = (r', db', Inr m)" using run by (simp add: r1 Some y)
    with 1(1) [OF r1 [symmetric] refl Some y [symmetric] refl] show ?thesis
      by (subst load_loop.simps) (simp add: l1 Some y)
  qed
qed

lemma in_i64_sint [simp]: "in_i64 (sint (x :: u64))"
  using sint_greater_eq [of x] sint_less [of x] by (simp add: in_i64_alt)

lemma read_expiry_range: "read_expiry r = (r', Inr (ts, op)) \<Longrightarrow> in_i64 ts"
  by (auto simp: read_expiry_def read_i64_def dest!: read_then_InrD)

lemma load_turn_inv:
  assumes "load_turn clk n pe db r = (r', Inr (Some (n', pe', db')))" "db_inv db" "in_i64 pe"
  shows "db_inv db'" "in_i64 pe'"
proof -
  have a: "db_inv (db_set db k (create_string v l))" for k v l
    using db_set_facts(1) [OF assms(2) object_wf_create_string] .
  have b: "db_inv (set_expire (db_set db k (create_string v l)) k ts)" if "in_i64 ts" for k v l ts
    using db_set_facts [OF assms(2) object_wf_create_string, of k v l]
      set_expire_facts(1) [of "db_set db k (create_string v l)" k ts] that by simp
  show "db_inv db'" "in_i64 pe'"
    using assms
    by (auto simp: load_turn_def Let_def a dest!: read_then_InrD split: if_splits)
      (metis b read_expiry_range)+
qed

lemma load_loop_inv:
  "load_loop clk n pe r db = (r', db', res) \<Longrightarrow> db_inv db \<Longrightarrow> in_i64 pe \<Longrightarrow>
    db_inv db' \<and> (\<forall>e. res = Inl e \<longrightarrow> \<not> st_ok e \<and> \<not> is_not_found e)"
proof (induction clk n pe r db rule: load_loop.induct)
  case (1 clk n pe r db)
  note run = 1(2) [unfolded load_loop.simps [of clk n pe r db]]
  obtain r1 x where r1: "load_turn clk n pe db r = (r1, x)" by fastforce
  show ?case
  proof (cases "\<exists>n' pe' db1. x = Inr (Some (n', pe', db1))")
    case True
    then obtain n' pe' db1 where x: "x = Inr (Some (n', pe', db1))" by blast
    have "load_loop clk n' pe' r1 db1 = (r', db', res)" using run by (simp add: r1 x)
    from 1(1) [OF r1 [symmetric] x refl refl refl this] load_turn_inv [OF r1 [unfolded x] 1(3,4)]
    show ?thesis by blast
  next
    case False
    then show ?thesis using run 1(3) fails_hardD [OF load_turn_reader(2), of clk n pe db r r1]
      by (auto simp: r1 split: sum.splits option.splits)
  qed
qed

section \<open>The whole file\<close>

lemma load_stream_longer:
  assumes "load_stream clk r db = (r', db', Inr ())"
  shows "load_stream clk (longer ext r) db = (longer ext r', db', Inr ())"
proof -
  obtain r1 u where r1: "read_header r = (r1, Inr u)"
    using assms by (auto simp: load_stream_def split: prod.splits sum.splits)
  obtain r2 m where r2: "load_loop clk 0 (- 1) r1 db = (r2, db', Inr m)" and r3: "verify_crc64 r2 = (r', Inr ())"
    using assms by (auto simp: load_stream_def r1 split: prod.splits sum.splits)
  show ?thesis
    by (simp add: load_stream_def stableD [OF read_groups_reader(3) r1] load_loop_longer [OF r2]
        stableD [OF verify_crc64_reader(1) r3])
qed

lemma load_stream_inv:
  assumes "load_stream clk r db = (r', db', x)" "db_inv db"
  shows "db_inv db'" "x = Inl e \<Longrightarrow> \<not> st_ok e \<and> \<not> is_not_found e"
  using assms load_loop_inv [of clk 0 "- 1"] fails_hardD [OF read_groups_reader(6)] fails_hardD [OF verify_crc64_reader(2)]
  by (fastforce simp: load_stream_def split: prod.splits sum.splits)+

text \<open>
  A snapshot cut short is rejected: if a proper prefix loaded, so would the whole image, with bytes
  left over, but the image loads without a rest.
\<close>

lemma load_stream_prefix:
  assumes "steady script" "rdb_image (db_id (db0 :: keva_db)) xs = p @ q" "q \<noteq> []" "\<forall>x\<in>set xs. entry_ok x" "db_inv db"
  shows "\<exists>r' db' e. load_stream clk (reader_new script p) db = (r', db', Inl e) \<and> \<not> st_ok e \<and> \<not> is_not_found e"
proof -
  obtain r' db' x where run: "load_stream clk (reader_new script p) db = (r', db', x)" by (metis surj_pair)
  have "x \<noteq> Inr ()"
  proof
    assume "x = Inr ()"
    with load_stream_longer run have "load_stream clk (longer q (reader_new script p)) db = (longer q r', db', Inr ())"
      by blast
    moreover have "longer q (reader_new script p) = reader_new script (rdb_image (db_id db0) xs)"
      by (simp add: longer_def reader_new_def assms(2))
    ultimately have "r_file (longer q r') = []"
      using load_stream_image [OF assms(1,4,5), of clk db0] by auto
    then show False using assms(3) by simp
  qed
  then obtain e where "x = Inl e" by (cases x) auto
  then show ?thesis using run load_stream_inv [OF run assms(5)] by simp
qed

text \<open>C16. A snapshot that was cut short at any point is detected: loading it fails, and the server
  starts with an empty data set instead of a part of the old one.\<close>

theorem truncated_snapshot_rejected:
  assumes "db_inv db" "clock_ok e hi" "\<forall>k d. ttls db k = Some d \<longrightarrow> d + (hi - each_ms e) < 2 ^ 63"
    and "\<forall>k v. live db (each_ms e) k = Some v \<longrightarrow> length k < 2 ^ 32 \<and> length v < 2 ^ 32"
    and "rdb_save_sync e f db fs = (db1, fs1, s)" "st_ok s"
    and "fs1 f = Some (p @ q)" "q \<noteq> []" "load_open_failure l = None" "steady (load_script l)"
  shows "\<not> st_ok (snd (rdb_load l f (fs1(f \<mapsto> p)) (db_new n))) \<and>
    vals (load_at_startup l f (fs1(f \<mapsto> p)) (db_new n)) = Map.empty \<and>
    ttls (load_at_startup l f (fs1(f \<mapsto> p)) (db_new n)) = Map.empty"
proof -
  have "rdb_image (db_id db) (snapshot e db) = p @ q"
    using rdb_save_sync_facts(2) [OF assms(1,5,6)] assms(7) by simp
  from load_stream_prefix [OF assms(10) this assms(8) _ db_new_facts(1)] snapshot_entries_ok [OF assms(1-4)]
  obtain r' db' err where run: "load_stream (load_clock l) (reader_new (load_script l) p) (db_new n) = (r', db', Inl err)"
    and err: "\<not> st_ok err" "\<not> is_not_found err" by blast
  have "db_inv db'" using load_stream_inv(1) [OF run db_new_facts(1)] .
  moreover have "rdb_load l f (fs1(f \<mapsto> p)) (db_new n) = (db', err)"
    by (simp add: rdb_load_alt assms(9) run)
  ultimately show ?thesis using err db_flush_facts [of db'] by (simp add: load_at_startup_def)
qed

lemma rdb_load_any_file:
  assumes "db_inv db" "rdb_load l f fs db = (db', s)"
  shows "db_inv db'" "\<not> st_ok s \<Longrightarrow> is_not_found s \<Longrightarrow> db' = db \<and> fs f = None"
proof -
  have "db_inv db' \<and> (\<not> st_ok s \<and> is_not_found s \<longrightarrow> db' = db \<and> fs f = None)"
  proof (cases "load_open_failure l = None \<and> fs f \<noteq> None")
    case True
    then obtain bytes where bytes: "fs f = Some bytes" by blast
    obtain r' x where run: "load_stream (load_clock l) (reader_new (load_script l) bytes) db = (r', db', x)"
      and s: "s = (case x of Inl s \<Rightarrow> s | Inr _ \<Rightarrow> success)"
      using assms(2) True bytes by (auto simp: rdb_load_alt split: prod.splits)
    show ?thesis using load_stream_inv [OF run assms(1)] s by (cases x) auto
  qed (use assms in \<open>auto simp: rdb_load_alt split: option.splits\<close>)
  then show "db_inv db'" "\<not> st_ok s \<Longrightarrow> is_not_found s \<Longrightarrow> db' = db \<and> fs f = None" by blast+
qed

lemma load_at_startup_inv: "db_inv db \<Longrightarrow> db_inv (load_at_startup l f fs db)"
  using rdb_load_any_file(1) [of db l f fs] db_flush_facts [of "fst (rdb_load l f fs db)"]
  by (cases "rdb_load l f fs db") (simp add: load_at_startup_def)

text \<open>C17. Loading at startup is all or nothing for every file, valid or not: the database invariant
  holds afterwards, and either the whole file was accepted, or there was none and nothing changed,
  or the data set is empty.\<close>

theorem startup_all_or_nothing:
  assumes "db_inv db" "rdb_load l f fs db = (db', s)"
  shows "db_inv db' \<and> db_inv (load_at_startup l f fs db) \<and>
    (if st_ok s then load_at_startup l f fs db = db'
     else if is_not_found s then load_at_startup l f fs db = db \<and> fs f = None
     else vals (load_at_startup l f fs db) = Map.empty \<and> ttls (load_at_startup l f fs db) = Map.empty)"
  using rdb_load_any_file [OF assms] assms(2) db_flush_facts [of db'] by (auto simp: load_at_startup_def)

lemma truncated_snapshot_rejected_witness:
  "\<exists>b fs. fst (snd (rdb_save_sync sample_save ''d'' sample_db Map.empty)) ''d'' = Some b \<and> b \<noteq> [] \<and>
     \<not> st_ok (snd (rdb_load sample_load ''d'' (fs(''d'' \<mapsto> butlast b)) (db_new 0)))"
proof -
  obtain db1 fs1 s where e: "rdb_save_sync sample_save ''d'' sample_db Map.empty = (db1, fs1, s)"
    by (metis surj_pair)
  have ok: "st_ok s" using rdb_save_sync_facts(4) [OF sample_db_facts(1) e] sample_save_ok by simp
  obtain b where b: "fs1 ''d'' = Some b" "b \<noteq> []"
    using rdb_save_sync_facts(2) [OF sample_db_facts(1) e ok]
    by (simp add: rdb_image_def rdb_body_def RDB_MAGIC_def)
  have late: "\<forall>k d. ttls sample_db k = Some d \<longrightarrow> d + (3 - each_ms sample_save) < 2 ^ 63"
    by (simp add: sample_db_facts sample_save_ok(2))
  have l: "load_open_failure sample_load = None" "steady (load_script sample_load)"
    by (simp_all add: sample_load_def)
  have pq: "fs1 ''d'' = Some (butlast b @ [last b])" using b by simp
  from truncated_snapshot_rejected [OF sample_db_facts(1) sample_save_ok(1) late sample_small e ok pq _ l] b
  show ?thesis by (auto simp: e)
qed

lemma startup_all_or_nothing_witness:
  "db_inv (load_at_startup sample_load ''d'' [''d'' \<mapsto> ''KEVA''] sample_db)"
proof -
  obtain db' s where e: "rdb_load sample_load ''d'' [''d'' \<mapsto> ''KEVA''] sample_db = (db', s)" by fastforce
  from startup_all_or_nothing [OF sample_db_facts(1) e] show ?thesis by simp
qed

end
