(* ===== verification/Process.thy ===== *)
theory Process
  imports EntryProps RdbTorn
begin

text \<open>
  \<^verbatim>\<open>main\<close> as a whole: the life of a process from its command line to its exit, as a function of what
  the world answers to it, and what one life leaves for the next.
\<close>

section \<open>The life of a process\<close>

text \<open>
  Everything the world answers: \<open>waits\<close> to \<^verbatim>\<open>epoll_wait\<close>, \<open>callback_calls\<close> to the system calls of the
  callbacks, \<open>last_change\<close> is what other processes do to the files between the last callback and the
  shutdown.
\<close>

record 'k world =
  boot_time :: i64
  load_calls :: load_env
  kernel :: 'k
  pipe_end :: "int option"
  sock_calls :: sock_answers
  timer_start :: int
  waits :: "(wait_result \<times> int) list"
  callback_calls :: "main_input io_answer list"
  table_order :: "int list"
  final_save :: save_env
  last_change :: "files \<Rightarrow> files"

datatype process_end = Exited int files | Crashed | StillRunning | UndefinedConversion

text \<open>The state before the loop is entered, and the one after it with whether the loop has ended.\<close>

definition main_start :: "'k epoll_ctl \<Rightarrow> 'k world \<Rightarrow> server_config \<Rightarrow> files \<Rightarrow> 'k main_state option" where
  "main_start ctl wd cfg fs =
     main_setup ctl (kernel wd) (pipe_end wd) (sock_calls wd) (timer_start wd)
       (main_boot cfg (boot_time wd) (load_calls wd) fs)"

definition main_loop :: "'k epoll_ctl \<Rightarrow> 'k world \<Rightarrow> 'k main_state \<Rightarrow> 'k main_state \<times> bool" where
  "main_loop ctl wd w = loop_run ev_loop put_loop (main_call ctl) (waits wd) (w\<lparr>answers := callback_calls wd\<rparr>)"

definition main_process :: "'k epoll_ctl \<Rightarrow> 'k world \<Rightarrow> string list \<Rightarrow> files \<Rightarrow> process_end" where
  "main_process ctl wd args fs =
     (case parse_args args of
        Undefined \<Rightarrow> UndefinedConversion
      | ExitWith code \<Rightarrow> Exited code fs
      | Config cfg \<Rightarrow>
          (case main_start ctl wd cfg fs of
             None \<Rightarrow> Exited 1 fs
           | Some w \<Rightarrow>
               case main_loop ctl wd w of
                 (w, ended) \<Rightarrow>
                   if crashed w then Crashed
                   else if \<not> ended then StillRunning
                   else Exited 0 (disk (app (main_shutdown ctl (table_order wd) (final_save wd)
                     (others_write (last_change wd) w))))))"

section \<open>Honest worlds\<close>

text \<open>Every descriptor that \<^verbatim>\<open>accept4\<close> returns is new, every read fits the buffer it is given.\<close>

fun run_honest :: "'k epoll_ctl \<Rightarrow> (wait_result \<times> int) list \<Rightarrow> 'k main_state \<Rightarrow> bool" where
  "run_honest ctl [] w \<longleftrightarrow> True"
| "run_honest ctl (wait # ws) w \<longleftrightarrow>
     (running (ev_loop w) \<longrightarrow>
        (case fst wait of
           Events evs \<Rightarrow> events_allowed ev_loop (main_call ctl) (call_honest ctl) evs w
         | _ \<Rightarrow> True) \<and>
        run_honest ctl ws (main_turn ctl wait w))"

definition entered :: "'k world \<Rightarrow> 'k main_state \<Rightarrow> 'k main_state" where
  "entered wd w = w\<lparr>answers := callback_calls wd, ev_loop := (ev_loop w)\<lparr>running := True\<rparr>\<rparr>"

definition honest_world :: "'k epoll_ctl \<Rightarrow> 'k world \<Rightarrow> server_config \<Rightarrow> files \<Rightarrow> bool" where
  "honest_world ctl wd cfg fs \<longleftrightarrow>
     (\<forall>an\<in>set (callback_calls wd). answer_ok an) \<and>
     (case main_start ctl wd cfg fs of None \<Rightarrow> True | Some w \<Rightarrow> run_honest ctl (waits wd) (entered wd w))"

lemma run_loop_keeps:
  assumes call: "\<And>cb fd w. G w \<Longrightarrow> call_honest ctl cb fd w \<Longrightarrow> G (main_call ctl cb fd w)"
    and fired: "\<And>w t. G w \<Longrightarrow> G (w\<lparr>ev_loop := (ev_loop w)\<lparr>last_timer_fire_ms := t\<rparr>\<rparr>)"
    and timer: "\<And>w. G w \<Longrightarrow> timer_callback (ev_loop w) \<in> {None, Some OnTimer}"
    and "G w" "run_honest ctl ws w" "run_loop ev_loop put_loop (main_call ctl) ws w = (w', ended)"
  shows "G w'"
  using assms(4-)
proof (induction ws arbitrary: w)
  case Nil
  then show ?case by (simp add: run_loop.simps [of _ _ _ "[]"] split: if_splits)
next
  case (Cons wait ws)
  show ?case
  proof (cases "running (ev_loop w)")
    case False
    then show ?thesis using Cons.prems by (simp add: run_loop.simps [of _ _ _ "_ # _"])
  next
    case True
    obtain ans now where wait: "wait = (ans, now)" by fastforce
    show ?thesis
    proof (cases ans)
      case (Events evs)
      obtain w1 go where t: "run_turn ev_loop put_loop (main_call ctl) wait w = (w1, go)" by fastforce
      have w1: "w1 = main_turn ctl wait w" by (simp add: main_turn_def t)
      have "go" using t by (auto simp: run_turn_def wait Events Let_def split: prod.splits)
      moreover have "G w1"
        unfolding w1 wait Events
        by (rule main_turn_keeps [OF call fired timer Cons.prems(1)]) (use Cons.prems(2) True in \<open>simp_all add: wait Events\<close>)
      ultimately show ?thesis
        using Cons.IH [of w1] Cons.prems(2,3) True t w1 by (simp add: run_loop.simps [of _ _ _ "_ # _"])
    next
      case WaitIntr
      then show ?thesis
        using Cons.IH [of w] Cons.prems True
        by (simp add: run_loop.simps [of _ _ _ "_ # _"] run_turn_def main_turn_def wait)
    next
      case WaitError
      then show ?thesis using Cons.prems True by (simp add: run_loop.simps [of _ _ _ "_ # _"] run_turn_def wait)
    qed
  qed
qed

lemma main_boot_inv: "serves cfg (main_boot cfg now l fs)"
  by (simp add: serves_def main_boot_def server_init_def Let_def load_at_startup_inv db_new_facts)

text \<open>The whole loop, from the startup of the process, keeps what every callback keeps.\<close>

lemma main_start_inv:
  assumes "epoll_kernel ctl interest" "interest (kernel wd) = Map.empty" "main_start ctl wd cfg fs = Some w0"
  shows "main_inv interest cfg (entered wd w0)"
proof -
  obtain p where "pipe_end wd = Some p"
    using assms(3) by (cases "pipe_end wd") (auto simp: main_start_def main_setup_def install_signal_handlers_def Let_def)
  with assms(3) main_setup_inv [OF assms(1,2) main_boot_inv] have "main_inv interest cfg w0"
    unfolding main_start_def by metis
  then show ?thesis by (simp add: main_inv_def entered_def tcp_inv_def client_ok_def)
qed

lemma main_loop_keeps:
  assumes "honest_world ctl wd cfg fs" "main_start ctl wd cfg fs = Some w0" "main_loop ctl wd w0 = (w, ended)"
    and "\<And>cb fd w. G w \<Longrightarrow> call_honest ctl cb fd w \<Longrightarrow> G (main_call ctl cb fd w)"
    and "\<And>w t. G w \<Longrightarrow> G (w\<lparr>ev_loop := (ev_loop w)\<lparr>last_timer_fire_ms := t\<rparr>\<rparr>)"
    and "\<And>w. G w \<Longrightarrow> timer_callback (ev_loop w) \<in> {None, Some OnTimer}"
    and "G (entered wd w0)"
  shows "G w"
proof (rule run_loop_keeps [OF assms(4-7)])
  show "run_honest ctl (waits wd) (entered wd w0)" using assms(1,2) by (simp add: honest_world_def)
  show "run_loop ev_loop put_loop (main_call ctl) (waits wd) (entered wd w0) = (w, ended)"
    using assms(3) by (simp add: main_loop_def loop_run_def put_loop_def entered_def)
qed

text \<open>At the end of the loop the database is sound and the configuration the one of the command line.\<close>

lemma main_loop_serves:
  assumes "epoll_kernel ctl interest" "interest (kernel wd) = Map.empty" "honest_world ctl wd cfg fs"
    and "main_start ctl wd cfg fs = Some w0" "main_loop ctl wd w0 = (w, ended)"
  shows "serves cfg (app w)"
proof -
  have "main_ok interest cfg (entered wd w0)"
    using main_start_inv [OF assms(1,2,4)] assms(3) by (simp add: main_ok_def honest_world_def entered_def)
  then have "main_ok interest cfg w"
    by (rule main_loop_keeps [where G = "main_ok interest cfg", OF assms(3-5), rotated -1])
      (use main_ok_keeps assms(1) in blast)+
  then show ?thesis by (auto simp: main_ok_def main_inv_def dest: tcp_invD(2))
qed

section \<open>From one life to the next\<close>

lemma shutdown_then_boot:
  assumes "db_inv (database (app w))" "disk (app (main_shutdown ctl order e w)) = fs'"
    and "cfg_rdb_enabled (config (app w))" "0 < dirty_keys (app w)"
    and "open_failure e = None" "rename_failure e = None" "steady (io_script e)" "clock_ok e hi"
    and "\<forall>k d. ttls (database (app w)) k = Some d \<longrightarrow> d + (hi - each_ms e) < 2 ^ 63"
    and "\<forall>k v. live (database (app w)) (each_ms e) k = Some v \<longrightarrow> length k < 2 ^ 32 \<and> length v < 2 ^ 32"
    and "load_open_failure l = None" "steady (load_script l)"
    and "cfg_rdb_filename cfg = cfg_rdb_filename (config (app w))"
  shows "db_inv (database (main_boot cfg now l fs')) \<and>
    vals (database (main_boot cfg now l fs')) = live (database (app w)) (each_ms e) \<and>
    (\<forall>k\<in>dom (vals (database (main_boot cfg now l fs'))).
       case ttls (database (app w)) k of None \<Rightarrow> ttls (database (main_boot cfg now l fs')) k = None
       | Some d \<Rightarrow> \<exists>d'. ttls (database (main_boot cfg now l fs')) k = Some d' \<and> d \<le> d' \<and> d' \<le> d + (hi - each_ms e))"
proof -
  obtain db where save: "rdb_save_sync e (cfg_rdb_filename cfg) (database (app w)) (disk (app w)) = (db, fs', success)"
    using main_shutdown_saves [OF assms(1) refl assms(3-7)] assms(2,13) by metis
  from snapshot_restores [OF assms(1,8,9,10) save _ assms(11,12), of 0]
  obtain db' where db': "rdb_load l (cfg_rdb_filename cfg) fs' (db_new 0) = (db', success)" "db_inv db'"
    "vals db' = live (database (app w)) (each_ms e)"
    "\<forall>k\<in>dom (vals db'). case ttls (database (app w)) k of None \<Rightarrow> ttls db' k = None
       | Some d \<Rightarrow> \<exists>d'. ttls db' k = Some d' \<and> d \<le> d' \<and> d' \<le> d + (hi - each_ms e)"
    by auto
  have boot: "database (main_boot cfg now l fs') = db'"
    using db'(1) by (simp add: main_boot_def Let_def server_init_def load_at_startup_def)
  show ?thesis unfolding boot using db'(2-4) by blast
qed

section \<open>A sample life\<close>

text \<open>A client connects, sends \<^verbatim>\<open>FLUSHDB\<close>, and the process is told to terminate.\<close>

definition flush_request :: resp_value where
  "flush_request = RespArray [BulkString ''FLUSHDB'']"

definition flushing :: "main_input io_answer" where
  "flushing = \<lparr>accepts = [], reads = [ReadData (wire flush_request)], writes = [Wrote 5], input = sample_input\<rparr>"

definition terminating :: "main_input io_answer" where
  "terminating = \<lparr>accepts = [], reads = [], writes = [], input = sample_input\<lparr>pipe_byte := Some (signal_handler SIGTERM)\<rparr>\<rparr>"

definition flush_world :: "(int \<rightharpoonup> u32) world" where
  "flush_world =
     \<lparr>boot_time = 0, load_calls = sample_load, kernel = Map.empty, pipe_end = Some 3, sock_calls = sample_sock,
      timer_start = 0, waits = [(Events [(4, EPOLLIN)], 1), (Events [(5, EPOLLIN)], 2), (Events [(3, EPOLLIN)], 3)],
      callback_calls = [connecting, flushing, terminating], table_order = [5], final_save = sample_save,
      last_change = id\<rparr>"

lemma flush_world_starts: "main_start map_ctl flush_world default_config Map.empty = Some first_state"
proof -
  have "main_boot default_config 0 sample_load Map.empty = empty_server"
    by (simp add: main_boot_def Let_def server_init_def load_at_startup_def rdb_load_def sample_load_def)
  then show ?thesis by (simp add: main_start_def flush_world_def sample_starts)
qed

lemma flush_dispatched:
  assumes "read_view c = wire flush_request" "conn_inv c"
  shows "dispatch (\<lambda>_. True) (\<lambda>_. at_time 5) (empty_server, c) =
    ((empty_server\<lparr>database := db_flush (database empty_server), dirty_keys := 1,
       stats := stats (record_command empty_server)\<rparr>,
      append_response (consume (length (wire flush_request)) c) (wire (SimpleString ''OK''))), DispatchDone)"
proof -
  have up: "to_upper ''FLUSHDB'' = ''FLUSHDB''" by code_simp
  have find: "registry_find register_all_commands ''FLUSHDB'' =
    Some (cmd ''FLUSHDB'' handle_flushdb 1 1 (CMD_FLAG_WRITE OR CMD_FLAG_ADMIN))"
    unfolding registry_find_name up
    by (simp add: all_commands_def string_commands_def key_commands_def server_commands_def cmd_def)
  have ok: "wire_ok flush_request" "sizes_allowed (\<lambda>_. True) flush_request"
    by (simp_all add: flush_request_def in_i64_def LLONG_MAX_def LLONG_MIN_def)
  let ?s = "empty_server\<lparr>database := db_flush (database empty_server), dirty_keys := 1,
    stats := stats (record_command empty_server)\<rparr>"
  have run: "execute register_all_commands e flush_request (empty_server, d) =
    (?s, append_response d (wire (SimpleString ''OK'')))" for e d
    by (simp add: execute_def flush_request_def up find, simp add: cmd_def handle_flushdb_def resp_ok_def
        record_command_def server_init_def CMD_FLAG_WRITE_def CMD_FLAG_ADMIN_def)
  have p: "parse (\<lambda>_. True) (read_view c) = PComplete flush_request (length (wire flush_request))"
    using parse_wire [OF ok, of "[]"] by (simp add: assms(1) del: read_view_drop)
  have ne: "read_view c \<noteq> []" "0 < length (read_view c)" using wire_nonempty [of flush_request] assms(1) by simp_all
  have "read_view (consume (length (wire flush_request)) c) = []"
    by (subst consume_facts(1) [OF assms(2)]) (simp_all only: assms(1) order_refl drop_all)
  moreover have "read_view (append_response d r) = read_view d" for d r by simp
  ultimately have empty: "read_view (append_response (consume (length (wire flush_request)) c) r) = []" for r
    by (simp only:)
  obtain f where f: "length (read_view c) = Suc f" using ne(2) by (cases "length (read_view c)") auto
  show ?thesis
    by (simp add: dispatch_def f Let_def p ne(1) run empty del: read_view_drop)
qed

definition second_state :: "(int \<rightharpoonup> u32) main_state" where
  "second_state = first_state
     \<lparr>answers := [flushing, terminating], next_client_id := 2, clients := [5 \<mapsto> conn_new 1],
      ev_loop := first_loop\<lparr>running := True, epoll := (epoll first_loop)(5 \<mapsto> EPOLLIN),
        handlers := (handlers first_loop)(5 \<mapsto> \<lparr>on_readable = Some OnClientReadable, on_writable = None\<rparr>)\<rparr>\<rparr>"

definition flushed_server :: server where
  "flushed_server = empty_server\<lparr>database := db_flush (database empty_server), dirty_keys := 1,
     stats := stats (record_command empty_server)\<rparr>"

definition third_state :: "connection \<Rightarrow> (int \<rightharpoonup> u32) main_state" where
  "third_state c = second_state
     \<lparr>answers := [terminating], app := flushed_server, clients := [5 \<mapsto> c], received := [(1, wire flush_request)],
      delivered := [(1, wire (SimpleString ''OK''))]\<rparr>"

lemmas sample_defs = others_write_def sample_input_def first_state_def first_loop_def set_request_handler_def tcp_new_def main_call_def next_answer_def
  call_if_def EPOLLIN_def EPOLLOUT_def EPOLLERR_def EPOLLHUP_def

lemmas turn_defs = main_turn_def run_turn_def dispatch_events_def dispatch_event_def maybe_run_timer_def put_loop_def

lemma first_turn: "main_turn map_ctl (Events [(4, EPOLLIN)], 1) (entered flush_world first_state) = second_state"
  by (simp add: turn_defs sample_defs entered_def flush_world_def connecting_def on_new_connection_def
      accept_client_def add_readable_def add_or_modify_def epoll_ctl_op_def handlers_of_def Let_def second_state_def)

lemma flush_bytes: "0 < length (wire flush_request)" "length (wire flush_request) \<le> READ_BUFFER_SIZE"
  "length (wire (SimpleString ''OK'')) = 5"
proof -
  have "length (to_chars (wrap_i64 k)) \<le> 20" for k using length_to_chars [of "wrap_i64 k"] by simp
  from this [of 7] this [of 1] show "0 < length (wire flush_request)" "length (wire flush_request) \<le> READ_BUFFER_SIZE"
    "length (wire (SimpleString ''OK'')) = 5"
    by (simp_all add: flush_request_def READ_BUFFER_SIZE_def)
qed

lemma flush_read:
  obtains rest where "fill_read_buffer (reads flushing) (conn_new 1) =
    ((conn_new 1)\<lparr>read_buf := wire flush_request\<rparr>, int (length (wire flush_request)), rest)"
proof -
  obtain c n rest where f: "fill_loop (reads flushing) (conn_new 1) 0 = (c, n, rest)" by (metis surj_pair)
  have "reads_fit (reads flushing)" using flush_bytes by (simp add: flushing_def reads_fit_def)
  note fl = fill_loop_facts [OF this f]
  have "c = (conn_new 1)\<lparr>read_buf := wire flush_request\<rparr>" "n = int (length (wire flush_request))"
    by (simp_all add: fl flushing_def conn_new_def)
  then show ?thesis using that f by (simp add: fill_read_buffer_def conn_new_def)
qed

lemma second_turn: "\<exists>c. main_turn map_ctl (Events [(5, EPOLLIN)], 2) second_state = third_state c"
proof -
  let ?w = "second_state\<lparr>answers := [terminating]\<rparr>"
  let ?c1 = "(conn_new 1)\<lparr>read_buf := wire flush_request\<rparr>"
  let ?c2 = "append_response (consume (length (wire flush_request)) ?c1) (wire (SimpleString ''OK''))"
  obtain rest where fill: "fill_read_buffer (reads flushing) (conn_new 1) = (?c1, int (length (wire flush_request)), rest)"
    by (rule flush_read)
  have c1: "read_view ?c1 = wire flush_request" "conn_inv ?c1" by (simp_all add: conn_new_def conn_inv_def)
  have inp: "input flushing = sample_input" "reserve_ok sample_input = (\<lambda>_. True)" "envs sample_input = (\<lambda>_. at_time 5)"
    by (simp_all add: flushing_def sample_input_def)
  have handled: "main_handler (input flushing) (empty_server, ?c1) = Some (flushed_server, ?c2)"
    by (simp add: main_handler_def inp flush_dispatched [OF c1] flushed_server_def)
  obtain c3 ok out rs where fl: "flush_write_buffer (writes flushing) ?c2 = (c3, ok, out, rs)" by (metis surj_pair)
  have c2: "write_buf ?c2 = wire (SimpleString ''OK'')" "write_pos ?c2 = 0" "client_id ?c2 = 1" "\<not> is_closed ?c2"
    by (simp_all add: consume_def conn_new_def Let_def is_closed_def)
  have "c3 = ?c2\<lparr>write_buf := [], write_pos := 0\<rparr> \<and> out = wire (SimpleString ''OK'')"
    using fl flush_bytes(3) c2(1,2)
    by (auto simp: flushing_def flush_write_buffer_def flush_loop.simps [of "_ # _"] flush_loop.simps [of "[]"] Let_def
        simp del: wire.simps append_response_simps split: if_splits)
  then have c3: "pending c3 = []" "client_id c3 = 1" "\<not> is_closed c3" "out = wire (SimpleString ''OK'')"
    using c2 by (simp_all add: pending_def is_closed_def)
  have w: "clients ?w 5 = Some (conn_new 1)" "request_handler ?w = Some main_handler" "app ?w = empty_server"
    by (simp_all add: second_state_def sample_defs)
  have data: "script_data (reads flushing) = wire flush_request" by (simp add: flushing_def)
  have some: "0 < int (length (wire flush_request))" using flush_bytes(1) by simp
  have pend: "has_pending_writes ?c2" "\<not> has_pending_writes c3"
    using c2(1,2) flush_bytes(3) c3(1) by (simp_all add: has_pending_writes_def pending_def del: wire.simps)
  have "on_client_readable map_ctl flushing 5 ?w =
      ?w\<lparr>app := flushed_server, received := received ?w @ [(1, wire flush_request)], delivered := delivered ?w @ [(1, out)], clients := (clients ?w)(5 \<mapsto> c3)\<rparr>"
    unfolding on_client_readable_def w option.case fill prod.case handled flush_client_def
    using some pend c2(3) c3(2,3) data by (simp add: fl del: wire.simps)
  also have "\<dots> = third_state c3" by (simp add: third_state_def second_state_def sample_defs c3(4) del: wire.simps)
  finally have eq: "on_client_readable map_ctl flushing 5 ?w = third_state c3" .
  have "main_call map_ctl OnClientReadable 5 second_state = third_state c3"
    using eq by (simp add: main_call_def next_answer_def inp(1))
      (simp add: second_state_def sample_defs inp(1))
  then show ?thesis
    by (intro exI [of _ c3])
      (simp add: turn_defs second_state_def third_state_def sample_defs Let_def del: wire.simps)
qed

lemma third_turn:
  "main_turn map_ctl (Events [(3, EPOLLIN)], 3) (third_state c) =
     (third_state c)\<lparr>answers := [], ev_loop := (ev_loop second_state)\<lparr>running := False\<rparr>\<rparr>"
proof -
  have sig: "signum_of (signal_handler SIGTERM) = SIGTERM" by (simp add: signum_of_handler SIGTERM_def)
  show ?thesis
    by (simp add: turn_defs third_state_def second_state_def sample_defs Let_def terminating_def
        on_signal_pipe_readable_def sig loop_stop_def del: wire.simps)
qed

lemma input_allowed:
  "events_allowed get call ok [(fd, EPOLLIN)] w \<longleftrightarrow>
     (case handlers (get w) fd of None \<Rightarrow> True | Some h \<Rightarrow> allowed_if ok True (on_readable h) fd w)"
  by (simp add: event_allowed_def allowed_if_def EPOLLIN_def EPOLLOUT_def EPOLLERR_def EPOLLHUP_def Let_def split: option.split)

lemma sample_life:
  obtains w where "main_loop map_ctl flush_world first_state = (w, True)" "app w = flushed_server" "\<not> crashed w"
    "received w = [(1, wire flush_request)]" "delivered w = [(1, wire (SimpleString ''OK''))]"
    "honest_world map_ctl flush_world default_config Map.empty"
proof -
  obtain c where c: "main_turn map_ctl (Events [(5, EPOLLIN)], 2) second_state = third_state c"
    using second_turn by blast
  let ?start = "entered flush_world first_state"
  let ?w = "(third_state c)\<lparr>answers := [], ev_loop := (ev_loop second_state)\<lparr>running := False\<rparr>\<rparr>"
  have turn: "run_loop ev_loop put_loop (main_call map_ctl) ((Events evs, now) # ws) w =
    run_loop ev_loop put_loop (main_call map_ctl) ws (main_turn map_ctl (Events evs, now) w)"
    if "running (ev_loop w)" for evs now ws w
    using that by (simp add: run_loop.simps [of _ _ _ "_ # _"] main_turn_def run_turn_def Let_def split: prod.split)
  have runs: "running (ev_loop ?start)" "running (ev_loop second_state)" "running (ev_loop (third_state c))"
    by (simp_all add: entered_def second_state_def third_state_def)
  have "main_loop map_ctl flush_world first_state = run_loop ev_loop put_loop (main_call map_ctl) (waits flush_world) ?start"
    by (simp add: main_loop_def loop_run_def put_loop_def entered_def)
  also have "\<dots> = (?w, True)"
    by (simp add: flush_world_def [THEN arg_cong, of waits] turn runs first_turn c third_turn run_loop.simps [of _ _ _ "[]"])
  finally have loop: "main_loop map_ctl flush_world first_state = (?w, True)" .
  have fit: "\<forall>an\<in>set (callback_calls flush_world). answer_ok an"
    using flush_bytes(1,2)
    by (simp add: flush_world_def answer_ok_def connecting_def flushing_def terminating_def sample_input_def
        input_good_def reads_fit_def)
  have allowed: "events_allowed ev_loop (main_call map_ctl) (call_honest map_ctl) [(4, EPOLLIN)] ?start"
    "events_allowed ev_loop (main_call map_ctl) (call_honest map_ctl) [(5, EPOLLIN)] second_state"
    "events_allowed ev_loop (main_call map_ctl) (call_honest map_ctl) [(3, EPOLLIN)] (third_state c)"
    unfolding input_allowed
    by (simp_all add: call_honest_def allowed_if_def entered_def second_state_def third_state_def sample_defs
        flush_world_def connecting_def add_readable_def accept_client_def add_or_modify_def epoll_ctl_op_def handlers_of_def
        Let_def del: wire.simps split: option.split list.split)
  have "honest_world map_ctl flush_world default_config Map.empty"
    using fit allowed first_turn c
    by (simp add: honest_world_def flush_world_starts flush_world_def [THEN arg_cong, of waits])
  with that [OF loop] show ?thesis by (simp add: third_state_def second_state_def sample_defs del: wire.simps)
qed

end
