(* ===== verification/SetWords.thy ===== *)
theory SetWords
  imports StringProofs
begin

text \<open>
  The option words of \<^verbatim>\<open>SET key value [EX s] [PX ms] [NX|XX]\<close>, described without the loop of the
  handler: what each word asks for, when the line is refused, and which lifetime it asks for.
  The loop \<open>set_options\<close> computes it.
\<close>

section \<open>What the words ask for\<close>

text \<open>A word that is read as a number.\<close>

definition number :: "string \<Rightarrow> i64 option" where
  "number s = (case from_chars s of (ec, n, _) \<Rightarrow> if ec = ErrcOk then Some n else None)"

text \<open>\<open>Lifetime u n\<close> asks for \<open>n\<close> units of \<open>u\<close> milliseconds; \<open>n\<close> is \<open>None\<close> when its word is no number.\<close>

datatype set_word = Lifetime int "i64 option" | OnlyNew | OnlyOld | OtherWord

definition unit_of :: "string \<Rightarrow> int option" where
  "unit_of w = (if to_upper w = ''EX'' then Some 1000 else if to_upper w = ''PX'' then Some 1 else None)"

definition flag_word :: "string \<Rightarrow> set_word" where
  "flag_word w =
     (if to_upper w = ''NX'' then OnlyNew else if to_upper w = ''XX'' then OnlyOld else OtherWord)"

text \<open>A unit takes the next word as its number; as the last word of the line it asks for nothing.\<close>

fun set_words :: "string list \<Rightarrow> set_word list" where
  "set_words [] = []"
| "set_words [w] = [flag_word w]"
| "set_words (w # n # ws) =
     (case unit_of w of
        Some u \<Rightarrow> Lifetime u (number n) # set_words ws
      | None \<Rightarrow> flag_word w # set_words (n # ws))"

text \<open>The line is refused when a lifetime is no positive number.\<close>

fun bad_word :: "set_word \<Rightarrow> bool" where
  "bad_word (Lifetime u None) = True"
| "bad_word (Lifetime u (Some n)) = (n \<le> 0)"
| "bad_word _ = False"

text \<open>The lifetimes of the line in milliseconds; the last one counts.\<close>

fun lifetimes :: "set_word list \<Rightarrow> int list" where
  "lifetimes (Lifetime u (Some n) # os) = n * u # lifetimes os"
| "lifetimes (_ # os) = lifetimes os"
| "lifetimes [] = []"

definition asked_lifetime :: "set_word list \<Rightarrow> int option" where
  "asked_lifetime os = (if lifetimes os = [] then None else Some (last (lifetimes os)))"

lemma asked_lifetime_Cons:
  "asked_lifetime (Lifetime u (Some n) # os) =
     (case asked_lifetime os of None \<Rightarrow> Some (n * u) | Some t \<Rightarrow> Some t)"
  "asked_lifetime (Lifetime u None # os) = asked_lifetime os"
  "asked_lifetime (OnlyNew # os) = asked_lifetime os"
  "asked_lifetime (OnlyOld # os) = asked_lifetime os"
  "asked_lifetime (OtherWord # os) = asked_lifetime os"
  "asked_lifetime [] = None"
  by (simp_all add: asked_lifetime_def)

lemma lifetimes_pos:
  "\<forall>w\<in>set os. \<not> bad_word w \<Longrightarrow> \<forall>u n. Lifetime u (Some n) \<in> set os \<longrightarrow> 0 < u \<Longrightarrow>
   t \<in> set (lifetimes os) \<Longrightarrow> 0 < t"
  by (induction os rule: lifetimes.induct) auto

lemma unit_of_None: "unit_of w = None \<longleftrightarrow> to_upper w \<noteq> ''EX'' \<and> to_upper w \<noteq> ''PX''"
  by (simp add: unit_of_def)

lemma unit_of_pos: "unit_of w = Some u \<Longrightarrow> 0 < u"
  by (auto simp: unit_of_def split: if_splits)

lemma set_words_unit: "Lifetime u n \<in> set (set_words ws) \<Longrightarrow> 0 < u"
proof (induction ws rule: set_words.induct)
  case (3 w n ws)
  then show ?case using unit_of_pos [of w] by (auto simp: flag_word_def split: option.splits if_splits)
qed (auto simp: flag_word_def split: if_splits)

section \<open>The loop computes it\<close>

definition options_of :: "string list \<Rightarrow> i64 \<Rightarrow> bool \<Rightarrow> bool \<Rightarrow> (i64 \<times> bool \<times> bool) option" where
  "options_of ws ms nx xx =
     (let os = set_words ws
      in if \<exists>w\<in>set os. bad_word w then None
         else Some (case asked_lifetime os of None \<Rightarrow> ms | Some t \<Rightarrow> wrap_i64 t,
           nx \<or> OnlyNew \<in> set os, xx \<or> OnlyOld \<in> set os))"

lemma options_of_Nil: "options_of [] ms nx xx = Some (ms, nx, xx)"
  by (simp add: options_of_def asked_lifetime_Cons)

lemma options_of_flag:
  assumes "unit_of w = None \<or> ws = []"
  shows "options_of (w # ws) ms nx xx = options_of ws ms (nx \<or> to_upper w = ''NX'') (xx \<or> to_upper w = ''XX'')"
proof -
  have "set_words (w # ws) = flag_word w # set_words ws" using assms by (cases ws) auto
  then show ?thesis by (auto simp: options_of_def Let_def flag_word_def asked_lifetime_Cons)
qed

lemma options_of_unit:
  assumes "unit_of w = Some u"
  shows "options_of (w # n # ws) ms nx xx =
    (case number n of
       None \<Rightarrow> None
     | Some m \<Rightarrow> if m \<le> 0 then None else options_of ws (wrap_i64 (m * u)) nx xx)"
  using assms by (auto simp: options_of_def Let_def asked_lifetime_Cons split: option.split)

lemma set_options_words:
  "set_options args i ms nx xx = options_of (drop i (map rv_str args)) ms nx xx"
proof (induction args i ms nx xx rule: set_options.induct)
  case (1 args i ms nx xx)
  show ?case
  proof (cases "i < length args")
    case False
    then show ?thesis by (simp add: set_options.simps [of args i] options_of_Nil)
  next
    case i: True
    let ?w = "arg_str args i" and ?n = "arg_str args (i + 1)"
    obtain ec v n where fc: "from_chars ?n = (ec, v, n)" by (cases "from_chars ?n")
    have w: "drop i (map rv_str args) = ?w # drop (i + 1) (map rv_str args)"
      using i by (simp add: arg_str_def Cons_nth_drop_Suc [symmetric])
    note step = set_options.simps [of args i ms nx xx]
    consider "to_upper ?w = ''EX''" "i + 1 < length args" | "to_upper ?w = ''PX''" "i + 1 < length args"
      | "unit_of ?w = None \<or> length args \<le> i + 1"
      unfolding unit_of_None by linarith
    then show ?thesis
    proof cases
      case a: 1
      have n: "drop (i + 1) (map rv_str args) = ?n # drop (i + 2) (map rv_str args)"
        using a by (simp add: arg_str_def Cons_nth_drop_Suc [symmetric])
      have ih: "ec = ErrcOk \<Longrightarrow> 0 < v \<Longrightarrow> set_options args (i + 2) (wrap_i64 (v * 1000)) nx xx =
          options_of (drop (i + 2) (map rv_str args)) (wrap_i64 (v * 1000)) nx xx"
        using 1(1) [OF i refl _ fc [symmetric] refl] a by simp
      have "unit_of ?w = Some 1000" using a by (simp add: unit_of_def)
      from options_of_unit [OF this] show ?thesis
        unfolding w n using a i fc ih by (simp add: step number_def Let_def)
    next
      case a: 2
      have n: "drop (i + 1) (map rv_str args) = ?n # drop (i + 2) (map rv_str args)"
        using a by (simp add: arg_str_def Cons_nth_drop_Suc [symmetric])
      have ih: "ec = ErrcOk \<Longrightarrow> 0 < v \<Longrightarrow> set_options args (i + 2) v nx xx =
          options_of (drop (i + 2) (map rv_str args)) v nx xx"
        using 1(2) [OF i refl _ _ fc [symmetric] refl] a by simp
      have "unit_of ?w = Some 1" using a by (simp add: unit_of_def)
      moreover have "ec = ErrcOk \<Longrightarrow> wrap_i64 v = v" using fc by (auto intro: wrap_i64_id from_chars_in_i64)
      ultimately show ?thesis
        unfolding w n using options_of_unit [of ?w 1] a i fc ih by (simp add: step number_def Let_def)
    next
      case a: 3
      then have no: "\<not> (to_upper ?w = ''EX'' \<and> i + 1 < length args)" "\<not> (to_upper ?w = ''PX'' \<and> i + 1 < length args)"
        by (auto simp: unit_of_None)
      note ih = 1(3) [OF i refl no] 1(4) [OF i refl no] 1(5) [OF i refl no]
      have "options_of (?w # drop (i + 1) (map rv_str args)) ms nx xx =
          options_of (drop (i + 1) (map rv_str args)) ms (nx \<or> to_upper ?w = ''NX'') (xx \<or> to_upper ?w = ''XX'')"
        using a by (intro options_of_flag) auto
      then show ?thesis
        unfolding w using ih no i by (auto simp: step Let_def)
    qed
  qed
qed

end
