(* ===== verification/CmdProps.thy ===== *)
theory CmdProps
  imports KeyCmd SetWords
begin

text \<open>
  What the string and key commands mean, stated on the values, deadlines and replies that a client
  can observe, for single commands and for the sequences that clients rely on.
\<close>

section \<open>Command lines\<close>

definition argv :: "string list \<Rightarrow> resp_value list" where
  "argv ws = map BulkString ws"

lemma argv_simps [simp]:
  "length (argv ws) = length ws" "i < length ws \<Longrightarrow> arg_str (argv ws) i = ws ! i"
  by (simp_all add: argv_def arg_str_def)

lemma resp_int_wire: "resp_integer c n = append_response c (wire (RespInteger n))"
  by (rule reply_wire)

lemma live_upd:
  assumes "vals db' = (vals db)(k \<mapsto> v)" "ttls db' = (ttls db)(k := d)"
  shows "live db' t k = (case d of None \<Rightarrow> Some v | Some ts \<Rightarrow> if t < ts then Some v else None)"
    and "k' \<noteq> k \<Longrightarrow> live db' t k' = live db t k'"
  using assms by (auto simp: live_def dead_def split: option.splits)

lemma live_deadline:
  assumes "vals db' = vals db" "ttls db' = (ttls db)(k \<mapsto> ts)"
  shows "live db' t k = (if t < ts then vals db k else None)"
    and "k' \<noteq> k \<Longrightarrow> live db' t k' = live db t k'"
  using assms by (auto simp: live_def dead_def)

lemma live_vals: "live db now k = Some v \<Longrightarrow> vals db k = Some v"
  by (simp add: live_def split: if_splits)

section \<open>SET and GET\<close>


definition client_one :: connection where
  "client_one = conn_new 1"


text \<open>C21. What SET with PX stores, GET returns until the deadline and not after it, at whatever later
  moment it runs, and no other key is affected: the full life of a key with a deadline.\<close>

theorem set_px_then_get:
  assumes inv: "db_inv db"
    and "to_upper px = ''PX''" "from_chars ms = (ErrcOk, d, n)" "0 < d" "in_i64 (now_ms e 1 + d)"
    and set: "handle_set e (argv [''SET'', k, v, px, ms]) (db, c) = (db1, c1)"
    and get: "handle_get e' (argv [''GET'', k']) (db1, c2) = (db2, c3)"
  shows "c1 = resp_ok c \<and>
    c3 = append_response c2 (wire (bulk_or_nil
      (if k' = k then if now_ms e' 0 < now_ms e 1 + d then Some (canonical_int v) else None
       else live db (now_ms e' 0) k')))"
proof -
  have opt: "set_options (argv [''SET'', k, v, px, ms]) 3 (- 1) False False = Some (d, False, False)"
    using assms(2-4) by (simp add: set_options.simps [of _ 3] set_options.simps [of _ 5])
  note s = handle_set_cases [OF inv set]
  have a: "vals db1 = (vals db)(k \<mapsto> canonical_int v)" "ttls db1 = (ttls db)(k \<mapsto> now_ms e 1 + d)"
    "c1 = resp_ok c"
    using s(4) [OF opt] assms(4,5) by simp_all
  note lu = live_upd [OF a(1,2)]
  have "c3 = append_response c2 (wire (bulk_or_nil (live db1 (now_ms e' 0) k')))"
    using handle_get_eq(3) [OF s(1) get] by simp
  then show ?thesis using lu(1) [of "now_ms e' 0"] lu(2) [of k' "now_ms e' 0"] a(3) by auto
qed

lemma set_px_then_get_witness:
  "snd (handle_get (at_time 20) (argv [''GET'', ''k''])
     (fst (handle_set (at_time 9) (argv [''SET'', ''k'', ''v'', ''px'', ''7'']) (sample_db, client_one)), client_one)) = resp_nil client_one"
proof -
  let ?set = "handle_set (at_time 9) (argv [''SET'', ''k'', ''v'', ''px'', ''7'']) (sample_db, client_one)"
  obtain db1 c1 where s: "?set = (db1, c1)" by fastforce
  obtain db2 c3 where g: "handle_get (at_time 20) (argv [''GET'', ''k'']) (db1, client_one) = (db2, c3)" by fastforce
  have "to_upper ''px'' = ''PX''" "from_chars ''7'' = (ErrcOk, 7, 1)" by code_simp+
  from set_px_then_get [OF sample_db_facts(1) this _ _ s g] show ?thesis
    by (simp add: s g bulk_or_nil_def resp_nil_def in_i64_def LLONG_MAX_def LLONG_MIN_def)
qed

text \<open>SETNX works as a lock: of two SETNX commands on a key that is free, the first stores its value
  and is answered 1; the second, at whatever time it comes, is answered 0 and changes nothing.\<close>

lemma setnx_is_a_lock:
  assumes inv: "db_inv db" and free: "live db (now_ms e 0) k = None"
    and h1: "handle_setnx e (argv [w1, k, v]) (db, c) = (db1, c1)"
    and h2: "handle_setnx e' (argv [w2, k, v']) (db1, c2) = (db2, c3)"
  shows "c1 = resp_integer c 1 \<and> c3 = resp_integer c2 0 \<and> vals db2 = (vals db)(k \<mapsto> canonical_int v) \<and>
    ttls db2 = (ttls db)(k := None)"
proof -
  have a: "db_inv db1" "vals db1 = (vals db)(k \<mapsto> canonical_int v)" "ttls db1 = (ttls db)(k := None)"
    "c1 = resp_integer c 1"
    using handle_setnx_eq [OF inv h1] free by simp_all
  have "live db1 (now_ms e' 0) k = Some (canonical_int v)" using live_upd(1) [OF a(2,3)] by simp
  then show ?thesis using handle_setnx_eq [OF a(1) h2] a by simp
qed

lemma setnx_is_a_lock_witness:
  "vals (fst (handle_setnx (at_time 8) (argv [''SETNX'', ''a'', ''2''])
     (fst (handle_setnx (at_time 7) (argv [''SETNX'', ''a'', ''1'']) (sample_db, client_one)), client_one))) ''a'' = Some (canonical_int ''1'')"
proof -
  obtain db1 c1 where s: "handle_setnx (at_time 7) (argv [''SETNX'', ''a'', ''1'']) (sample_db, client_one) = (db1, c1)" by fastforce
  obtain db2 c3 where g: "handle_setnx (at_time 8) (argv [''SETNX'', ''a'', ''2'']) (db1, client_one) = (db2, c3)" by fastforce
  have "live sample_db (now_ms (at_time 7) 0) ''a'' = None" by (simp add: live_def dead_def sample_db_facts)
  from setnx_is_a_lock [OF sample_db_facts(1) this s g] show ?thesis by (simp add: s g)
qed

section \<open>Counters\<close>

text \<open>C22. INCR, DECR and INCRBY are exact: they store and answer the mathematical sum when it fits in
  64 bits, treating a missing key as zero and dropping a deadline; otherwise, and on a value that is
  no integer, they answer an error and change nothing a client can see.\<close>

theorem counters_exact:
  assumes "db_inv db"
  shows "(handle_incr e args (db, c) = (db', c') \<longrightarrow>
      db_inv db' \<and> counter_spec db (now_ms e 0) (arg_str args 1) 1 c db' c') \<and>
    (handle_decr e args (db, c) = (db', c') \<longrightarrow>
      db_inv db' \<and> counter_spec db (now_ms e 0) (arg_str args 1) (- 1) c db' c') \<and>
    (from_chars (arg_str args 2) = (ErrcOk, d, n) \<and> handle_incrby e args (db, c) = (db', c') \<longrightarrow>
      db_inv db' \<and> counter_spec db (now_ms e 0) (arg_str args 1) d c db' c')"
  using handle_incr_eq [OF assms] handle_decr_eq [OF assms] handle_incrby_eq [OF assms, of e args c db' c' ErrcOk d n]
  by simp

definition min_db :: keva_db where
  "min_db = db_set (db_new 0) ''k'' (create_string_from_int LLONG_MIN 0)"

lemma min_db_facts:
  "db_inv min_db" "vals min_db = [''k'' \<mapsto> to_chars LLONG_MIN]" "ttls min_db = Map.empty"
  "live min_db t ''k'' = Some (to_chars LLONG_MIN)" "in_i64 LLONG_MIN"
proof -
  show i: "in_i64 LLONG_MIN" by (simp add: in_i64_def LLONG_MAX_def LLONG_MIN_def)
  note s = db_set_facts [OF db_new_facts(1) object_wf_create_int [OF i], of 0 "''k''" 0]
  show v: "db_inv min_db" "vals min_db = [''k'' \<mapsto> to_chars LLONG_MIN]" "ttls min_db = Map.empty"
    unfolding min_db_def using s db_new_facts by simp_all
  show "live min_db t ''k'' = Some (to_chars LLONG_MIN)" by (simp add: live_def dead_def v)
qed

lemma counters_exact_witness:
  "snd (handle_decr (at_time 5) (argv [''DECR'', ''k'']) (min_db, client_one)) = resp_error client_one would_overflow"
proof -
  obtain db' c' where h: "handle_decr (at_time 5) (argv [''DECR'', ''k'']) (min_db, client_one) = (db', c')" by fastforce
  have "counter_spec min_db 5 ''k'' (- 1) client_one db' c'"
    using counters_exact [OF min_db_facts(1), of "at_time 5" "argv [''DECR'', ''k'']" client_one db' c'] h by simp
  moreover have "\<not> in_i64 (LLONG_MIN + - 1)" by (simp add: in_i64_def)
  ultimately show ?thesis
    using int_value_to_chars [OF min_db_facts(5)] by (simp add: h counter_spec_def min_db_facts(4))
qed



text \<open>Past the range the handler takes the path of success: no error is answered, and a value is stored
  (in this model the wrapped difference, which stands for whatever the undefined subtraction gives).\<close>

lemma decrby_has_no_check:
  assumes inv: "db_inv db" and v: "live db (now_ms e 0) (arg_str args 1) = Some (to_chars i)" "in_i64 i"
    and d: "from_chars (arg_str args 2) = (ErrcOk, d, n)" and h: "handle_decrby e args (db, c) = (db', c')"
  shows "\<exists>x. c' = append_response c (wire (RespInteger x)) \<and> vals db' (arg_str args 1) = Some (to_chars x)"
  using handle_decrby_eq [OF inv h d] int_value_to_chars [OF v(2)]
  by (intro exI [of _ "wrap_i64 (i - d)"]) (simp add: v(1) del: One_nat_def)

section \<open>APPEND and STRLEN\<close>

text \<open>APPEND answers the length of the old text followed by the new, but what a later STRLEN reports is
  the length of the text in canonical form: they agree exactly when the concatenation has the length
  of its canonical form, and \<^verbatim>\<open>0\<close> appended with \<^verbatim>\<open>1\<close> is a case where they do not.\<close>

lemma append_then_strlen:
  assumes inv: "db_inv db" and h1: "handle_append e (argv [w1, k, v]) (db, c) = (db1, c1)"
    and h2: "handle_strlen e' (argv [w2, k]) (db1, c2) = (db2, c3)"
  defines "new \<equiv> text_or_empty (live db (now_ms e 0) k) @ v"
  shows "c1 = append_response c (wire (RespInteger (wrap_i64 (int (length new))))) \<and>
    c3 = append_response c2 (wire (RespInteger (wrap_i64 (int (length (canonical_int new))))))"
proof -
  have a: "db_inv db1" "vals db1 = (vals db)(k \<mapsto> canonical_int new)" "ttls db1 = (ttls db)(k := None)"
    "c1 = append_response c (wire (RespInteger (wrap_i64 (int (length new)))))"
    using handle_append_eq [OF inv h1] by (simp_all add: new_def)
  have "live db1 (now_ms e' 0) k = Some (canonical_int new)" using live_upd(1) [OF a(2,3)] by simp
  then show ?thesis using handle_strlen_eq(3) [OF a(1) h2] a(4) by (simp add: text_or_empty_def)
qed

definition zero_db :: keva_db where
  "zero_db = db_set (db_new 0) ''k'' (create_string ''0'' 0)"

lemma zero_db_facts: "db_inv zero_db" "live zero_db t ''k'' = Some ''0''"
proof -
  note s = db_set_facts [OF db_new_facts(1) object_wf_create_string, of 0 "''k''" "''0''" 0]
  have "canonical_int ''0'' = ''0''" by code_simp
  then show "db_inv zero_db" "live zero_db t ''k'' = Some ''0''"
    using s by (simp_all add: zero_db_def live_def dead_def db_new_facts)
qed

lemma append_then_strlen_witness:
  "snd (handle_append (at_time 5) (argv [''APPEND'', ''k'', ''1'']) (zero_db, client_one)) =
     append_response client_one (wire (RespInteger 2)) \<and>
   snd (handle_strlen (at_time 5) (argv [''STRLEN'', ''k''])
     (fst (handle_append (at_time 5) (argv [''APPEND'', ''k'', ''1'']) (zero_db, client_one)), client_one)) =
     append_response client_one (wire (RespInteger 1))"
proof -
  obtain db1 c1 where s: "handle_append (at_time 5) (argv [''APPEND'', ''k'', ''1'']) (zero_db, client_one) = (db1, c1)" by fastforce
  obtain db2 c3 where g: "handle_strlen (at_time 5) (argv [''STRLEN'', ''k'']) (db1, client_one) = (db2, c3)" by fastforce
  have "canonical_int ''01'' = ''1''" by code_simp
  moreover have "in_i64 2" by (simp add: in_i64_def LLONG_MAX_def LLONG_MIN_def)
  ultimately show ?thesis
    using append_then_strlen [OF zero_db_facts(1) s g]
    by (simp add: s g zero_db_facts(2) text_or_empty_def del: wire.simps)
qed

section \<open>MSET and MGET\<close>

text \<open>MSET stores for every key among its arguments the last value given for it, drops the deadlines of
  these keys and touches no other key; a later MGET answers one array with the current value or nil
  for each of its keys in order. An incomplete pair is an error that changes nothing.\<close>

lemma mset_then_mget:
  assumes inv: "db_inv db" and h1: "handle_mset e args (db, c) = (db1, c1)"
    and h2: "handle_mget e' (argv (w # ks)) (db1, c2) = (db2, c3)"
    and clock: "\<forall>i j. i \<le> j \<longrightarrow> now_ms e' i \<le> now_ms e' j"
  shows "db_inv db1 \<and>
    (if odd (length args)
     then vals db1 = vals db ++ map_of (rev (canon_pairs (arg_pairs args 1))) \<and>
       ttls db1 = ttls db |` (- fst ` set (arg_pairs args 1)) \<and> c1 = resp_ok c
     else db1 = db \<and> c1 = resp_error c ''wrong number of arguments for MSET'') \<and>
    c3 = append_response c2 (wire (RespArray
      (map (\<lambda>i. bulk_or_nil (live db1 (now_ms e' (i + 1)) (ks ! i))) [0..<length ks])))"
proof -
  have m: "db_inv db1 \<and>
    (if odd (length args)
     then vals db1 = vals db ++ map_of (rev (canon_pairs (arg_pairs args 1))) \<and>
       ttls db1 = ttls db |` (- fst ` set (arg_pairs args 1)) \<and> c1 = resp_ok c
     else db1 = db \<and> c1 = resp_error c ''wrong number of arguments for MSET'')"
    using h1 inv mset_loop_facts [OF inv, of e args 1]
    by (auto simp: handle_mset_def odd_iff_mod_2_eq_one simp del: One_nat_def split: if_splits)
  have loop: "mget_loop e' (argv (w # ks)) 1 (db1, resp_array_header c2 (wrap_i64 (int (length ks)))) = (db2, c3)"
    using h2 by (simp add: handle_mget_def)
  have t: "\<forall>j\<ge>1. now_ms e' 1 \<le> now_ms e' j" and mono: "\<forall>j k. 1 \<le> j \<longrightarrow> j \<le> k \<longrightarrow> now_ms e' j \<le> now_ms e' k"
    using clock by blast+
  have "c3 = append_response (resp_array_header c2 (wrap_i64 (int (length ks))))
      (concat (map (\<lambda>j. wire (bulk_or_nil (live db1 (now_ms e' j) (arg_str (argv (w # ks)) j)))) [1..<length (argv (w # ks))]))"
    by (rule mget_loop_facts(3) [OF conjunct1 [OF m] t loop mono])
  moreover have "map (\<lambda>j. wire (bulk_or_nil (live db1 (now_ms e' j) (arg_str (argv (w # ks)) j)))) [1..<length (argv (w # ks))] =
      map wire (map (\<lambda>i. bulk_or_nil (live db1 (now_ms e' (i + 1)) (ks ! i))) [0..<length ks])"
    by (rule nth_equalityI) (simp_all del: upt_Suc)
  ultimately have "c3 = append_response c2 (wire (RespArray
      (map (\<lambda>i. bulk_or_nil (live db1 (now_ms e' (i + 1)) (ks ! i))) [0..<length ks])))"
    by (simp add: resp_array_header_bytes)
  then show ?thesis using m by blast
qed

lemma mset_then_mget_sample:
  "snd (handle_mget (at_time 8) (argv [''MGET'', ''a'', ''c''])
     (fst (handle_mset (at_time 8) (argv [''MSET'', ''a'', ''p'', ''a'', ''q'']) (sample_db, client_one)), client_one)) =
   append_response client_one (wire (RespArray [BulkString ''q'', RespNil]))"
proof -
  let ?set = "argv [''MSET'', ''a'', ''p'', ''a'', ''q'']"
  obtain db1 c1 where s: "handle_mset (at_time 8) ?set (sample_db, client_one) = (db1, c1)" by fastforce
  obtain db2 c3 where g: "handle_mget (at_time 8) (argv [''MGET'', ''a'', ''c'']) (db1, client_one) = (db2, c3)" by fastforce
  have "canonical_int ''q'' = ''q''" by code_simp
  moreover have "arg_pairs ?set 1 = [(''a'', ''p''), (''a'', ''q'')]"
    by (simp add: arg_pairs.simps [of _ 1] arg_pairs.simps [of _ 3] arg_pairs.simps [of _ 5] del: One_nat_def)
  ultimately show ?thesis
    using mset_then_mget [OF sample_db_facts(1) s g]
    by (simp add: s g live_def dead_def sample_db_facts canon_pairs_def bulk_or_nil_def restrict_map_def
        del: wire.simps One_nat_def)
qed

section \<open>Deadlines\<close>

text \<open>C23. The life of a deadline set by EXPIRE on a live key: later lookups see the key exactly until the
  deadline, PTTL answers the time that is left, and PERSIST before the deadline makes the key
  permanent. When the key has expired but nothing has deleted it yet, PTTL answers zero: the
  documentation (README.md:572, documentation.md:1243 to 1251) promises minus two for an expired key,
  which the code answers only once a lookup or the periodic task has removed it. The statement is
  what the code does; the disagreement is recorded as a finding.\<close>

theorem expire_life_cycle:
  assumes inv: "db_inv db" and lv: "live db (now_ms e 0) k = Some v"
    and num: "from_chars secs = (ErrcOk, s, n)" "in_i64 (s * 1000)" "in_i64 (now_ms e 1 + s * 1000)"
    and h: "handle_expire e (argv [w1, k, secs]) (db, c) = (db1, c1)"
  defines "deadline \<equiv> now_ms e 1 + s * 1000"
  shows "c1 = resp_integer c 1 \<and>
    (handle_get e' (argv [w2, k]) (db1, c2) = (db2, c3) \<longrightarrow>
       c3 = append_response c2 (wire (bulk_or_nil (if now_ms e' 0 < deadline then Some v else None)))) \<and>
    (handle_pttl e' (argv [w2, k]) (db1, c2) = (db2, c3) \<and> in_i64 (deadline - now_ms e' 0) \<longrightarrow>
       c3 = resp_integer c2 (max 0 (deadline - now_ms e' 0))) \<and>
    (handle_persist e' (argv [w2, k]) (db1, c2) = (db2, c3) \<and> now_ms e' 0 < deadline \<longrightarrow>
       c3 = resp_integer c2 1 \<and> (\<forall>t. live db2 t k = Some v))"
proof -
  have a: "db_inv db1" "vals db1 = vals db" "ttls db1 = (ttls db)(k \<mapsto> deadline)" "c1 = resp_integer c 1"
    using handle_expire_eq [OF inv h] num lv by (simp_all add: expire_spec_def deadline_def)
  note v = live_vals [OF lv]
  have g: "live db1 t k = (if t < deadline then Some v else None)" for t
    using live_deadline(1) [OF a(2,3)] v by simp
  have "handle_persist e' (argv [w2, k]) (db1, c2) = (db2, c3) \<Longrightarrow> now_ms e' 0 < deadline \<Longrightarrow>
      vals db2 k = Some v \<and> ttls db2 k = None \<and> c3 = resp_integer c2 1"
    using handle_persist_eq [OF a(1)] g a(2) v by fastforce
  moreover have "handle_get e' (argv [w2, k]) (db1, c2) = (db2, c3) \<Longrightarrow>
      c3 = append_response c2 (wire (bulk_or_nil (if now_ms e' 0 < deadline then Some v else None)))"
    using handle_get_eq(3) [OF a(1), of e' "argv [w2, k]" c2 db2 c3] g by simp
  moreover have "handle_pttl e' (argv [w2, k]) (db1, c2) = (db2, c3) \<Longrightarrow> in_i64 (deadline - now_ms e' 0) \<Longrightarrow>
      c3 = resp_integer c2 (max 0 (deadline - now_ms e' 0))"
    using handle_pttl_eq [OF a(1), of e' "argv [w2, k]" c2 db2 c3] by (simp add: remaining_def a(2,3) v)
  ultimately show ?thesis using a(4) by (auto simp: live_def dead_def)
qed

lemma expire_life_cycle_witness:
  "snd (handle_pttl (at_time 5000) (argv [''PTTL'', ''b''])
     (fst (handle_expire (at_time 1000) (argv [''EXPIRE'', ''b'', ''3'']) (sample_db, client_one)), client_one)) = resp_integer client_one 0"
proof -
  obtain db1 c1 where s: "handle_expire (at_time 1000) (argv [''EXPIRE'', ''b'', ''3'']) (sample_db, client_one) = (db1, c1)" by fastforce
  obtain db2 c3 where g: "handle_pttl (at_time 5000) (argv [''PTTL'', ''b'']) (db1, client_one) = (db2, c3)" by fastforce
  have "from_chars ''3'' = (ErrcOk, 3, 1)" by code_simp
  moreover have "live sample_db (now_ms (at_time 1000) 0) ''b'' = Some (canonical_int ''y'')"
    by (simp add: live_def dead_def sample_db_facts)
  ultimately show ?thesis
    using expire_life_cycle [OF sample_db_facts(1) _ _ _ _ s, of "canonical_int ''y''" 3 1 "at_time 5000" "''PTTL''" client_one db2 c3] g
    by (simp add: s in_i64_def LLONG_MAX_def LLONG_MIN_def)
qed

section \<open>DEL, EXISTS, KEYS, RENAME\<close>

text \<open>C24. DEL removes exactly the keys it names with their deadlines and answers how many of them, counted
  once each, had a value, expired ones included; afterwards no moment shows any of them and every
  other key is as before.\<close>

theorem del_removes_exactly:
  assumes "db_inv db" "in_i64 (int (length args))" "handle_del e args (db, c) = (db', c')"
  defines "ks \<equiv> arg_str args ` {1..<length args}"
  shows "db_inv db' \<and> c' = resp_integer c (int (card (ks \<inter> dom (vals db)))) \<and>
    (\<forall>t k. live db' t k = (if k \<in> ks then None else live db t k))"
  using handle_del_eq [OF assms(1-3)] by (auto simp: ks_def live_def dead_def restrict_map_def)

lemma del_removes_exactly_witness:
  "snd (handle_del (at_time 9) (argv [''DEL'', ''a'', ''x'', ''a'']) (sample_db, client_one)) = resp_integer client_one 1 \<and>
   live (fst (handle_del (at_time 9) (argv [''DEL'', ''a'', ''x'', ''a'']) (sample_db, client_one))) 3 ''a'' = None"
proof -
  let ?args = "argv [''DEL'', ''a'', ''x'', ''a'']"
  obtain db' c' where h: "handle_del (at_time 9) ?args (sample_db, client_one) = (db', c')" by fastforce
  have len: "length ?args = 4" by simp
  have "{1..<4} = {1::nat, 2, 3}" by auto
  then have ks: "arg_str ?args ` {1..<length ?args} = {''a'', ''x''}"
    unfolding len by (auto simp del: One_nat_def)
  have "card ({''a'', ''x''} \<inter> dom (vals sample_db)) = 1" by (simp add: sample_db_facts)
  moreover have "in_i64 (int (length ?args))" unfolding len by (simp add: in_i64_def LLONG_MAX_def LLONG_MIN_def)
  ultimately show ?thesis
    using del_removes_exactly [OF sample_db_facts(1) _ h] unfolding ks h by simp
qed

text \<open>C26. KEYS answers, without repetition and without changing anything, exactly the keys that are live at
  that moment and match the pattern in the sense of the declarative relation \<open>glob\<close>.\<close>

theorem keys_lists_live_matches:
  assumes "db_inv db" "handle_keys e args (db, c) = (db', c')"
  shows "db' = db \<and> (\<exists>ks. distinct ks \<and>
    set ks = {k. glob (arg_str args 1) k \<and> live db (now_ms e 0) k \<noteq> None} \<and>
    c' = append_response c (wire (RespArray (map BulkString ks))))"
  by (rule handle_keys_eq [OF assms])

lemma keys_lists_live_matches_witness:
  "snd (handle_keys (at_time 9) (argv [''KEYS'', ''*'']) (sample_db, client_one)) =
     append_response client_one (wire (RespArray [BulkString ''b'']))"
proof -
  obtain db' c' where h: "handle_keys (at_time 9) (argv [''KEYS'', ''*'']) (sample_db, client_one) = (db', c')" by fastforce
  have "glob ''*'' k" for k using glob_star [OF glob_nil, of k] by simp
  then have "{k. glob ''*'' k \<and> live sample_db 9 k \<noteq> None} = {''b''}"
    by (auto simp: live_def dead_def sample_db_facts split: if_splits)
  then obtain ks where k: "distinct ks" "set ks = {''b''}" "c' = append_response client_one (wire (RespArray (map BulkString ks)))"
    using keys_lists_live_matches [OF sample_db_facts(1) h] by auto
  have "ks = [''b'']" using k(1,2) by (cases ks; cases "tl ks") auto
  then show ?thesis using k(3) by (simp add: h)
qed

text \<open>C37. The recursive matcher decides the declarative meaning of patterns: a star stands for any text, a
  question mark for any character, every other character for itself.\<close>

theorem glob_match_iff_glob: "glob_match ps s \<longleftrightarrow> glob ps s"
  using glob_match_sound glob_match_complete by blast

text \<open>C25. RENAME moves the live value to the new name, overwriting what was there, and drops the deadlines
  of both names; a key that is missing or expired is an error that changes nothing a client can see.
  Renaming a key to itself keeps its value.\<close>

theorem rename_moves_value:
  assumes "db_inv db" "handle_rename e (argv [w, k, k']) (db, c) = (db', c')"
  shows "db_inv db' \<and>
    (case live db (now_ms e 0) k of
       None \<Rightarrow> same_from (now_ms e 0) db db' \<and> c' = resp_error c ''no such key''
     | Some v \<Rightarrow> c' = resp_ok c \<and>
         (\<forall>t x. live db' t x = (if x = k' then Some v else if x = k then None else live db t x)))"
proof (cases "live db (now_ms e 0) k")
  case None
  then show ?thesis using handle_rename_eq [OF assms] by simp
next
  case (Some v)
  then have "db_inv db'" "vals db' = (vals db)(k := None, k' \<mapsto> v)" "ttls db' = (ttls db)(k := None, k' := None)"
    "c' = resp_ok c"
    using handle_rename_eq [OF assms] by simp_all
  then show ?thesis using Some by (auto simp: live_def dead_def)
qed

lemma rename_moves_value_witness:
  "live (fst (handle_rename (at_time 2) (argv [''RENAME'', ''a'', ''b'']) (sample_db, client_one))) 9 ''b'' =
     Some (canonical_int ''x'')"
proof -
  obtain db' c' where h: "handle_rename (at_time 2) (argv [''RENAME'', ''a'', ''b'']) (sample_db, client_one) = (db', c')" by fastforce
  have "live sample_db 2 ''a'' = Some (canonical_int ''x'')" by (simp add: live_def dead_def sample_db_facts)
  then show ?thesis using rename_moves_value [OF sample_db_facts(1) h] by (simp add: h)
qed

end
