(* ===== verification/StoreSpec.thy ===== *)
theory StoreSpec
  imports CmdProps DispatchProps
begin

text \<open>
  What the server promises to its clients, without dictionaries, encodings, lazy expiry or buffers: a
  store is a map from keys to bytes with an optional deadline, every command is one step on it, and a
  key is gone at its deadline. Theory Refinement shows that the code keeps this promise.
\<close>

section \<open>Stores\<close>

type_synonym store = "string \<rightharpoonup> string \<times> i64 option"

definition purge :: "i64 \<Rightarrow> store \<Rightarrow> store" where
  "purge now st k =
     (case st k of
        Some (v, Some d) \<Rightarrow> if d \<le> now then None else Some (v, Some d)
      | x \<Rightarrow> x)"

definition text_at :: "store \<Rightarrow> string \<Rightarrow> string option" where
  "text_at st k = map_option fst (st k)"

text \<open>A command on the store: the time, its words, the store before and after, the reply.\<close>

type_synonym operation = "i64 \<Rightarrow> string list \<Rightarrow> store \<Rightarrow> store \<Rightarrow> resp_value \<Rightarrow> bool"

definition word :: "string list \<Rightarrow> nat \<Rightarrow> string" where
  "word ws i = (if i < length ws then ws ! i else [])"

definition okay :: resp_value where "okay = SimpleString ''OK''"

definition fault :: "string \<Rightarrow> resp_value" where "fault m = RespError (''ERR '' @ m)"

text \<open>Most commands leave no choice.\<close>

definition exactly :: "(i64 \<Rightarrow> string list \<Rightarrow> store \<Rightarrow> store \<times> resp_value) \<Rightarrow> operation" where
  "exactly f now ws st st' r \<longleftrightarrow> (st', r) = f now ws st"

section \<open>String commands\<close>

definition put :: "string \<Rightarrow> string \<Rightarrow> i64 option \<Rightarrow> store \<Rightarrow> store" where
  "put k v d st = st(k \<mapsto> (canonical_int v, d))"

definition deadline_after :: "i64 \<Rightarrow> int \<Rightarrow> i64 option" where
  "deadline_after now t = (if 0 < wrap_i64 t then Some (wrap_i64 (now + wrap_i64 t)) else None)"

definition spec_set :: operation where
  "spec_set = exactly (\<lambda>now ws st.
     let os = set_words (drop 3 ws); there = st (word ws 1) \<noteq> None
     in if \<exists>w\<in>set os. bad_word w then (st, fault ''invalid expire time in 'set' command'')
        else if OnlyNew \<in> set os \<and> there \<or> OnlyOld \<in> set os \<and> \<not> there then (st, RespNil)
        else (put (word ws 1) (word ws 2) (Option.bind (asked_lifetime os) (deadline_after now)) st, okay))"

definition spec_get :: operation where
  "spec_get = exactly (\<lambda>now ws st. (st, bulk_or_nil (text_at st (word ws 1))))"

definition spec_getset :: operation where
  "spec_getset = exactly (\<lambda>now ws st.
     (put (word ws 1) (word ws 2) None st, bulk_or_nil (text_at st (word ws 1))))"

fun pairs_of :: "string list \<Rightarrow> (string \<times> string) list" where
  "pairs_of (k # v # ws) = (k, v) # pairs_of ws"
| "pairs_of _ = []"

definition spec_mset :: operation where
  "spec_mset = exactly (\<lambda>now ws st.
     if even (length ws) then (st, fault ''wrong number of arguments for MSET'')
     else (fold (\<lambda>(k, v). put k v None) (pairs_of (tl ws)) st, okay))"

definition spec_mget :: operation where
  "spec_mget = exactly (\<lambda>now ws st. (st, RespArray (map (\<lambda>k. bulk_or_nil (text_at st k)) (tl ws))))"

definition spec_append :: operation where
  "spec_append = exactly (\<lambda>now ws st.
     let text = text_or_empty (text_at st (word ws 1)) @ word ws 2
     in (put (word ws 1) text None st, RespInteger (wrap_i64 (int (length text)))))"

definition spec_strlen :: operation where
  "spec_strlen = exactly (\<lambda>now ws st.
     (st, RespInteger (wrap_i64 (int (length (text_or_empty (text_at st (word ws 1))))))))"

definition count_by :: "i64 \<Rightarrow> string \<Rightarrow> store \<Rightarrow> store \<times> resp_value" where
  "count_by delta k st =
     (case int_value (text_at st k) of
        None \<Rightarrow> (st, fault not_integer)
      | Some i \<Rightarrow>
          if in_i64 (i + delta) then (st(k \<mapsto> (to_chars (i + delta), None)), RespInteger (i + delta))
          else (st, fault would_overflow))"

definition spec_incr :: operation where
  "spec_incr = exactly (\<lambda>now ws st. count_by 1 (word ws 1) st)"

definition spec_decr :: operation where
  "spec_decr = exactly (\<lambda>now ws st. count_by (- 1) (word ws 1) st)"

definition spec_incrby :: operation where
  "spec_incrby = exactly (\<lambda>now ws st.
     case number (word ws 2) of None \<Rightarrow> (st, fault not_integer) | Some d \<Rightarrow> count_by d (word ws 1) st)"

text \<open>\<^verbatim>\<open>DECRBY\<close> does not check for overflow; past 64 bits the result is undefined in C++, and the wrapped
  value stands for it.\<close>

definition spec_decrby :: operation where
  "spec_decrby = exactly (\<lambda>now ws st.
     case number (word ws 2) of
       None \<Rightarrow> (st, fault not_integer)
     | Some d \<Rightarrow>
         case int_value (text_at st (word ws 1)) of
           None \<Rightarrow> (st, fault not_integer)
         | Some i \<Rightarrow> (st(word ws 1 \<mapsto> (to_chars (wrap_i64 (i - d)), None)), RespInteger (wrap_i64 (i - d))))"

text \<open>\<open>unit\<close> is the length of one unit of the duration in milliseconds.\<close>

definition set_for :: "i64 \<Rightarrow> string \<Rightarrow> i64 \<Rightarrow> string list \<Rightarrow> store \<Rightarrow> store \<times> resp_value" where
  "set_for unit msg now ws st =
     (case number (word ws 2) of
        None \<Rightarrow> (st, fault msg)
      | Some n \<Rightarrow>
          if n \<le> 0 then (st, fault msg)
          else (put (word ws 1) (word ws 3) (Some (wrap_i64 (now + wrap_i64 (n * unit)))) st, okay))"

definition spec_setex :: operation where
  "spec_setex = exactly (set_for 1000 ''invalid expire time in 'setex' command'')"

definition spec_psetex :: operation where
  "spec_psetex = exactly (set_for 1 ''invalid expire time in 'psetex' command'')"

definition spec_setnx :: operation where
  "spec_setnx = exactly (\<lambda>now ws st.
     if st (word ws 1) \<noteq> None then (st, RespInteger 0)
     else (put (word ws 1) (word ws 2) None st, RespInteger 1))"

section \<open>Key commands\<close>

text \<open>
  DEL counts what it finds in the tables: the keys that are there, and perhaps some whose deadline has
  passed without anybody having looked since. TTL, PTTL and DBSIZE see such keys, too.
\<close>

definition spec_del :: operation where
  "spec_del now ws st st' r \<longleftrightarrow>
     st' = st |` (- set (tl ws)) \<and>
     (\<exists>n. r = RespInteger (int n) \<and> card (set (tl ws) \<inter> dom st) \<le> n \<and> n \<le> card (set (tl ws)))"

definition spec_exists :: operation where
  "spec_exists = exactly (\<lambda>now ws st. (st, RespInteger (int (length (filter (\<lambda>k. st k \<noteq> None) (tl ws))))))"

definition spec_type :: operation where
  "spec_type = exactly (\<lambda>now ws st.
     (st, SimpleString (if st (word ws 1) = None then ''none'' else ''string'')))"

definition expire_at :: "(i64 \<Rightarrow> i64 \<Rightarrow> i64) \<Rightarrow> i64 \<Rightarrow> string list \<Rightarrow> store \<Rightarrow> store \<times> resp_value" where
  "expire_at deadline now ws st =
     (case number (word ws 2) of
        None \<Rightarrow> (st, fault not_integer)
      | Some n \<Rightarrow>
          case st (word ws 1) of
            None \<Rightarrow> (st, RespInteger 0)
          | Some (v, _) \<Rightarrow> (st(word ws 1 \<mapsto> (v, Some (deadline now n))), RespInteger 1))"

definition spec_expire :: operation where
  "spec_expire = exactly (expire_at (\<lambda>now n. wrap_i64 (now + wrap_i64 (n * 1000))))"

definition spec_pexpire :: operation where
  "spec_pexpire = exactly (expire_at (\<lambda>now n. wrap_i64 (now + n)))"

definition spec_expireat :: operation where
  "spec_expireat = exactly (expire_at (\<lambda>now n. wrap_i64 (n * 1000)))"

definition time_left :: "i64 \<Rightarrow> i64 \<Rightarrow> string list \<Rightarrow> store \<Rightarrow> resp_value \<Rightarrow> bool" where
  "time_left unit now ws st r \<longleftrightarrow>
     (case st (word ws 1) of
        None \<Rightarrow> \<exists>n. r = RespInteger n \<and> (n = - 2 \<or> 0 \<le> n)
      | Some (v, None) \<Rightarrow> r = RespInteger (- 1)
      | Some (v, Some d) \<Rightarrow> r = RespInteger ((d - now) div unit))"

definition spec_ttl :: operation where
  "spec_ttl now ws st st' r \<longleftrightarrow> st' = st \<and> time_left 1000 now ws st r"

definition spec_pttl :: operation where
  "spec_pttl now ws st st' r \<longleftrightarrow> st' = st \<and> time_left 1 now ws st r"

definition spec_persist :: operation where
  "spec_persist = exactly (\<lambda>now ws st.
     case st (word ws 1) of
       None \<Rightarrow> (st, RespInteger 0)
     | Some (v, _) \<Rightarrow> (st(word ws 1 \<mapsto> (v, None)), RespInteger 1))"

definition spec_keys :: operation where
  "spec_keys now ws st st' r \<longleftrightarrow>
     st' = st \<and> (\<exists>ks. r = RespArray (map BulkString ks) \<and> distinct ks \<and> set ks = {k \<in> dom st. glob (word ws 1) k})"

definition spec_rename :: operation where
  "spec_rename = exactly (\<lambda>now ws st.
     case st (word ws 1) of
       None \<Rightarrow> (st, fault ''no such key'')
     | Some (v, _) \<Rightarrow> (st(word ws 1 := None, word ws 2 \<mapsto> (v, None)), okay))"

definition spec_dbsize :: operation where
  "spec_dbsize now ws st st' r \<longleftrightarrow> st' = st \<and> (\<exists>n. r = RespInteger (wrap_i64 (int n)) \<and> card (dom st) \<le> n)"

section \<open>Server commands\<close>

definition spec_ping :: operation where
  "spec_ping = exactly (\<lambda>now ws st.
     (st, if length ws = 1 then SimpleString ''PONG'' else BulkString (word ws 1)))"

definition spec_echo :: operation where
  "spec_echo = exactly (\<lambda>now ws st. (st, BulkString (word ws 1)))"

definition spec_flushdb :: operation where
  "spec_flushdb = exactly (\<lambda>now ws st. (Map.empty, okay))"

definition spec_select :: operation where
  "spec_select = exactly (\<lambda>now ws st.
     (st, if number (word ws 1) = Some 0 then okay else fault ''DB index is out of range''))"

definition spec_quit :: operation where
  "spec_quit = exactly (\<lambda>now ws st. (st, okay))"

definition spec_info :: operation where
  "spec_info now ws st st' r \<longleftrightarrow> st' = st \<and> (\<exists>text. r = BulkString text)"

definition spec_save :: operation where
  "spec_save now ws st st' r \<longleftrightarrow> st' = st \<and> (r = okay \<or> (\<exists>m. r = fault m))"

definition spec_bgsave :: operation where
  "spec_bgsave now ws st st' r \<longleftrightarrow>
     st' = st \<and> (r = SimpleString ''Background saving started'' \<or> (\<exists>m. r = fault m))"

section \<open>The interpreter\<close>

text \<open>Name, least and greatest number of words (the name included), meaning.\<close>

definition spec_table :: "(string \<times> nat \<times> nat option \<times> operation) list" where
  "spec_table =
     [(''SET'', 3, None, spec_set), (''GET'', 2, Some 2, spec_get), (''GETSET'', 3, Some 3, spec_getset),
      (''MSET'', 3, None, spec_mset), (''MGET'', 2, None, spec_mget), (''APPEND'', 3, Some 3, spec_append),
      (''STRLEN'', 2, Some 2, spec_strlen), (''INCR'', 2, Some 2, spec_incr), (''INCRBY'', 3, Some 3, spec_incrby),
      (''DECR'', 2, Some 2, spec_decr), (''DECRBY'', 3, Some 3, spec_decrby), (''SETEX'', 4, Some 4, spec_setex),
      (''PSETEX'', 4, Some 4, spec_psetex), (''SETNX'', 3, Some 3, spec_setnx),
      (''DEL'', 2, None, spec_del), (''EXISTS'', 2, None, spec_exists), (''TYPE'', 2, Some 2, spec_type),
      (''EXPIRE'', 3, Some 3, spec_expire), (''PEXPIRE'', 3, Some 3, spec_pexpire),
      (''EXPIREAT'', 3, Some 3, spec_expireat), (''TTL'', 2, Some 2, spec_ttl), (''PTTL'', 2, Some 2, spec_pttl),
      (''PERSIST'', 2, Some 2, spec_persist), (''KEYS'', 2, Some 2, spec_keys), (''RENAME'', 3, Some 3, spec_rename),
      (''DBSIZE'', 1, Some 1, spec_dbsize),
      (''PING'', 1, Some 2, spec_ping), (''ECHO'', 2, Some 2, spec_echo), (''FLUSHDB'', 1, Some 1, spec_flushdb),
      (''INFO'', 1, Some 2, spec_info), (''SAVE'', 1, Some 1, spec_save), (''BGSAVE'', 1, Some 1, spec_bgsave),
      (''SELECT'', 2, Some 2, spec_select), (''QUIT'', 1, Some 1, spec_quit)]"

definition arity_fits :: "nat \<Rightarrow> nat option \<Rightarrow> nat \<Rightarrow> bool" where
  "arity_fits lo hi n \<longleftrightarrow> lo \<le> n \<and> (case hi of None \<Rightarrow> True | Some m \<Rightarrow> n \<le> m)"

text \<open>
  One value from the wire: a command is an array that starts with a bulk string, in any mix of cases,
  known or not, with any number of words; whatever its other elements are, a command sees their text.
\<close>

definition words_of :: "resp_value \<Rightarrow> string list" where
  "words_of v = map rv_str (rv_elements v)"

definition permits :: "i64 \<Rightarrow> resp_value \<Rightarrow> store \<Rightarrow> store \<Rightarrow> resp_value \<Rightarrow> bool" where
  "permits now v st st' r \<longleftrightarrow>
     (if rv_elements v = [] then st' = st \<and> r = fault ''Protocol error: expected array''
      else if \<not> is_bulk_string (hd (rv_elements v))
      then st' = st \<and> r = fault ''Protocol error: command name must be bulk string''
      else let ws = words_of v
           in case find (\<lambda>c. fst c = to_upper (hd ws)) spec_table of
                None \<Rightarrow> st' = st \<and> r = fault (''unknown command `'' @ to_upper (hd ws) @ ''`'')
              | Some (name, lo, hi, meaning) \<Rightarrow>
                  if arity_fits lo hi (length ws) then meaning now ws st st' r
                  else st' = st \<and>
                    r = fault (''wrong number of arguments for '' @ [CHR 0x27] @ name @ [CHR 0x27] @ '' command''))"

text \<open>
  Time passes between the requests, whoever sends them. A label is the value that was received with
  the bytes of its reply, or \<open>None\<close> when nothing visible happens.
\<close>

type_synonym label = "(resp_value \<times> string) option"

inductive store_step :: "i64 \<times> store \<Rightarrow> label \<Rightarrow> i64 \<times> store \<Rightarrow> bool" where
  ask: "t \<le> now \<Longrightarrow> permits now v (purge now st) st' r \<Longrightarrow>
    store_step (t, st) (Some (v, wire r)) (now, purge now st')"
| idle: "t \<le> now \<Longrightarrow> store_step (t, st) None (now, purge now st)"

end
