(* ===== verification/Refinement.thy ===== *)
theory Refinement
  imports StoreSpec
begin

text \<open>
  The registered commands, run on dictionaries and value objects with lazy expiry, are steps of the
  store of StoreSpec. \<open>view\<close> is the abstraction: what the database shows at a time. A generic forward
  simulation carries the single steps over to runs.
\<close>

section \<open>The abstraction\<close>

definition view :: "i64 \<Rightarrow> keva_db \<Rightarrow> store" where
  "view now db k = map_option (\<lambda>v. (v, ttls db k)) (live db now k)"

declare argv_simps(2) [simp del] One_nat_def [simp del]

lemma arg_word [simp]: "arg_str (argv ws) i = word ws i"
  by (simp add: arg_str_def word_def argv_def)

lemma text_at_view [simp]: "text_at (view now db) k = live db now k"
  by (simp add: text_at_def view_def option.map_comp comp_def option.map_ident)

lemma view_None [simp]: "view now db k = None \<longleftrightarrow> live db now k = None"
  by (simp add: view_def)

lemma dom_view [simp]: "dom (view now db) = dom (live db now)"
  by (auto simp: dom_def)

lemma view_alt: "view now db = purge now (\<lambda>k. map_option (\<lambda>v. (v, ttls db k)) (vals db k))"
  by (auto simp: fun_eq_iff view_def purge_def live_def dead_def split: option.split)

lemma purge_later: "now \<le> t \<Longrightarrow> purge t (purge now st) = purge t st"
  by (auto simp: fun_eq_iff purge_def split: option.splits)

lemma purge_view [simp]: "now \<le> t \<Longrightarrow> purge t (view now db) = view t db"
  by (simp add: view_alt purge_later)

text \<open>What is alive at all later times shows the deadlines.\<close>

lemma view_same:
  assumes "same_from now db db'"
  shows "view now db' = view now db"
proof
  fix k
  have same: "live db' t k = live db t k" if "now \<le> t" for t using assms that by (simp add: same_from_def)
  show "view now db' k = view now db k"
  proof (cases "live db now k")
    case None
    then show ?thesis using same [of now] by (simp add: view_def)
  next
    case (Some v)
    then have v: "live db' now k = Some v" using same [of now] by simp
    have dead: "live x t k = None \<longleftrightarrow> (\<exists>d. ttls x k = Some d \<and> d \<le> t)" if "live x now k = Some v" for x t
      using that by (auto simp: live_def dead_def split: if_splits option.splits)
    have late: "now < d" if "live x now k = Some v" "ttls x k = Some d" for x d
      using that by (auto simp: live_def dead_def split: if_splits)
    have iff: "(\<exists>d. ttls db' k = Some d \<and> d \<le> t) \<longleftrightarrow> (\<exists>d. ttls db k = Some d \<and> d \<le> t)" if "now \<le> t" for t
      using same [OF that] dead [OF Some, of t] dead [OF v, of t] by simp
    have "ttls db' k = ttls db k"
    proof (cases "ttls db k")
      case None
      then show ?thesis
        using iff late [OF v] by (cases "ttls db' k") (auto simp: order_le_less)
    next
      case (Some d)
      then obtain d' where d': "ttls db' k = Some d'"
        using iff [of d] late [OF \<open>live db now k = Some v\<close> Some] by auto
      then show ?thesis
        using Some iff [of d] iff [of d'] late [OF \<open>live db now k = Some v\<close> Some] late [OF v d'] by auto
    qed
    then show ?thesis using v Some by (simp add: view_def)
  qed
qed

lemma view_store:
  assumes "vals db' = (vals db)(k \<mapsto> v)" "ttls db' = (ttls db)(k := d)"
  shows "view now db' = purge now ((view now db)(k \<mapsto> (v, d)))"
  using assms by (auto simp: fun_eq_iff view_alt purge_def split: option.splits)

lemma view_remove:
  assumes "vals db' = vals db |` S" "ttls db' = ttls db |` S"
  shows "view now db' = purge now (view now db |` S)"
  using assms by (auto simp: fun_eq_iff view_alt purge_def restrict_map_def split: option.splits)

lemma view_eq:
  assumes "vals db' = vals db" "ttls db' = ttls db"
  shows "view now db' = view now db"
  using assms by (simp add: view_alt)

section \<open>What it means to implement an operation\<close>

definition meets :: "(i64 \<Rightarrow> 'w \<Rightarrow> store \<Rightarrow> store \<Rightarrow> resp_value \<Rightarrow> bool) \<Rightarrow> i64 \<Rightarrow> 'w \<Rightarrow>
    keva_db \<times> connection \<Rightarrow> keva_db \<times> connection \<Rightarrow> bool" where
  "meets oper now ws dc dc' \<longleftrightarrow>
     (\<exists>st' r. oper now ws (view now (fst dc)) st' r \<and> view now (fst dc') = purge now st' \<and>
        write_buf (snd dc') = write_buf (snd dc) @ wire r)"

lemma meetsI:
  assumes "oper now ws (view now db) st' r" "view now db' = purge now st'" "write_buf c' = write_buf c @ wire r"
  shows "meets oper now ws (db, c) (db', c')"
  using assms by (auto simp: meets_def)

lemma meets_exactly:
  assumes "f now ws (view now db) = (st', r)" "view now db' = purge now st'" "c' = append_response c (wire r)"
  shows "meets (exactly f) now ws (db, c) (db', c')"
  using assms by (intro meetsI [of _ _ _ _ st' r]) (simp_all add: exactly_def)

lemma meets_read:
  assumes "f now ws (view now db) = (view now db, r)" "same_from now db db'" "c' = append_response c (wire r)"
  shows "meets (exactly f) now ws (db, c) (db', c')"
  using meets_exactly [of f, OF assms(1) _ assms(3)] view_same [OF assms(2)] by simp

definition still :: "env \<Rightarrow> i64 \<Rightarrow> bool" where
  "still e now \<longleftrightarrow> 0 \<le> now \<and> (\<forall>i. now_ms e i = now)"

definition db_refines :: "db_handler \<Rightarrow> operation \<Rightarrow> bool" where
  "db_refines h oper \<longleftrightarrow>
     (\<forall>e now ws db c db' c'. db_inv db \<longrightarrow> still e now \<longrightarrow> ws \<noteq> [] \<longrightarrow> in_i64 (int (length ws)) \<longrightarrow>
        h e (argv ws) (db, c) = (db', c') \<longrightarrow> meets oper now ws (db, c) (db', c'))"

lemma db_refinesI:
  assumes "\<And>e now ws db c db' c'. db_inv db \<Longrightarrow> 0 \<le> now \<Longrightarrow> (\<And>i. now_ms e i = now) \<Longrightarrow> ws \<noteq> [] \<Longrightarrow>
    in_i64 (int (length ws)) \<Longrightarrow> h e (argv ws) (db, c) = (db', c') \<Longrightarrow> meets oper now ws (db, c) (db', c')"
  shows "db_refines h oper"
  unfolding db_refines_def still_def using assms by blast

lemma numberE:
  obtains ec n k where "from_chars s = (ec, n, k)" "number s = (if ec = ErrcOk then Some n else None)"
    "ec = ErrcOk \<longrightarrow> in_i64 n"
  by (cases "from_chars s") (auto simp: number_def dest: in_i64_from_chars)

text \<open>The same for the commands whose third word is a number.\<close>

lemma db_refines_number:
  assumes "\<And>e now ws db c db' c' ec n k. db_inv db \<Longrightarrow> (\<And>i. now_ms e i = now) \<Longrightarrow>
    h e (argv ws) (db, c) = (db', c') \<Longrightarrow> from_chars (word ws 2) = (ec, n, k) \<Longrightarrow>
    number (word ws 2) = (if ec = ErrcOk then Some n else None) \<Longrightarrow> (ec = ErrcOk \<longrightarrow> in_i64 n) \<Longrightarrow>
    meets oper now ws (db, c) (db', c')"
  shows "db_refines h oper"
proof (rule db_refinesI)
  fix e now ws db c db' c'
  assume a: "db_inv db" "\<And>i. now_ms e i = now" "h e (argv ws) (db, c) = (db', c')"
  obtain ec n k where "from_chars (word ws 2) = (ec, n, k)" "number (word ws 2) = (if ec = ErrcOk then Some n else None)"
    "ec = ErrcOk \<longrightarrow> in_i64 n" by (rule numberE)
  with a show "meets oper now ws (db, c) (db', c')" by (rule assms)
qed

lemmas reply_forms = reply_wire okay_def fault_def

section \<open>String commands\<close>

lemma set_refines: "db_refines handle_set spec_set"
proof (rule db_refinesI)
  fix e now ws db c db' c'
  assume inv: "db_inv db" and now: "\<And>i. now_ms e i = now" and h: "handle_set e (argv ws) (db, c) = (db', c')"
  note s = handle_set_cases [OF inv h, unfolded arg_word now]
  define os where "os = set_words (drop 3 ws)"
  have words: "set_options (argv ws) 3 x nx xx =
      (if \<exists>w\<in>set os. bad_word w then None
       else Some (case asked_lifetime os of None \<Rightarrow> x | Some t \<Rightarrow> wrap_i64 t,
         nx \<or> OnlyNew \<in> set os, xx \<or> OnlyOld \<in> set os))" for x nx xx
    by (simp add: set_options_words argv_def comp_def options_of_def os_def Let_def)
  show "meets spec_set now ws (db, c) (db', c')"
  proof (cases "\<exists>w\<in>set os. bad_word w")
    case True
    then have "set_options (argv ws) 3 (- 1) False False = None" by (simp add: words)
    then show ?thesis
      unfolding spec_set_def using s(2) True
      by (intro meets_read) (simp_all add: os_def [symmetric] reply_forms Let_def del: wire.simps)
  next
    case ok: False
    define ms where "ms = (case asked_lifetime os of None \<Rightarrow> - 1 | Some t \<Rightarrow> wrap_i64 t)"
    have "set_options (argv ws) 3 (- 1) False False = Some (ms, OnlyNew \<in> set os, OnlyOld \<in> set os)"
      using ok by (simp add: words ms_def)
    note s = s(3,4) [OF this]
    have ms: "(if 0 < ms then Some (wrap_i64 (now + ms)) else None) = Option.bind (asked_lifetime os) (deadline_after now)"
      by (simp add: ms_def deadline_after_def split: option.split)
    show ?thesis
    proof (cases "OnlyNew \<in> set os \<and> live db now (word ws 1) \<noteq> None \<or> OnlyOld \<in> set os \<and> live db now (word ws 1) = None")
      case True
      then show ?thesis
        unfolding spec_set_def using s(1) [OF True] ok
        by (intro meets_read) (auto simp: os_def [symmetric] reply_forms Let_def simp del: wire.simps)
    next
      case False
      note s = s(2) [OF False, unfolded ms]
      show ?thesis
        unfolding spec_set_def
        by (rule meets_exactly [where st' = "put (word ws 1) (word ws 2) (Option.bind (asked_lifetime os) (deadline_after now))
              (view now db)" and r = okay])
          (use s ok False view_store [of db' db] in
            \<open>auto simp: os_def [symmetric] put_def reply_forms Let_def simp del: wire.simps\<close>)
    qed
  qed
qed

lemma get_refines: "db_refines handle_get spec_get"
proof (rule db_refinesI)
  fix e now ws db c db' c'
  assume inv: "db_inv db" and now: "\<And>i. now_ms e i = now" and h: "handle_get e (argv ws) (db, c) = (db', c')"
  note s = handle_get_eq [OF inv h, unfolded arg_word now]
  show "meets spec_get now ws (db, c) (db', c')"
    unfolding spec_get_def by (rule meets_read [OF _ s(2,3)]) simp
qed

lemma getset_refines: "db_refines handle_getset spec_getset"
proof (rule db_refinesI)
  fix e now ws db c db' c'
  assume inv: "db_inv db" and now: "\<And>i. now_ms e i = now" and h: "handle_getset e (argv ws) (db, c) = (db', c')"
  note s = handle_getset_eq [OF inv h, unfolded arg_word now]
  show "meets spec_getset now ws (db, c) (db', c')"
    unfolding spec_getset_def by (rule meets_exactly [OF _ view_store [OF s(2,3)] s(4)]) (simp add: put_def)
qed

lemma append_refines: "db_refines handle_append spec_append"
proof (rule db_refinesI)
  fix e now ws db c db' c'
  assume inv: "db_inv db" and now: "\<And>i. now_ms e i = now" and h: "handle_append e (argv ws) (db, c) = (db', c')"
  note s = handle_append_eq [OF inv h, unfolded arg_word now]
  show "meets spec_append now ws (db, c) (db', c')"
    unfolding spec_append_def by (rule meets_exactly [OF _ view_store [OF s(2,3)] s(4)]) (simp add: put_def Let_def)
qed

lemma strlen_refines: "db_refines handle_strlen spec_strlen"
proof (rule db_refinesI)
  fix e now ws db c db' c'
  assume inv: "db_inv db" and now: "\<And>i. now_ms e i = now" and h: "handle_strlen e (argv ws) (db, c) = (db', c')"
  note s = handle_strlen_eq [OF inv h, unfolded arg_word now]
  show "meets spec_strlen now ws (db, c) (db', c')"
    unfolding spec_strlen_def by (rule meets_read [OF _ s(2,3)]) simp
qed

lemma meets_count:
  assumes "counter_spec db now (word ws 1) d c db' c'" "\<And>st. f now ws st = count_by d (word ws 1) st"
  shows "meets (exactly f) now ws (db, c) (db', c')"
proof (cases "int_value (live db now (word ws 1))")
  case None
  then show ?thesis
    using assms by (intro meets_read) (simp_all add: counter_spec_def count_by_def reply_forms del: wire.simps)
next
  case (Some i)
  show ?thesis
  proof (cases "in_i64 (i + d)")
    case True
    then have s: "vals db' = (vals db)(word ws 1 \<mapsto> to_chars (i + d))" "ttls db' = (ttls db)(word ws 1 := None)"
      "c' = append_response c (wire (RespInteger (i + d)))"
      using assms(1) Some by (simp_all add: counter_spec_def)
    show ?thesis
      by (rule meets_exactly [OF _ view_store [OF s(1,2)] s(3)]) (simp add: assms(2) count_by_def Some True)
  next
    case False
    then show ?thesis
      using assms Some by (intro meets_read) (simp_all add: counter_spec_def count_by_def reply_forms del: wire.simps)
  qed
qed

lemma incr_refines: "db_refines handle_incr spec_incr"
  and decr_refines: "db_refines handle_decr spec_decr"
  unfolding spec_incr_def spec_decr_def
  by (intro db_refinesI meets_count [of _ _ _ 1] meets_count [of _ _ _ "- 1"] refl;
      use handle_incr_eq handle_decr_eq in \<open>metis arg_word\<close>)+


lemma incrby_refines: "db_refines handle_incrby spec_incrby"
proof (rule db_refines_number)
  fix e now ws db c db' c' ec n k
  assume inv: "db_inv db" and now: "\<And>i. now_ms e i = now" and h: "handle_incrby e (argv ws) (db, c) = (db', c')"
    and fc: "from_chars (word ws 2) = (ec, n, k)" "number (word ws 2) = (if ec = ErrcOk then Some n else None)"
  note s = handle_incrby_eq [OF inv h, unfolded arg_word now, OF fc(1)]
  show "meets spec_incrby now ws (db, c) (db', c')"
  proof (cases "ec = ErrcOk")
    case True
    then show ?thesis unfolding spec_incrby_def using s fc(2)
      by (intro meets_count [of _ _ _ n]) (simp_all add: meets_def exactly_def)
  next
    case False
    then show ?thesis unfolding spec_incrby_def using s fc(2)
      by (intro meets_read) (simp_all add: reply_forms del: wire.simps)
  qed
qed

lemma decrby_refines: "db_refines handle_decrby spec_decrby"
proof (rule db_refines_number)
  fix e now ws db c db' c' ec n k
  assume inv: "db_inv db" and now: "\<And>i. now_ms e i = now" and h: "handle_decrby e (argv ws) (db, c) = (db', c')"
    and fc: "from_chars (word ws 2) = (ec, n, k)" "number (word ws 2) = (if ec = ErrcOk then Some n else None)"
  note s = handle_decrby_eq [OF inv h, unfolded arg_word now, OF fc(1)]
  show "meets spec_decrby now ws (db, c) (db', c')"
  proof (cases "ec = ErrcOk \<and> int_value (live db now (word ws 1)) \<noteq> None")
    case True
    then obtain i where i: "int_value (live db now (word ws 1)) = Some i" "ec = ErrcOk" by auto
    then have s: "vals db' = (vals db)(word ws 1 \<mapsto> to_chars (wrap_i64 (i - n)))" "ttls db' = (ttls db)(word ws 1 := None)"
      "c' = append_response c (wire (RespInteger (wrap_i64 (i - n))))" using s by simp_all
    show ?thesis unfolding spec_decrby_def
      by (rule meets_exactly [OF _ view_store [OF s(1,2)] s(3)]) (simp add: fc(2) i)
  next
    case False
    then show ?thesis unfolding spec_decrby_def using s fc(2)
      by (intro meets_read) (auto simp: reply_forms simp del: wire.simps split: if_splits)
  qed
qed

text \<open>SETEX and PSETEX differ in the unit.\<close>

lemma meets_set_for:
  assumes "number (word ws 2) = (if ec = ErrcOk then Some n else None)"
    and "if ec \<noteq> ErrcOk \<or> n \<le> 0 then db' = db \<and> c' = resp_error c msg
      else vals db' = (vals db)(word ws 1 \<mapsto> canonical_int (word ws 3)) \<and>
        ttls db' = (ttls db)(word ws 1 \<mapsto> wrap_i64 (now + wrap_i64 (n * unit))) \<and> c' = resp_ok c"
  shows "meets (exactly (set_for unit msg)) now ws (db, c) (db', c')"
proof (cases "ec = ErrcOk \<and> 0 < n")
  case True
  then have s: "vals db' = (vals db)(word ws 1 \<mapsto> canonical_int (word ws 3))"
    "ttls db' = (ttls db)(word ws 1 \<mapsto> wrap_i64 (now + wrap_i64 (n * unit)))" "c' = append_response c (wire okay)"
    using assms(2) by (simp_all add: reply_forms del: wire.simps)
  show ?thesis
    by (rule meets_exactly [OF _ view_store [OF s(1,2)] s(3)]) (use True assms(1) in \<open>simp add: set_for_def put_def\<close>)
next
  case False
  then show ?thesis using assms
    by (intro meets_read) (auto simp: set_for_def reply_forms simp del: wire.simps)
qed

lemma setex_refines: "db_refines handle_setex spec_setex"
  and psetex_refines: "db_refines handle_psetex spec_psetex"
proof -
  show "db_refines handle_setex spec_setex"
  proof (rule db_refines_number)
    fix e now ws db c db' c' ec n k
    assume inv: "db_inv db" and now: "\<And>i. now_ms e i = now" and h: "handle_setex e (argv ws) (db, c) = (db', c')"
      and fc: "from_chars (word ws 2) = (ec, n, k)" "number (word ws 2) = (if ec = ErrcOk then Some n else None)"
    show "meets spec_setex now ws (db, c) (db', c')"
      unfolding spec_setex_def
      using handle_setex_eq [OF inv h, unfolded arg_word now, OF fc(1)] by (intro meets_set_for [OF fc(2)]) simp
  qed
  show "db_refines handle_psetex spec_psetex"
  proof (rule db_refines_number)
    fix e now ws db c db' c' ec n k
    assume inv: "db_inv db" and now: "\<And>i. now_ms e i = now" and h: "handle_psetex e (argv ws) (db, c) = (db', c')"
      and fc: "from_chars (word ws 2) = (ec, n, k)" "number (word ws 2) = (if ec = ErrcOk then Some n else None)"
      and num: "ec = ErrcOk \<longrightarrow> in_i64 n"
    show "meets spec_psetex now ws (db, c) (db', c')"
      unfolding spec_psetex_def
      using handle_psetex_eq [OF inv h, unfolded arg_word now, OF fc(1)] num by (intro meets_set_for [OF fc(2)]) auto
  qed
qed

lemma setnx_refines: "db_refines handle_setnx spec_setnx"
proof (rule db_refinesI)
  fix e now ws db c db' c'
  assume inv: "db_inv db" and now: "\<And>i. now_ms e i = now" and h: "handle_setnx e (argv ws) (db, c) = (db', c')"
  note s = handle_setnx_eq [OF inv h, unfolded arg_word now]
  show "meets spec_setnx now ws (db, c) (db', c')"
  proof (cases "live db now (word ws 1) = None")
    case True
    then have s: "vals db' = (vals db)(word ws 1 \<mapsto> canonical_int (word ws 2))" "ttls db' = (ttls db)(word ws 1 := None)"
      "c' = append_response c (wire (RespInteger 1))" using s by (simp_all add: reply_forms del: wire.simps)
    show ?thesis unfolding spec_setnx_def
      by (rule meets_exactly [OF _ view_store [OF s(1,2)] s(3)]) (simp add: True put_def)
  next
    case False
    then show ?thesis unfolding spec_setnx_def using s view_eq [of db' db now]
      by (intro meets_exactly) (auto simp: reply_forms simp del: wire.simps)
  qed
qed

lemma arg_pairs_words: "even (length ws - i) \<Longrightarrow> arg_pairs (argv ws) i = pairs_of (drop i ws)"
proof (induction "length ws - i" arbitrary: i rule: less_induct)
  case less
  show ?case
  proof (cases "i < length ws")
    case True
    then have lt: "i + 1 < length ws" using less.prems by (cases "length ws = i + 1") auto
    have "drop i ws = ws ! i # ws ! (i + 1) # drop (i + 2) ws"
      using True lt by (simp add: Cons_nth_drop_Suc numeral_2_eq_2 One_nat_def)
    moreover have "arg_pairs (argv ws) (i + 2) = pairs_of (drop (i + 2) ws)"
      using less.prems True by (intro less.hyps) auto
    ultimately show ?thesis using True lt by (simp add: arg_pairs.simps [of _ i] word_def)
  next
    case False
    then show ?thesis by (simp add: arg_pairs.simps [of _ i])
  qed
qed

lemma fold_put:
  "fold (\<lambda>(k, v). put k v None) ps st =
     (\<lambda>k. case map_of (rev (canon_pairs ps)) k of None \<Rightarrow> st k | Some v \<Rightarrow> Some (v, None))"
proof (induction ps arbitrary: st)
  case (Cons p ps)
  then show ?case by (cases p) (auto simp: fun_eq_iff put_def canon_pairs_def map_add_def split: option.split)
qed (simp add: canon_pairs_def)

lemma mset_refines: "db_refines handle_mset spec_mset"
proof (rule db_refinesI)
  fix e now ws db c db' c'
  assume inv: "db_inv db" and ne: "ws \<noteq> []" and h: "handle_mset e (argv ws) (db, c) = (db', c')"
  show "meets spec_mset now ws (db, c) (db', c')"
  proof (cases "even (length ws)")
    case True
    then show ?thesis using h unfolding spec_mset_def
      by (intro meets_read) (auto simp: handle_mset_def reply_forms even_iff_mod_2_eq_zero simp del: wire.simps)
  next
    case False
    then have e: "even (length ws - 1)" by simp
    have tl: "drop 1 ws = tl ws" by (simp add: drop_Suc One_nat_def)
    let ?ps = "pairs_of (tl ws)"
    have db': "db' = mset_loop e (argv ws) 1 db" "c' = append_response c (wire okay)"
      using h False by (auto simp: handle_mset_def reply_forms odd_iff_mod_2_eq_one simp del: wire.simps)
    note s = mset_loop_facts(2,3) [OF inv, of e "argv ws" 1, unfolded arg_pairs_words [OF e] tl, folded db'(1)]
    have dom: "k \<in> fst ` set ?ps \<longleftrightarrow> map_of (rev (canon_pairs ?ps)) k \<noteq> None" for k
      by (force simp: map_of_eq_None_iff canon_pairs_def)
    have "view now db' = purge now (fold (\<lambda>(k, v). put k v None) ?ps (view now db))"
      unfolding fold_put
      by (rule ext) (auto simp: view_alt purge_def s dom map_add_def restrict_map_def split: option.splits)
    then show ?thesis unfolding spec_mset_def using False db'(2) by (intro meets_exactly) auto
  qed
qed

lemma mget_refines: "db_refines handle_mget spec_mget"
proof (rule db_refinesI)
  fix e now ws db c db' c'
  assume inv: "db_inv db" and now: "\<And>i. now_ms e i = now" and ne: "ws \<noteq> []"
    and h: "handle_mget e (argv ws) (db, c) = (db', c')"
  let ?c = "resp_array_header c (wrap_i64 (int (length ws - 1)))"
  have loop: "mget_loop e (argv ws) 1 (db, ?c) = (db', c')" using h by (simp add: handle_mget_def)
  have t: "\<forall>j\<ge>1. now \<le> now_ms e j" by (simp add: now)
  note s = mget_loop_facts [OF inv t loop, unfolded now arg_word argv_simps]
  have "map (\<lambda>j. wire (bulk_or_nil (live db now (word ws j)))) [1..<length ws] =
      map wire (map (\<lambda>k. bulk_or_nil (live db now k)) (tl ws))"
    by (rule nth_equalityI) (auto simp: nth_tl word_def One_nat_def simp del: upt_Suc)
  then have c': "c' = append_response c (wire (RespArray (map (\<lambda>k. bulk_or_nil (live db now k)) (tl ws))))"
    using s(3) by (simp add: resp_array_header_bytes)
  have "same_from now db db'" using s(2) by (simp add: same_from_def)
  then show "meets spec_mget now ws (db, c) (db', c')"
    unfolding spec_mget_def by (rule meets_read [OF _ _ c', rotated]) simp
qed

section \<open>Key commands\<close>

lemma words_image: "word ws ` {1..<length ws} = set (tl ws)"
proof (cases ws)
  case (Cons w xs)
  have "word ws ` {1..<length ws} = word ws ` Suc ` {0..<length xs}"
    by (simp add: Cons image_Suc_atLeastLessThan One_nat_def)
  also have "\<dots> = (\<lambda>i. xs ! i) ` {0..<length xs}" 
    unfolding image_image by (intro image_cong) (auto simp: Cons word_def)
  also have "\<dots> = set xs" by (auto simp: set_conv_nth)
  finally show ?thesis by (simp add: Cons)
qed simp

lemma dom_live_vals: "dom (live db now) \<subseteq> dom (vals db)"
  by (auto simp: live_def split: if_splits)

lemma del_refines: "db_refines handle_del spec_del"
proof (rule db_refinesI)
  fix e now ws db c db' c'
  assume inv: "db_inv db" and small: "in_i64 (int (length ws))" and h: "handle_del e (argv ws) (db, c) = (db', c')"
  have "in_i64 (int (length (argv ws)))" using small by simp
  from handle_del_eq [OF inv this h]
  have s: "vals db' = vals db |` (- set (tl ws))" "ttls db' = ttls db |` (- set (tl ws))"
    "c' = resp_integer c (int (card (set (tl ws) \<inter> dom (vals db))))"
    by (simp_all add: words_image)
  have "card (set (tl ws) \<inter> dom (view now db)) \<le> card (set (tl ws) \<inter> dom (vals db))"
    "card (set (tl ws) \<inter> dom (vals db)) \<le> card (set (tl ws))"
    using dom_live_vals [of db now] by (auto intro!: card_mono)
  then show "meets spec_del now ws (db, c) (db', c')"
    by (intro meetsI [OF _ view_remove [OF s(1,2)]]) (auto simp: spec_del_def s(3) reply_forms)
qed

lemma exists_loop_same:
  assumes "db_inv db" "\<forall>i. now_ms e i = now"
  shows "same_from now db (fst (exists_loop e args i db n))"
  using assms
proof (induction e args i db n rule: exists_loop.induct)
  case (1 e args i db n)
  obtain db1 b where ex: "db_exists db (arg_str args i) now (now_s e i) = (db1, b)" by fastforce
  note l = exists_facts [OF 1(2) ex]
  show ?case
  proof (cases "i < length args")
    case True
    then have "same_from now db1 (fst (exists_loop e args (i + 1) db1 (if b then wrap_i64 (n + 1) else n)))"
      using 1(1) [OF True ex [symmetric, folded 1(3) [rule_format, of i]] l(1)] 1(3) by simp
    then show ?thesis using True ex l(3) 1(3) by (auto simp: exists_loop.simps [of e args i] intro: same_from_trans)
  qed (simp add: exists_loop.simps [of e args i])
qed

lemma exists_refines: "db_refines handle_exists spec_exists"
proof (rule db_refinesI)
  fix e now ws db c db' c'
  assume inv: "db_inv db" and now: "\<And>i. now_ms e i = now" and ne: "ws \<noteq> []" and small: "in_i64 (int (length ws))"
    and h: "handle_exists e (argv ws) (db, c) = (db', c')"
  obtain n where loop: "exists_loop e (argv ws) 1 db 0 = (db', n)" and c': "c' = resp_integer c n"
    using h by (auto simp: handle_exists_def split: prod.splits)
  have "in_i64 (int (length (argv ws)))" "1 \<le> length (argv ws)" using small ne by (cases ws; simp)+
  from exists_loop_count [OF inv this(1) order_refl _ this(2), of e] loop
  have n: "n = int (length (filter (\<lambda>j. live db now (word ws j) \<noteq> None) [1..<length ws]))" by (simp add: now)
  have "map (word ws) [1..<length ws] = tl ws"
    by (rule nth_equalityI) (auto simp: nth_tl word_def One_nat_def simp del: upt_Suc)
  then have "filter (\<lambda>k. live db now k \<noteq> None) (tl ws) =
      map (word ws) (filter (\<lambda>j. live db now (word ws j) \<noteq> None) [1..<length ws])"
    by (metis (no_types, lifting) comp_apply filter_cong filter_map)
  then have "n = int (length (filter (\<lambda>k. live db now k \<noteq> None) (tl ws)))" by (simp add: n)
  moreover have "same_from now db db'" using exists_loop_same [OF inv, of e now "argv ws" 1 0] now loop by simp
  ultimately show "meets spec_exists now ws (db, c) (db', c')"
    unfolding spec_exists_def by (intro meets_read) (auto simp: c' reply_forms)
qed

lemma type_refines: "db_refines handle_type spec_type"
proof (rule db_refinesI)
  fix e now ws db c db' c'
  assume inv: "db_inv db" and now: "\<And>i. now_ms e i = now" and h: "handle_type e (argv ws) (db, c) = (db', c')"
  obtain db1 r where g: "db_peek db (word ws 1) now = (db1, r)" by fastforce
  note p = db_peek_facts [OF inv g]
  have ty: "obj_type ob = type_code ObjString" if "r = Some ob" for ob using p(5) [OF that] wf_type by blast
  have "db' = db1 \<and> c' = append_response c (wire (SimpleString (if live db now (word ws 1) = None then ''none'' else ''string'')))"
    using h g p(4) ty by (cases r) (auto simp: handle_type_def now reply_forms simp del: wire.simps)
  then show "meets spec_type now ws (db, c) (db', c')"
    unfolding spec_type_def using view_eq [OF p(2,3)] by (intro meets_exactly) auto
qed

lemma meets_expire:
  assumes "if number (word ws 2) = None then db' = db \<and> c' = resp_error c not_integer
    else \<exists>n. number (word ws 2) = Some n \<and> expire_spec db now (word ws 1) (deadline now n) c db' c'"
  shows "meets (exactly (expire_at deadline)) now ws (db, c) (db', c')"
proof -
  let ?k = "word ws 1"
  consider "number (word ws 2) = None" | n where "number (word ws 2) = Some n" "live db now ?k = None"
    | n v where "number (word ws 2) = Some n" "live db now ?k = Some v" by fastforce
  then show ?thesis
  proof cases
    case 1
    then show ?thesis using assms by (intro meets_read) (simp_all add: expire_at_def reply_forms del: wire.simps)
  next
    case 2
    then have "view now db ?k = None" by simp
    then show ?thesis using assms 2
      by (intro meets_read) (simp_all add: expire_at_def expire_spec_def reply_forms del: wire.simps view_None)
  next
    case 3
    then have s: "vals db' = vals db" "ttls db' = (ttls db)(?k \<mapsto> deadline now n)" "c' = append_response c (wire (RespInteger 1))"
      using assms by (simp_all add: expire_spec_def reply_forms del: wire.simps)
    have v: "vals db ?k = Some v" "view now db ?k = Some (v, ttls db ?k)"
      using 3(2) by (auto simp: live_def view_def split: if_splits)
    then have "vals db' = (vals db)(?k \<mapsto> v)" using s(1) by auto
    then show ?thesis
      by (rule meets_exactly [OF _ view_store [OF _ s(2)] s(3), rotated]) (simp add: expire_at_def 3(1) v(2))
  qed
qed

lemma expire_refines: "db_refines handle_expire spec_expire"
  and pexpire_refines: "db_refines handle_pexpire spec_pexpire"
  and expireat_refines: "db_refines handle_expireat spec_expireat"
proof -
  show "db_refines handle_expire spec_expire"
  proof (rule db_refines_number)
    fix e now ws db c db' c' ec n k
    assume inv: "db_inv db" and now: "\<And>i. now_ms e i = now" and h: "handle_expire e (argv ws) (db, c) = (db', c')"
      and fc: "from_chars (word ws 2) = (ec, n, k)" "number (word ws 2) = (if ec = ErrcOk then Some n else None)"
    show "meets spec_expire now ws (db, c) (db', c')"
      unfolding spec_expire_def
      using handle_expire_eq [OF inv h, unfolded arg_word now, OF fc(1)] fc(2) by (intro meets_expire) simp
  qed
  show "db_refines handle_pexpire spec_pexpire"
  proof (rule db_refines_number)
    fix e now ws db c db' c' ec n k
    assume inv: "db_inv db" and now: "\<And>i. now_ms e i = now" and h: "handle_pexpire e (argv ws) (db, c) = (db', c')"
      and fc: "from_chars (word ws 2) = (ec, n, k)" "number (word ws 2) = (if ec = ErrcOk then Some n else None)"
    show "meets spec_pexpire now ws (db, c) (db', c')"
      unfolding spec_pexpire_def
      using handle_pexpire_eq [OF inv h, unfolded arg_word now, OF fc(1)] fc(2) by (intro meets_expire) simp
  qed
  show "db_refines handle_expireat spec_expireat"
  proof (rule db_refines_number)
    fix e now ws db c db' c' ec n k
    assume inv: "db_inv db" and now: "\<And>i. now_ms e i = now" and h: "handle_expireat e (argv ws) (db, c) = (db', c')"
      and fc: "from_chars (word ws 2) = (ec, n, k)" "number (word ws 2) = (if ec = ErrcOk then Some n else None)"
    show "meets spec_expireat now ws (db, c) (db', c')"
      unfolding spec_expireat_def
      using handle_expireat_eq [OF inv h, unfolded arg_word now, OF fc(1)] fc(2) by (intro meets_expire) simp
  qed
qed

lemma persist_refines: "db_refines handle_persist spec_persist"
proof (rule db_refinesI)
  fix e now ws db c db' c'
  assume inv: "db_inv db" and now: "\<And>i. now_ms e i = now" and h: "handle_persist e (argv ws) (db, c) = (db', c')"
  note s = handle_persist_eq [OF inv h, unfolded arg_word now]
  show "meets spec_persist now ws (db, c) (db', c')"
  proof (cases "live db now (word ws 1)")
    case None
    then have "view now db (word ws 1) = None" by simp
    then show ?thesis using s None unfolding spec_persist_def
      by (intro meets_read) (simp_all add: reply_forms del: wire.simps view_None)
  next
    case (Some v)
    then have v: "vals db (word ws 1) = Some v" "view now db (word ws 1) = Some (v, ttls db (word ws 1))"
      by (auto simp: live_def view_def split: if_splits)
    have s: "vals db' = vals db" "ttls db' = (ttls db)(word ws 1 := None)" "c' = append_response c (wire (RespInteger 1))"
      using s Some by (simp_all add: reply_forms del: wire.simps)
    have "vals db' = (vals db)(word ws 1 \<mapsto> v)" using s(1) v(1) by auto
    then show ?thesis unfolding spec_persist_def
      by (rule meets_exactly [OF _ view_store [OF _ s(2)] s(3), rotated]) (simp add: v(2))
  qed
qed

lemma remaining_view:
  assumes "db_inv db" "0 \<le> now"
  shows "case view now db k of
      None \<Rightarrow> remaining db now k = - 2 \<or> 0 \<le> remaining db now k
    | Some (v, None) \<Rightarrow> remaining db now k = - 1
    | Some (v, Some d) \<Rightarrow> remaining db now k = d - now \<and> now < d"
proof -
  have "in_i64 (d - now)" if "ttls db k = Some d" "now < d" for d
    using that assms db_invD(5) [OF assms(1), of k d] by (auto simp: ttls_def in_i64_def LLONG_MIN_def)
  then show ?thesis
    by (auto simp: view_def live_def dead_def remaining_def not_le split: option.splits)
qed

lemma ttl_refines: "db_refines handle_ttl spec_ttl"
  and pttl_refines: "db_refines handle_pttl spec_pttl"
proof -
  show "db_refines handle_ttl spec_ttl"
  proof (rule db_refinesI)
    fix e now ws db c db' c'
    assume inv: "db_inv db" "0 \<le> now" and now: "\<And>i. now_ms e i = now" and h: "handle_ttl e (argv ws) (db, c) = (db', c')"
    note s = handle_ttl_eq [OF inv(1) h, unfolded arg_word now] and r = remaining_view [OF inv, of "word ws 1"]
    have "time_left 1000 now ws (view now db) (RespInteger (if remaining db now (word ws 1) < 0
        then remaining db now (word ws 1) else remaining db now (word ws 1) div 1000))"
      using r by (auto simp: time_left_def simp del: view_None split: option.splits)
    then show "meets spec_ttl now ws (db, c) (db', c')"
      using s view_eq [of db' db now] by (intro meetsI) (auto simp: spec_ttl_def reply_forms simp del: wire.simps)
  qed
  show "db_refines handle_pttl spec_pttl"
  proof (rule db_refinesI)
    fix e now ws db c db' c'
    assume inv: "db_inv db" "0 \<le> now" and now: "\<And>i. now_ms e i = now" and h: "handle_pttl e (argv ws) (db, c) = (db', c')"
    note s = handle_pttl_eq [OF inv(1) h, unfolded arg_word now] and r = remaining_view [OF inv, of "word ws 1"]
    have "time_left 1 now ws (view now db) (RespInteger (remaining db now (word ws 1)))"
      using r by (auto simp: time_left_def simp del: view_None split: option.splits)
    then show "meets spec_pttl now ws (db, c) (db', c')"
      using s view_eq [of db' db now] by (intro meetsI) (auto simp: spec_pttl_def reply_forms simp del: wire.simps)
  qed
qed

lemma keys_refines: "db_refines handle_keys spec_keys"
proof (rule db_refinesI)
  fix e now ws db c db' c'
  assume inv: "db_inv db" and now: "\<And>i. now_ms e i = now" and h: "handle_keys e (argv ws) (db, c) = (db', c')"
  obtain ks where k: "db' = db" "distinct ks" "set ks = {k. glob (word ws 1) k \<and> live db now k \<noteq> None}"
    "c' = append_response c (wire (RespArray (map BulkString ks)))"
    using handle_keys_eq [OF inv h, unfolded arg_word now] by blast
  show "meets spec_keys now ws (db, c) (db', c')"
    using k by (intro meetsI [where st' = "view now db"]) (auto simp: spec_keys_def dom_def simp del: wire.simps)
qed

lemma rename_refines: "db_refines handle_rename spec_rename"
proof (rule db_refinesI)
  fix e now ws db c db' c'
  assume inv: "db_inv db" and now: "\<And>i. now_ms e i = now" and h: "handle_rename e (argv ws) (db, c) = (db', c')"
  note s = handle_rename_eq [OF inv h, unfolded arg_word now]
  show "meets spec_rename now ws (db, c) (db', c')"
  proof (cases "live db now (word ws 1)")
    case None
    then have "view now db (word ws 1) = None" by simp
    then show ?thesis using s None unfolding spec_rename_def
      by (intro meets_read) (simp_all add: reply_forms del: wire.simps view_None)
  next
    case (Some v)
    then have v: "view now db (word ws 1) = Some (v, ttls db (word ws 1))" by (simp add: view_def)
    have "view now db' = purge now ((view now db)(word ws 1 := None, word ws 2 \<mapsto> (v, None)))"
      using s Some by (auto simp: fun_eq_iff view_alt purge_def split: option.splits)
    then show ?thesis using s Some v unfolding spec_rename_def
      by (intro meets_exactly) (auto simp: reply_forms simp del: wire.simps)
  qed
qed

lemma dbsize_refines: "db_refines handle_dbsize spec_dbsize"
proof (rule db_refinesI)
  fix e now ws db c db' c'
  assume inv: "db_inv db" and h: "handle_dbsize e (argv ws) (db, c) = (db', c')"
  have "card (dom (live db now)) \<le> dbsize db"
    unfolding dbsize_facts [OF inv] by (intro card_mono finite_vals [OF inv] dom_live_vals)
  then show "meets spec_dbsize now ws (db, c) (db', c')"
    using h by (intro meetsI [where st' = "view now db"])
      (auto simp: spec_dbsize_def handle_dbsize_def reply_forms simp del: wire.simps)
qed

section \<open>Server commands\<close>

definition handler_refines :: "handler \<Rightarrow> operation \<Rightarrow> bool" where
  "handler_refines h oper \<longleftrightarrow>
     (\<forall>e now ws s c s' c'. db_inv (database s) \<longrightarrow> still e now \<longrightarrow> ws \<noteq> [] \<longrightarrow> in_i64 (int (length ws)) \<longrightarrow>
        h e (argv ws) (s, c) = (s', c') \<longrightarrow> meets oper now ws (database s, c) (database s', c'))"

lemma on_db_refines: "db_refines h oper \<Longrightarrow> handler_refines (on_db h) oper"
  by (fastforce simp: db_refines_def handler_refines_def on_db_def split: prod.splits)

lemma handler_refinesI:
  assumes "\<And>e now ws s c s' c'. db_inv (database s) \<Longrightarrow> h e (argv ws) (s, c) = (s', c') \<Longrightarrow>
    \<exists>st r. oper now ws (view now (database s)) st r \<and> view now (database s') = purge now st \<and>
      write_buf c' = write_buf c @ wire r"
  shows "handler_refines h oper"
  using assms by (simp add: handler_refines_def meets_def)

text \<open>The commands that leave the data alone.\<close>

lemma handler_refines_read:
  assumes "\<And>e now ws s c s' c'. db_inv (database s) \<Longrightarrow> h e (argv ws) (s, c) = (s', c') \<Longrightarrow>
    vals (database s') = vals (database s) \<and> ttls (database s') = ttls (database s) \<and>
    (\<exists>r. oper now ws (view now (database s)) (view now (database s)) r \<and> write_buf c' = write_buf c @ wire r)"
  shows "handler_refines h oper"
proof (rule handler_refinesI)
  fix e now ws s c s' c'
  assume a: "db_inv (database s)" "h e (argv ws) (s, c) = (s', c')"
  then obtain r where r: "vals (database s') = vals (database s)" "ttls (database s') = ttls (database s)"
    "oper now ws (view now (database s)) (view now (database s)) r" "write_buf c' = write_buf c @ wire r"
    using assms by blast
  show "\<exists>st r. oper now ws (view now (database s)) st r \<and> view now (database s') = purge now st \<and>
      write_buf c' = write_buf c @ wire r"
    using r(3,4) view_eq [OF r(1,2)] by (intro exI [of _ "view now (database s)"] exI [of _ r]) simp
qed

lemma number_zero: "number s = Some 0 \<longleftrightarrow> (\<exists>k. from_chars s = (ErrcOk, 0, k))"
  by (cases "from_chars s") (auto simp: number_def)

lemma server_refines:
  "handler_refines handle_ping spec_ping" "handler_refines handle_echo spec_echo"
  "handler_refines handle_flushdb spec_flushdb" "handler_refines handle_info spec_info"
  "handler_refines handle_save spec_save" "handler_refines handle_bgsave spec_bgsave"
  "handler_refines handle_select spec_select" "handler_refines handle_quit spec_quit"
proof -
  note read = handler_refines_read and forms = reply_forms exactly_def
  show "handler_refines handle_ping spec_ping"
    by (rule read) (auto simp: handle_ping_def spec_ping_def forms simp del: wire.simps split: if_splits)
  show "handler_refines handle_echo spec_echo"
    by (rule read) (auto simp: handle_echo_def spec_echo_def forms simp del: wire.simps)
  show "handler_refines handle_info spec_info"
    by (rule read) (auto simp: handle_info_def spec_info_def forms simp del: wire.simps)
  show "handler_refines handle_quit spec_quit"
    by (rule read) (auto simp: handle_quit_def spec_quit_def set_state_def forms simp del: wire.simps)
  show "handler_refines handle_select spec_select"
    by (rule read)
      (auto simp: handle_select_def spec_select_def number_zero forms simp del: wire.simps split: prod.splits if_splits)
  show "handler_refines handle_bgsave spec_bgsave"
    by (rule read) (auto simp: handle_bgsave_def spec_bgsave_def Let_def forms simp del: wire.simps split: prod.splits if_splits)
  show "handler_refines handle_save spec_save"
  proof (rule read)
    fix e now ws s c s' c'
    assume a: "db_inv (database s)" "handle_save e (argv ws) (s, c) = (s', c')"
    obtain db fs st where r: "rdb_save_sync (save_calls e) (cfg_rdb_filename (config s)) (database s) (disk s) = (db, fs, st)"
      by (metis surj_pair)
    show "vals (database s') = vals (database s) \<and> ttls (database s') = ttls (database s) \<and>
      (\<exists>r. spec_save now ws (view now (database s)) (view now (database s)) r \<and> write_buf c' = write_buf c @ wire r)"
      using a(2) rdb_save_sync_facts(1) [OF a(1) r]
      by (auto simp: handle_save_def r same_db_def Let_def spec_save_def forms simp del: wire.simps split: if_splits)
  qed
  show "handler_refines handle_flushdb spec_flushdb"
  proof (rule handler_refinesI)
    fix e now ws s c s' c'
    assume a: "db_inv (database s)" "handle_flushdb e (argv ws) (s, c) = (s', c')"
    have "view now (database s') = purge now Map.empty"
      using a db_flush_facts [OF a(1)] by (auto simp: handle_flushdb_def view_alt fun_eq_iff purge_def)
    then show "\<exists>st r. spec_flushdb now ws (view now (database s)) st r \<and> view now (database s') = purge now st \<and>
        write_buf c' = write_buf c @ wire r"
      using a(2) by (intro exI [of _ Map.empty] exI [of _ okay])
        (auto simp: handle_flushdb_def spec_flushdb_def forms simp del: wire.simps)
  qed
qed

section \<open>The registry\<close>

definition entry_refines :: "command_entry \<Rightarrow> string \<times> nat \<times> nat option \<times> operation \<Rightarrow> bool" where
  "entry_refines entry spec =
     (case spec of (name, lo, hi, oper) \<Rightarrow>
        ce_name entry = name \<and> arity_min entry = int lo \<and>
        arity_max entry = (case hi of None \<Rightarrow> - 1 | Some m \<Rightarrow> int m) \<and> handler_refines (ce_handler entry) oper)"

lemmas all_refine = server_refines
  set_refines [THEN on_db_refines] get_refines [THEN on_db_refines] getset_refines [THEN on_db_refines]
  mset_refines [THEN on_db_refines] mget_refines [THEN on_db_refines] append_refines [THEN on_db_refines]
  strlen_refines [THEN on_db_refines] incr_refines [THEN on_db_refines] incrby_refines [THEN on_db_refines]
  decr_refines [THEN on_db_refines] decrby_refines [THEN on_db_refines] setex_refines [THEN on_db_refines]
  psetex_refines [THEN on_db_refines] setnx_refines [THEN on_db_refines] del_refines [THEN on_db_refines]
  exists_refines [THEN on_db_refines] type_refines [THEN on_db_refines] expire_refines [THEN on_db_refines]
  pexpire_refines [THEN on_db_refines] expireat_refines [THEN on_db_refines] ttl_refines [THEN on_db_refines]
  pttl_refines [THEN on_db_refines] persist_refines [THEN on_db_refines] keys_refines [THEN on_db_refines]
  rename_refines [THEN on_db_refines] dbsize_refines [THEN on_db_refines]

lemma registry_refines: "list_all2 entry_refines all_commands spec_table"
  unfolding all_commands_def string_commands_def key_commands_def server_commands_def spec_table_def
  by (simp add: entry_refines_def cmd_def all_refine)

lemma find_related:
  assumes "list_all2 P xs ys" "\<And>x y. P x y \<Longrightarrow> p x \<longleftrightarrow> q y"
  shows "rel_option P (find p xs) (find q ys)"
  using assms(1) by (induction rule: list_all2_induct) (use assms(2) in auto)

text \<open>A handler sees the number of its arguments and their text.\<close>

definition same_args :: "resp_value list \<Rightarrow> resp_value list \<Rightarrow> bool" where
  "same_args a b \<longleftrightarrow> length a = length b \<and> (\<forall>i. arg_str a i = arg_str b i)"

lemma same_argsD: "same_args a b \<Longrightarrow> length a = length b" "same_args a b \<Longrightarrow> arg_str a i = arg_str b i"
  by (simp_all add: same_args_def)

lemma same_args_argv: "same_args args (argv (map rv_str args))"
  by (auto simp: same_args_def arg_str_def argv_def)

lemma set_options_same: "same_args a b \<Longrightarrow> set_options a i x nx xx = set_options b i x nx xx"
proof (induction a i x nx xx rule: set_options.induct)
  case (1 a i x nx xx)
  note eq = same_argsD [OF 1(6)]
  obtain ec v n where "from_chars (arg_str b (i + 1)) = (ec, v, n)" by (cases "from_chars (arg_str b (i + 1))")
  then show ?case
    using 1 by (simp add: set_options.simps [of a i] set_options.simps [of b i] eq Let_def)
qed

lemma mset_loop_same: "same_args a b \<Longrightarrow> mset_loop e a i db = mset_loop e b i db"
proof (induction e a i db rule: mset_loop.induct)
  case (1 e a i db)
  note eq = same_argsD [OF 1(2)]
  show ?case using 1 by (simp add: mset_loop.simps [of e a i] mset_loop.simps [of e b i] eq)
qed

lemma mget_loop_same: "same_args a b \<Longrightarrow> mget_loop e a i dc = mget_loop e b i dc"
proof (induction e a i dc rule: mget_loop.induct)
  case (1 e a i dc)
  note eq = same_argsD [OF 1(2)]
  show ?case using 1 by (simp add: mget_loop.simps [of e a i] mget_loop.simps [of e b i] eq)
qed

lemma del_loop_same: "same_args a b \<Longrightarrow> del_loop a i db n = del_loop b i db n"
proof (induction a i db n rule: del_loop.induct)
  case (1 a i db n)
  note eq = same_argsD [OF 1(2)]
  show ?case using 1 by (auto simp: del_loop.simps [of a i] del_loop.simps [of b i] eq split: prod.split)
qed

lemma exists_loop_same_args: "same_args a b \<Longrightarrow> exists_loop e a i db n = exists_loop e b i db n"
proof (induction e a i db n rule: exists_loop.induct)
  case (1 e a i db n)
  note eq = same_argsD [OF 1(2)]
  show ?case using 1 by (auto simp: exists_loop.simps [of e a i] exists_loop.simps [of e b i] eq split: prod.split)
qed

lemma handlers_same:
  assumes "same_args a b" "entry \<in> set all_commands"
  shows "ce_handler entry e a sc = ce_handler entry e b sc"
proof -
  note eq = same_argsD [OF assms(1)] set_options_same [OF assms(1)] mset_loop_same [OF assms(1)]
    mget_loop_same [OF assms(1)] del_loop_same [OF assms(1)] exists_loop_same_args [OF assms(1)]
  obtain s c where sc: "sc = (s, c)" by fastforce
  have "\<forall>entry\<in>set string_commands. ce_handler entry e a sc = ce_handler entry e b sc"
    by (simp add: string_commands_def cmd_def on_db_def handle_set_def handle_get_def handle_getset_def handle_mset_def
        handle_mget_def handle_append_def handle_strlen_def handle_incr_def handle_incrby_def handle_decr_def
        handle_decrby_def handle_setex_def handle_psetex_def handle_setnx_def eq sc)
  moreover have "\<forall>entry\<in>set key_commands. ce_handler entry e a sc = ce_handler entry e b sc"
    by (simp add: key_commands_def cmd_def on_db_def handle_del_def handle_exists_def handle_type_def handle_expire_def
        handle_pexpire_def handle_expireat_def handle_ttl_def handle_pttl_def handle_persist_def handle_keys_def
        handle_rename_def handle_dbsize_def eq sc)
  moreover have "\<forall>entry\<in>set server_commands. ce_handler entry e a sc = ce_handler entry e b sc"
    by (simp add: server_commands_def cmd_def handle_ping_def handle_echo_def handle_flushdb_def handle_info_def
        handle_save_def handle_bgsave_def handle_select_def handle_quit_def eq sc)
  ultimately show ?thesis using assms(2) by (auto simp: all_commands_def)
qed

lemma to_upper_twice [simp]: "to_upper (to_upper s) = to_upper s"
proof -
  have "toupper_char (toupper_char c) = toupper_char c" for c by (auto simp: toupper_char_def)
  then show ?thesis by (simp add: to_upper_def comp_def)
qed

text \<open>What an ordinary client sends: an array of bulk strings.\<close>

definition request :: "string list \<Rightarrow> resp_value" where
  "request ws = RespArray (argv ws)"

lemma permits_request:
  "permits now (request (w # ws)) st st' r \<longleftrightarrow>
     (case find (\<lambda>c. fst c = to_upper w) spec_table of
        None \<Rightarrow> st' = st \<and> r = fault (''unknown command `'' @ to_upper w @ ''`'')
      | Some (name, lo, hi, meaning) \<Rightarrow>
          if arity_fits lo hi (length (w # ws)) then meaning now (w # ws) st st' r
          else st' = st \<and>
            r = fault (''wrong number of arguments for '' @ [CHR 0x27] @ name @ [CHR 0x27] @ '' command''))"
  by (simp add: permits_def request_def argv_def words_of_def comp_def Let_def split: option.split)

lemma meets_same:
  "oper now ws (view now db) (view now db) r \<Longrightarrow> write_buf c' = write_buf c @ wire r \<Longrightarrow> meets oper now ws (db, c) (db, c')"
  using meetsI [of oper now ws db "view now db" r db c' c] by simp

lemma registered_command:
  "rel_option entry_refines (registry_find register_all_commands (to_upper w)) (find (\<lambda>x. fst x = to_upper w) spec_table)"
  unfolding registry_find_name to_upper_twice
  by (rule find_related [OF registry_refines]) (auto simp: entry_refines_def)

lemma registry_find_set: "registry_find register_all_commands w = Some entry \<Longrightarrow> entry \<in> set all_commands"
  by (auto simp: registry_find_name find_Some_iff)

text \<open>Executing any value is a step that the interpreter permits.\<close>

lemma execute_refines:
  assumes inv: "db_inv (database s)" and still: "still e now" and small: "in_i64 (int (length (rv_elements v)))"
    and x: "execute register_all_commands e v (s, c) = (s', c')"
  shows "meets permits now v (database s, c) (database s', c')"
proof (cases "rv_elements v = [] \<or> \<not> is_bulk_string (hd (rv_elements v))")
  case True
  have "is_array v \<or> rv_elements v = []" by (cases v) simp_all
  then show ?thesis using x True
    by (auto simp: execute_def permits_def reply_forms simp del: wire.simps split: if_splits intro!: meets_same)
next
  case False
  let ?args = "rv_elements v" and ?ws = "words_of v"
  have v: "is_array v" "?args \<noteq> []" "is_bulk_string (hd ?args)" using False by (cases v; simp)+
  have hd: "rv_str (hd ?args) = hd ?ws" "?ws \<noteq> []" "length ?args = length ?ws"
    using v(2) by (simp_all add: words_of_def hd_map)
  note simps = execute_def v hd Let_def permits_def record_command_def reply_forms
  show ?thesis
  proof (cases "registry_find register_all_commands (to_upper (hd ?ws))")
    case None
    then have "find (\<lambda>x. fst x = to_upper (hd ?ws)) spec_table = None" using registered_command [of "hd ?ws"] by simp
    then show ?thesis using x None by (auto simp: simps simp del: wire.simps intro!: meets_same)
  next
    case (Some entry)
    then obtain name lo hi oper where sp: "find (\<lambda>x. fst x = to_upper (hd ?ws)) spec_table = Some (name, lo, hi, oper)"
      and en: "ce_name entry = name" "arity_min entry = int lo"
        "arity_max entry = (case hi of None \<Rightarrow> - 1 | Some m \<Rightarrow> int m)" "handler_refines (ce_handler entry) oper"
      using registered_command [of "hd ?ws"] by (auto simp: entry_refines_def option_rel_Some1)
    have ar: "int (length ?ws) < arity_min entry \<or> (arity_max entry \<noteq> - 1 \<and> arity_max entry < int (length ?ws))
      \<longleftrightarrow> \<not> arity_fits lo hi (length ?ws)"
      using en(2,3) by (auto simp: arity_fits_def split: option.splits)
    show ?thesis
    proof (cases "arity_fits lo hi (length ?ws)")
      case True
      obtain s1 c1 where h: "ce_handler entry e ?args (s, c) = (s1, c1)" by fastforce
      have "database s' = database s1" "c' = c1"
        using x ar True h by (auto simp: simps Some split: if_splits)
      moreover have "ce_handler entry e (argv ?ws) (s, c) = (s1, c1)"
        using h handlers_same [OF same_args_argv registry_find_set [OF Some]] by (simp add: words_of_def)
      then have "meets oper now ?ws (database s, c) (database s1, c1)"
        using en(4) inv still small hd(2,3) by (auto simp: handler_refines_def)
      ultimately show ?thesis using True sp v by (simp add: meets_def permits_def Let_def)
    next
      case False
      then show ?thesis using x ar sp en(1) by (auto simp: simps Some simp del: wire.simps intro!: meets_same)
    qed
  qed
qed

section \<open>Runs\<close>

text \<open>
  The server as its clients see it: a request of some client on some connection, whose replies are
  what it adds to the write buffer, or a run of the periodic task. A command sees one reading of the
  millisecond clock, and readings never decrease.
\<close>

inductive server_step :: "i64 \<times> server \<Rightarrow> label \<Rightarrow> i64 \<times> server \<Rightarrow> bool" where
  serve: "t \<le> now \<Longrightarrow> still e now \<Longrightarrow> env_ok e \<Longrightarrow> in_i64 (int (length (rv_elements v))) \<Longrightarrow>
    execute register_all_commands e v (s, c) = (s', c') \<Longrightarrow> write_buf c' = write_buf c @ out \<Longrightarrow>
    server_step (t, s) (Some (v, out)) (now, s')"
| cron: "t \<le> now \<Longrightarrow> server_cron draws now secs s = (s', due) \<Longrightarrow>
    server_step (t, s) None (now, s')"

inductive runs :: "('s \<Rightarrow> 'l \<Rightarrow> 's \<Rightarrow> bool) \<Rightarrow> 's \<Rightarrow> 'l list \<Rightarrow> 's \<Rightarrow> bool" for step where
  runs_nil: "runs step s [] s"
| runs_step: "step s l s1 \<Longrightarrow> runs step s1 ls s2 \<Longrightarrow> runs step s (l # ls) s2"

inductive_simps runs_Nil: "runs step s [] s'"
inductive_simps runs_Cons: "runs step s (l # ls) s'"

locale forward_simulation =
  fixes cstep :: "'c \<Rightarrow> 'l \<Rightarrow> 'c \<Rightarrow> bool"
    and astep :: "'a \<Rightarrow> 'l \<Rightarrow> 'a \<Rightarrow> bool"
    and abst :: "'c \<Rightarrow> 'a"
    and good :: "'c \<Rightarrow> bool"
  assumes simulates: "good s \<Longrightarrow> cstep s l s' \<Longrightarrow> good s' \<and> astep (abst s) l (abst s')"
begin

lemma runs_simulate: "runs cstep s ls s' \<Longrightarrow> good s \<Longrightarrow> good s' \<and> runs astep (abst s) ls (abst s')"
proof (induction rule: runs.induct)
  case (runs_step s l s1 ls s2)
  then show ?case using simulates [of s l s1] runs.runs_step [of astep] by blast
qed (simp add: runs_nil)

end

definition shown :: "i64 \<times> server \<Rightarrow> i64 \<times> store" where
  "shown ts = (fst ts, view (fst ts) (database (snd ts)))"

lemma cron_same:
  assumes "db_inv (database s)" "server_cron draws now secs s = (s', due)"
  shows "db_inv (database s')" "same_from now (database s) (database s')"
proof -
  obtain db n where a: "active_expire_cycle draws now (database s) = (db, n)" by fastforce
  obtain S where S: "\<forall>k\<in>S. dead (database s) now k" "db_inv db" "vals db = vals (database s) |` (- S)"
    "ttls db = ttls (database s) |` (- S)"
    using active_cycle_facts [OF assms(1) a] by blast
  have s': "database s' = db_rehash_step db" using assms(2) a by (auto simp: server_cron_def Let_def)
  note r = db_rehash_step_facts [OF S(2)]
  show "db_inv (database s')" "same_from now (database s) (database s')"
    unfolding s' using S r by (auto intro!: live_remove_dead [of _ _ S])
qed

interpretation store_sim: forward_simulation server_step store_step shown "\<lambda>ts. db_inv (database (snd ts))"
proof
  fix ts l ts'
  assume inv: "db_inv (database (snd ts))" and step: "server_step ts l ts'"
  show "db_inv (database (snd ts')) \<and> store_step (shown ts) l (shown ts')"
    using step
  proof (cases rule: server_step.cases)
    case (serve t now e v s c s' c' out)
    have good: "db_inv (database s)" using inv serve(1) by simp
    obtain st r where r: "permits now v (view now (database s)) st r" "view now (database s') = purge now st" "out = wire r"
      using execute_refines [OF good serve(5,7,8)] serve(9) by (auto simp: meets_def)
    have "store_step (t, view t (database s)) (Some (v, wire r)) (now, purge now st)"
      using r(1) serve(4) by (intro ask) simp_all
    moreover have "db_inv (database s')"
      using commands.execute_inv [OF good serve(6,8)] by simp
    ultimately show ?thesis using serve r(2,3) by (simp add: shown_def)
  next
    case (cron t now draws secs s s' due)
    note c = cron_same [OF _ cron(5)]
    have "store_step (t, view t (database s)) None (now, purge now (view t (database s)))"
      using cron(4) by (rule idle)
    then show ?thesis using c inv cron view_same by (simp add: shown_def)
  qed
qed

text \<open>C3. The server is the store: in every run of requests (of any clients on any connections, any
  RESP2 values, known or unknown commands, with any arguments) and of the periodic task, at times that never decrease, the
  replies and the visible data are those of a run of the store machine, in which there are no
  dictionaries, no rehashing, no encodings and no expiry but the deadlines themselves.\<close>

theorem server_refines_store:
  assumes "db_inv (database s)" "runs server_step (t, s) ls (t', s')"
  shows "runs store_step (t, view t (database s)) ls (t', view t' (database s'))"
  using store_sim.runs_simulate [OF assms(2)] assms(1) by (simp add: shown_def)

lemma server_refines_store_witness:
  "\<exists>s' c'. execute register_all_commands (at_time 5) (request [''get'', ''b''])
       ((server_init Map.empty default_config 0)\<lparr>database := sample_db\<rparr>, client_one) = (s', c') \<and>
     write_buf c' = wire (BulkString (canonical_int ''y'')) \<and> view 5 (database s') = view 5 sample_db"
proof -
  let ?s = "(server_init Map.empty default_config 0)\<lparr>database := sample_db\<rparr>"
  obtain s' c' where x: "execute register_all_commands (at_time 5) (request [''get'', ''b'']) (?s, client_one) = (s', c')"
    by fastforce
  have inv: "db_inv (database ?s)" by (simp add: sample_db_facts)
  have still: "still (at_time 5) 5" by (simp add: still_def)
  obtain out where out: "write_buf c' = write_buf client_one @ out"
    using execute_refines [OF inv still _ x]
    by (auto simp: meets_def request_def in_i64_def LLONG_MIN_def LLONG_MAX_def)
  have "server_step (5, ?s) (Some (request [''get'', ''b''], out)) (5, s')"
    using still x out by (intro serve [of 5 5 "at_time 5"]) (simp_all add: request_def in_i64_def LLONG_MIN_def LLONG_MAX_def)
  then have run: "runs server_step (5, ?s) [Some (request [''get'', ''b''], out)] (5, s')" by (auto intro: runs.intros)
  have get: "find (\<lambda>c. fst c = to_upper ''get'') spec_table = Some (''GET'', 2, Some 2, spec_get)"
  proof -
    have "to_upper ''get'' = ''GET''" by code_simp
    then show ?thesis by (simp add: spec_table_def)
  qed
  obtain st r where r: "permits 5 (request [''get'', ''b'']) (view 5 sample_db) st r" "out = wire r" "view 5 (database s') = purge 5 st"
    using server_refines_store [OF inv run]
    by (auto simp: runs_Cons runs_Nil store_step.simps)
  then have "r = bulk_or_nil (live sample_db 5 ''b'') \<and> st = view 5 sample_db"
    by (simp add: permits_request get arity_fits_def spec_get_def exactly_def word_def One_nat_def)
  then show ?thesis
    using x r out
    by (simp add: live_def dead_def sample_db_facts bulk_or_nil_def client_one_def conn_new_def del: wire.simps)
qed

section \<open>Pipelines\<close>

lemma run_commands_runs:
  assumes "db_inv (database s)" "\<forall>n. env_ok (envs n) \<and> still (envs n) (clk n)" "\<forall>i j. i \<le> j \<longrightarrow> clk i \<le> clk j" "t \<le> clk i"
    and "\<forall>v\<in>set vs. in_i64 (int (length (rv_elements v)))"
    and "run_commands register_all_commands envs i vs (s, c) = (s', c')"
  shows "\<exists>outs t'. length outs = length vs \<and> write_buf c' = write_buf c @ concat outs \<and>
    runs server_step (t, s) (map Some (zip vs outs)) (t', s')"
  using assms
proof (induction vs arbitrary: s c i t)
  case Nil
  then show ?case by (intro exI [of _ "[]"] exI [of _ t]) (simp add: runs_nil)
next
  case (Cons v vs)
  let ?c = "consume (length (wire v)) c"
  obtain s1 c1 where x: "execute register_all_commands (envs i) v (s, ?c) = (s1, c1)" by fastforce
  have env: "env_ok (envs i)" "still (envs i) (clk i)" using Cons.prems(2) by blast+
  have good: "db_inv (database s1)" and "\<exists>out. write_buf c1 = write_buf ?c @ out"
    using commands.execute_inv [OF Cons.prems(1) env(1) x] by (auto simp: only_appends_def)
  then obtain out where out: "write_buf c1 = write_buf ?c @ out" by blast
  have step: "server_step (t, s) (Some (v, out)) (clk i, s1)"
    using Cons.prems(4,5) by (intro serve [OF _ env(2,1) _ x out]) simp_all
  have rest: "clk i \<le> clk (i + 1)" "\<forall>v\<in>set vs. in_i64 (int (length (rv_elements v)))"
    "run_commands register_all_commands envs (i + 1) vs (s1, c1) = (s', c')"
    using Cons.prems(3,5,6) x by simp_all
  from Cons.IH [OF good Cons.prems(2,3) rest] obtain outs t' where
    "length outs = length vs" "write_buf c' = write_buf c1 @ concat outs"
    "runs server_step (clk i, s1) (map Some (zip vs outs)) (t', s')" by blast
  moreover have "write_buf ?c = write_buf c" by (simp add: consume_def Let_def)
  ultimately show ?case using step out
    by (intro exI [of _ "out # outs"] exI [of _ t']) (simp add: runs.runs_step)
qed

lemma wire_ok_elements: "wire_ok v \<Longrightarrow> in_i64 (int (length (rv_elements v)))"
  by (cases v) simp_all

text \<open>What a client that pipelines requests receives is what the store machine answers: when the
  unread bytes are requests followed by an incomplete rest, one dispatch runs them in order, one after
  the other and each at its own time, and appends to the output exactly the replies that the store
  machine gives to these requests, started on what the database showed; the rest stays unread.\<close>

lemma dispatch_answers_as_store:
  assumes "db_inv (database s)" "conn_inv c" "\<forall>n. env_ok (envs n) \<and> still (envs n) (clk n)"
    and "\<forall>i j. i \<le> j \<longrightarrow> clk i \<le> clk j" "\<forall>v\<in>set vs. wire_ok v \<and> sizes_allowed rsv v"
    and "read_view c = concat (map wire vs) @ rest" "parse rsv rest = PIncomplete"
    and "dispatch rsv envs (s, c) = ((s', c'), outcome)"
  shows "outcome = DispatchDone \<and> read_view c' = rest \<and>
    (\<exists>outs t'. length outs = length vs \<and> write_buf c' = write_buf c @ concat outs \<and>
       runs store_step (clk 0, view (clk 0) (database s)) (map Some (zip vs outs)) (t', view t' (database s')))"
proof -
  have env: "\<forall>n. env_ok (envs n)" using assms(3) by blast
  obtain s1 c1 f where q: "dispatch_loop register_all_commands rsv (length (read_view c) + 1) envs 0 (s, c) =
      dispatch_loop register_all_commands rsv f envs (0 + length vs) (s1, c1)"
    "run_commands register_all_commands envs 0 vs (s, c) = (s1, c1)" "read_view c1 = rest" "length rest < f"
    using commands.pipeline [OF assms(1,2) env assms(5,6) less_add_one, of 0] by blast
  then have p: "dispatch rsv envs (s, c) = dispatch_loop register_all_commands rsv f envs (length vs) (s1, c1)"
    "run_commands register_all_commands envs 0 vs (s, c) = (s1, c1)" "read_view c1 = rest" "length rest < f"
    by (simp_all add: dispatch_def del: read_view_drop)
  have "dispatch_loop register_all_commands rsv f envs (length vs) (s1, c1) = ((s1, c1), DispatchDone)"
    using p(3,4) assms(7) by (cases f) (auto simp: Let_def)
  then have fin: "s1 = s'" "c1 = c'" "outcome = DispatchDone" using p(1) assms(8) by simp_all
  have small: "\<forall>v\<in>set vs. in_i64 (int (length (rv_elements v)))" using assms(5) wire_ok_elements by blast
  obtain outs t' where o: "length outs = length vs" "write_buf c' = write_buf c @ concat outs"
    "runs server_step (clk 0, s) (map Some (zip vs outs)) (t', s')"
    using run_commands_runs [OF assms(1,3,4) order_refl small p(2)] fin by blast
  show ?thesis using store_sim.runs_simulate [OF o(3)] assms(1) o(1,2) p(3) fin by (auto simp: shown_def)
qed

definition set_then_get :: "resp_value list" where
  "set_then_get = [request [''SET'', ''a'', ''x''], request [''get'', ''a'']]"

text \<open>What the store machine answers to them.\<close>

lemma store_answers_set_then_get:
  assumes "length outs = length set_then_get" "runs store_step (t0, view t0 db) (map Some (zip set_then_get outs)) ts"
  shows "concat outs = wire okay @ wire (BulkString ''x'')"
proof -
  have up: "to_upper ''SET'' = ''SET''" "to_upper ''get'' = ''GET''" "canonical_int ''x'' = ''x''" by code_simp+
  have find: "find (\<lambda>c. fst c = ''SET'') spec_table = Some (''SET'', 3, None, spec_set)"
    "find (\<lambda>c. fst c = ''GET'') spec_table = Some (''GET'', 2, Some 2, spec_get)" by (simp_all add: spec_table_def)
  obtain o1 o2 where o: "outs = [o1, o2]" using assms(1) by (auto simp: set_then_get_def length_Suc_conv)
  obtain t1 t2 st1 st2 r1 r2 where steps: "permits t1 (request [''SET'', ''a'', ''x'']) (view t1 db) st1 r1"
    "o1 = wire r1" "permits t2 (request [''get'', ''a'']) (purge t2 (purge t1 st1)) st2 r2" "o2 = wire r2"
    using assms(2) by (auto simp: o set_then_get_def runs_Cons runs_Nil store_step.simps)
  have "r1 = okay" "st1 = (view t1 db)(''a'' \<mapsto> (''x'', None))"
    using steps(1) by (simp_all add: permits_request up find arity_fits_def spec_set_def exactly_def word_def put_def asked_lifetime_def One_nat_def)
  moreover have "r2 = BulkString ''x''"
    using steps(3) calculation(2)
    by (auto simp: permits_request up find arity_fits_def spec_get_def exactly_def word_def text_at_def purge_def
        bulk_or_nil_def One_nat_def)
  ultimately show ?thesis using o steps(2,4) by simp
qed

lemma set_then_get_answers:
  "\<exists>s' c'. dispatch (\<lambda>_. True) (\<lambda>_. at_time 5) (empty_server, sample_conn (concat (map wire set_then_get))) =
     ((s', c'), DispatchDone) \<and> write_buf c' = wire okay @ wire (BulkString ''x'') \<and> read_view c' = []"
proof -
  let ?c = "sample_conn (concat (map wire set_then_get))"
  obtain s' c' r where d: "dispatch (\<lambda>_. True) (\<lambda>_. at_time 5) (empty_server, ?c) = ((s', c'), r)" by (metis surj_pair)
  have env: "\<forall>n::nat. env_ok (at_time 5) \<and> still (at_time 5) 5" by (simp add: still_def)
  have ok: "\<forall>v\<in>set set_then_get. wire_ok v \<and> sizes_allowed (\<lambda>_. True) v"
    by (simp add: set_then_get_def request_def argv_def in_i64_def LLONG_MAX_def LLONG_MIN_def)
  have more: "parse (\<lambda>_. True) [] = PIncomplete" by (simp add: parse_def parse_value.simps)
  have fin: "r = DispatchDone" "read_view c' = []"
    and "\<exists>outs t'. length outs = length set_then_get \<and> write_buf c' = write_buf ?c @ concat outs \<and>
      runs store_step (5, view 5 (database empty_server)) (map Some (zip set_then_get outs)) (t', view t' (database s'))"
    using dispatch_answers_as_store [OF sample_facts(4,1) env _ ok _ more d] by (simp_all del: read_view_drop)
  then obtain outs where "length outs = length set_then_get" "write_buf c' = concat outs"
    "concat outs = wire okay @ wire (BulkString ''x'')"
    using store_answers_set_then_get by auto
  then show ?thesis using d fin by simp
qed

section \<open>Where laziness shows\<close>

text \<open>The freedom that the store machine leaves to TTL and DEL is used: key \<open>a\<close> of the sample database
  expired at time 5; at time 7 no client can read it, but TTL answers 0 and DEL counts it.\<close>

lemma expired_keys_are_observable:
  "live sample_db 7 ''a'' = None \<and>
   snd (handle_ttl (at_time 7) (argv [''TTL'', ''a'']) (sample_db, c)) = resp_integer c 0 \<and>
   snd (handle_del (at_time 7) (argv [''DEL'', ''a'']) (sample_db, c)) = resp_integer c 1"
proof -
  obtain db1 c1 db2 c2 where h: "handle_ttl (at_time 7) (argv [''TTL'', ''a'']) (sample_db, c) = (db1, c1)"
    "handle_del (at_time 7) (argv [''DEL'', ''a'']) (sample_db, c) = (db2, c2)" by (metis surj_pair)
  have "remaining sample_db 7 ''a'' = 0" by (simp add: remaining_def sample_db_facts)
  then have "c1 = resp_integer c 0"
    using handle_ttl_eq [OF sample_db_facts(1) h(1)] by (simp add: word_def One_nat_def)
  moreover have "word [''DEL'', ''a''] ` {1..<length [''DEL'', ''a'']} = {''a''}" by (subst words_image) simp
  then have "c2 = resp_integer c 1"
    using handle_del_eq [OF sample_db_facts(1) _ h(2)]
    by (simp add: sample_db_facts in_i64_def LLONG_MAX_def LLONG_MIN_def)
  ultimately show ?thesis using h by (simp add: live_def dead_def sample_db_facts)
qed

text \<open>PERSIST answers 1 for every key that is there, with a deadline or without.\<close>

lemma persist_without_deadline:
  "ttls sample_db ''b'' = None \<and> snd (handle_persist (at_time 1) (argv [''PERSIST'', ''b'']) (sample_db, c)) = resp_integer c 1"
proof -
  obtain db1 c1 where h: "handle_persist (at_time 1) (argv [''PERSIST'', ''b'']) (sample_db, c) = (db1, c1)" by fastforce
  have "live sample_db 1 ''b'' \<noteq> None" by (simp add: live_def dead_def sample_db_facts)
  then show ?thesis
    using handle_persist_eq [OF sample_db_facts(1) h] h by (simp add: word_def One_nat_def sample_db_facts)
qed

end
