(* ===== verification/Requests.thy ===== *)
theory Requests
  imports Process Refinement
begin

text \<open>
  The requests in a stream of bytes, and the pipeline loop on arbitrary bytes: what it executes is
  exactly what the stream says, however it is cut, and what it answers is what the store machine
  answers.
\<close>

section \<open>The requests in a stream\<close>

text \<open>The values that stand at the start of a stream one after the other, and what follows them: an
  incomplete value, or bytes that are not RESP2.\<close>

function requests :: "(nat \<Rightarrow> bool) \<Rightarrow> string \<Rightarrow> resp_value list \<times> string" where
  "requests rsv bs =
     (case parse rsv bs of
        PComplete v n \<Rightarrow> (case requests rsv (drop n bs) of (vs, rest) \<Rightarrow> (v # vs, rest))
      | _ \<Rightarrow> ([], bs))"
  by pat_completeness auto
termination
proof (relation "measure (\<lambda>(rsv, bs). length bs)")
  show "((rsv, drop n bs), rsv, bs) \<in> measure (\<lambda>(rsv, bs). length bs)" if "parse rsv bs = PComplete v n" for rsv bs v n
    using parse_bounds(1) [OF that [unfolded parse_def]] by (simp; arith)
qed simp

declare requests.simps [simp del]

lemma requests_stuck: "\<forall>v n. parse rsv bs \<noteq> PComplete v n \<Longrightarrow> requests rsv bs = ([], bs)"
  by (subst requests.simps) (cases "parse rsv bs"; simp)

lemma requests_rest: "requests rsv bs = (vs, rest) \<Longrightarrow> parse rsv rest \<noteq> PComplete v n"
proof (induction rsv bs arbitrary: vs rest rule: requests.induct)
  case (1 rsv bs)
  show ?case
  proof (cases "parse rsv bs")
    case (PComplete u m)
    obtain ws r where r: "requests rsv (drop m bs) = (ws, r)" by fastforce
    then have "requests rsv bs = (u # ws, r)" by (subst requests.simps) (simp add: PComplete)
    then show ?thesis using 1(1) [OF PComplete r] 1(2) by simp
  qed (use 1(2) requests_stuck [of rsv bs] in auto)
qed

text \<open>More bytes only add requests.\<close>

lemma requests_append:
  assumes "requests rsv xs = (vs, rest)"
  shows "requests rsv (xs @ ys) = (case requests rsv (rest @ ys) of (vs', rest') \<Rightarrow> (vs @ vs', rest'))"
  using assms
proof (induction rsv xs arbitrary: vs rest rule: requests.induct)
  case (1 rsv xs)
  show ?case
  proof (cases "parse rsv xs")
    case (PComplete u m)
    have m: "m \<le> length xs" using parse_bounds(1) [OF PComplete [unfolded parse_def]] by simp
    obtain ws r where r: "requests rsv (drop m xs) = (ws, r)" by fastforce
    have xs: "vs = u # ws" "rest = r" using 1(2) r by (simp_all add: requests.simps [of rsv xs] PComplete)
    have "parse rsv (xs @ ys) = PComplete u m" using settled_parse_append [of rsv xs ys] PComplete by simp
    then have "requests rsv (xs @ ys) = (case requests rsv (drop m xs @ ys) of (vs', rest') \<Rightarrow> (u # vs', rest'))"
      using m by (simp add: requests.simps [of rsv "xs @ ys"])
    then show ?thesis using 1(1) [OF PComplete r] xs by (simp split: prod.splits)
  qed (use 1(2) requests_stuck [of rsv xs] in \<open>auto split: prod.split\<close>)
qed

lemma requests_wire:
  assumes "\<forall>v\<in>set vs. wire_ok v \<and> sizes_allowed rsv v" "\<forall>v n. parse rsv t \<noteq> PComplete v n"
  shows "requests rsv (concat (map wire vs) @ t) = (vs, t)"
  using assms(1)
proof (induction vs)
  case (Cons v vs)
  then have "parse rsv (wire v @ concat (map wire vs) @ t) = PComplete v (length (wire v))"
    by (intro parse_wire) simp_all
  then show ?case using Cons by (simp add: requests.simps [of rsv "wire v @ concat (map wire vs) @ t"])
qed (use assms(2) requests_stuck in simp)

text \<open>No array that the parser returns is longer than a 64-bit count can say.\<close>

lemma parse_elems_length: "parse_elems rsv f s p n es = EComplete vs q \<Longrightarrow> length vs = length es + n"
proof (induction n arbitrary: p es)
  case (Suc n)
  then obtain e r where "parse_elems rsv f s r n (es @ [e]) = EComplete vs q"
    by (cases "parse_value rsv f s p") (simp_all add: parse_elems.simps [of rsv f s p])
  then show ?case using Suc.IH by fastforce
qed (simp add: parse_elems.simps)

lemma parse_small:
  assumes "parse rsv s = PComplete v n"
  shows "in_i64 (int (length (rv_elements v)))"
proof -
  have zero: "in_i64 (int (length (rv_elements v)))" if "rv_elements v = []"
    using that by (simp add: in_i64_def LLONG_MIN_def LLONG_MAX_def)
  have arr: "rv_elements v = [] \<or> in_i64 (int (length (rv_elements v)))"
    if arr: "parse_array rsv f s p = PComplete v q" for f p q
  proof -
    obtain l r where l: "p < length s" "parse_line s (p + 1) = Some (l, r)"
      using arr by (auto simp: parse_array.simps [of rsv f s p] split: if_splits option.splits)
    obtain c m where fc: "from_chars l = (ErrcOk, c, m)"
      using arr l by (cases "from_chars l") (auto simp: parse_array.simps [of rsv f s p] split: if_splits)
    show ?thesis
    proof (cases "0 \<le> c \<and> rsv (nat c)")
      case True
      obtain g where g: "f = Suc g" using arr l fc True by (cases f) (auto simp: parse_array.simps [of rsv 0 s p])
      obtain es where es: "parse_elems rsv g s r (nat c) [] = EComplete es q" "v = RespArray es"
        using arr l fc True unfolding g
        by (cases "parse_elems rsv g s r (nat c) []")
          (auto simp: parse_array.simps [of rsv "Suc g" s p] parse_elems_stop)
      then show ?thesis using parse_elems_length [OF es(1)] from_chars_in_i64 [OF fc] True by simp
    qed (use arr l fc in \<open>auto simp: parse_array.simps [of rsv f s p] split: if_splits\<close>)
  qed
  have "rv_elements v = [] \<or> in_i64 (int (length (rv_elements v)))"
    using assms arr [of "length s + 1" 0 n] unfolding parse_def
    by (subst (asm) parse_value.simps)
      (auto simp: Let_def parse_simple_def parse_bulk_string_def
        split: if_splits option.splits prod.splits)
  then show ?thesis using zero by blast
qed

lemma requests_small: "v \<in> set (fst (requests rsv bs)) \<Longrightarrow> in_i64 (int (length (rv_elements v)))"
proof (induction rsv bs rule: requests.induct)
  case (1 rsv bs)
  then show ?case
    by (cases "parse rsv bs")
      (auto simp: requests.simps [of rsv bs] dest: parse_small split: prod.splits)
qed

lemma runs_append: "runs step s ls s1 \<Longrightarrow> runs step s1 ls' s2 \<Longrightarrow> runs step s (ls @ ls') s2"
  by (induction rule: runs.induct) (auto intro: runs.runs_step)

section \<open>The pipeline loop on arbitrary bytes\<close>

text \<open>The reply to a stream that is not RESP2; the connection stays open.\<close>

definition refusal :: string where
  "refusal = wire (fault ''Protocol error: invalid RESP2 format'')"

definition refused :: "(nat \<Rightarrow> bool) \<Rightarrow> string \<Rightarrow> string" where
  "refused rsv rest = (if parse rsv rest = PError then refusal else [])"

lemma dispatch_loop_stuck:
  assumes "\<forall>v n. parse rsv (read_view c) \<noteq> PComplete v n" "0 < f" "r \<noteq> DispatchAborted"
    and "dispatch_loop table rsv f ev i (s, c) = ((s', c'), r)"
  shows "s' = s" "write_buf c' = write_buf c @ refused rsv (read_view c)" "read_view c' = read_view c"
proof -
  obtain g where f: "f = Suc g" using assms(2) by (cases f) auto
  have empty: "parse rsv [] \<noteq> PError" by (simp add: parse_def parse_value.simps)
  have same: "read_view (set_state x (append_response d u)) = read_view d"
    "write_buf (set_state x (append_response d u)) = write_buf d @ u" for x d u
    by (simp_all add: set_state_def)
  have "s' = s \<and> write_buf c' = write_buf c @ refused rsv (read_view c) \<and> read_view c' = read_view c"
    using assms(1,3,4) empty
    by (cases "parse rsv (read_view c)")
      (auto simp: f Let_def refused_def refusal_def fault_def resp_error_def same simp del: read_view_drop
        split: if_splits)
  then show "s' = s" "write_buf c' = write_buf c @ refused rsv (read_view c)" "read_view c' = read_view c" by blast+
qed

lemma dispatch_loop_runs:
  assumes "db_inv (database s)" "conn_inv c" "\<forall>n. env_ok (ev n) \<and> still (ev n) (clk n)"
    and "\<forall>i j. i \<le> j \<longrightarrow> clk i \<le> clk j" "t \<le> clk i" "length (read_view c) < f"
    and "requests rsv (read_view c) = (vs, rest)"
    and "dispatch_loop register_all_commands rsv f ev i (s, c) = ((s', c'), r)" "r \<noteq> DispatchAborted"
  shows "\<exists>outs t'. length outs = length vs \<and> t \<le> t' \<and> (\<forall>hi. (\<forall>n. clk n \<le> hi) \<longrightarrow> t' \<le> hi) \<and>
    runs server_step (t, s) (map Some (zip vs outs)) (t', s') \<and>
    write_buf c' = write_buf c @ concat outs @ refused rsv rest \<and> read_view c' = rest"
  using assms
proof (induction f arbitrary: s c i t vs)
  case (Suc f)
  show ?case
  proof (cases "\<exists>v n. parse rsv (read_view c) = PComplete v n")
    case False
    then have "vs = []" "rest = read_view c" using requests_stuck [of rsv "read_view c"] Suc.prems(7) by auto
    moreover have "\<forall>hi. (\<forall>n. clk n \<le> hi) \<longrightarrow> t \<le> hi" using Suc.prems(5) order_trans by blast
    ultimately show ?thesis using dispatch_loop_stuck [OF _ _ Suc.prems(9,8)] False
      by (intro exI [of _ "[]"] exI [of _ t]) (simp add: runs_nil del: read_view_drop)
  next
    case True
    then obtain v n where p: "parse rsv (read_view c) = PComplete v n" by blast
    have n: "0 < n" "n \<le> length (read_view c)" using parse_bounds(1) [OF p [unfolded parse_def]] by simp_all
    note cf = consume_facts [OF Suc.prems(2) n(2)]
    obtain s1 c1 where x: "execute register_all_commands (ev i) v (s, consume n c) = (s1, c1)" by fastforce
    have env: "env_ok (ev i)" "still (ev i) (clk i)" using Suc.prems(3) by blast+
    have e: "db_inv (database s1)" "only_appends (consume n c) c1"
      using commands.execute_inv [OF Suc.prems(1) env(1) x] by simp_all
    have c1: "read_view c1 = drop n (read_view c)" "conn_inv c1"
      using only_appends_facts [OF e(2)] cf by simp_all
    obtain out where out: "write_buf c1 = write_buf (consume n c) @ out" using e(2) by (auto simp: only_appends_def)
    obtain ws where ws: "requests rsv (read_view c1) = (ws, rest)" "vs = v # ws"
      using Suc.prems(7) by (auto simp: requests.simps [of rsv "read_view c"] p c1(1) simp del: read_view_drop split: prod.splits)
    have step: "server_step (t, s) (Some (v, out)) (clk i, s1)"
      using Suc.prems(5) parse_small [OF p] by (intro serve [OF _ env(2,1) _ x out]) simp_all
    have "dispatch_loop register_all_commands rsv f ev (i + 1) (s1, c1) = ((s', c'), r)"
      using Suc.prems(8) n(1,2) p x by (auto simp: Let_def split: if_splits)
    moreover have "length (read_view c1) < f" "clk i \<le> clk (i + 1)" using c1(1) n Suc.prems(4,6) by simp_all
    ultimately obtain outs t' where "length outs = length ws" "clk i \<le> t'" "\<forall>hi. (\<forall>n. clk n \<le> hi) \<longrightarrow> t' \<le> hi"
      "runs server_step (clk i, s1) (map Some (zip ws outs)) (t', s')"
      "write_buf c' = write_buf c1 @ concat outs @ refused rsv rest" "read_view c' = rest"
      using Suc.IH [OF e(1) c1(2) Suc.prems(3,4) _ _ ws(1) _ Suc.prems(9)] by blast
    moreover have "write_buf (consume n c) = write_buf c" by (simp add: consume_def Let_def)
    ultimately show ?thesis using step out Suc.prems(5)
      by (intro exI [of _ "out # outs"] exI [of _ t']) (simp add: ws(2) runs.runs_step)
  qed
qed simp

text \<open>The only way to abort is an array header whose announced size is refused.\<close>

lemma dispatch_loop_aborts:
  assumes "db_inv (database s)" "conn_inv c" "\<forall>n. env_ok (ev n)"
    and "dispatch_loop register_all_commands rsv f ev i (s, c) = (sc, DispatchAborted)"
  shows "parse rsv (snd (requests rsv (read_view c))) = PAbort"
  using assms
proof (induction f arbitrary: s c i)
  case (Suc f)
  show ?case
  proof (cases "parse rsv (read_view c)")
    case (PComplete v n)
    have n: "0 < n" "n \<le> length (read_view c)" using parse_bounds(1) [OF PComplete [unfolded parse_def]] by simp_all
    obtain s1 c1 where x: "execute register_all_commands (ev i) v (s, consume n c) = (s1, c1)" by fastforce
    have e: "db_inv (database s1)" "only_appends (consume n c) c1"
      using commands.execute_inv [OF Suc.prems(1) _ x] Suc.prems(3) by simp_all
    have c1: "read_view c1 = drop n (read_view c)" "conn_inv c1"
      using only_appends_facts [OF e(2)] consume_facts [OF Suc.prems(2) n(2)] by simp_all
    have "dispatch_loop register_all_commands rsv f ev (i + 1) (s1, c1) = (sc, DispatchAborted)"
      using Suc.prems(4) n PComplete x by (auto simp: Let_def split: if_splits)
    from Suc.IH [OF e(1) c1(2) Suc.prems(3) this] c1(1) show ?thesis
      by (simp add: requests.simps [of rsv "read_view c"] PComplete case_prod_unfold del: read_view_drop)
  qed (use Suc.prems(4) requests_stuck [of rsv "read_view c"] in \<open>auto simp: Let_def split: if_splits\<close>)
qed simp

end
