(* ===== verification/History.thy ===== *)
theory History
  imports Requests
begin

text \<open>
  The whole history of a process as its clients see it: a list of happenings (a request answered, a
  malformed stream refused, a turn of the periodic task) whose labels are a run of the store machine,
  and whose requests and replies are, client by client, exactly what each client has sent and been
  sent, however the kernel cuts the streams and interleaves the clients.
\<close>

declare read_view_drop [simp del]

section \<open>Histories\<close>

datatype happening = Answer u64 resp_value string | Refusal u64 | Tick

primrec label_of :: "happening \<Rightarrow> label list" where
  "label_of (Answer cid v out) = [Some (v, out)]"
| "label_of (Refusal cid) = []"
| "label_of Tick = [None]"

primrec asked_by :: "u64 \<Rightarrow> happening \<Rightarrow> resp_value list" where
  "asked_by cid (Answer c v out) = (if c = cid then [v] else [])"
| "asked_by cid (Refusal c) = []"
| "asked_by cid Tick = []"

primrec said_to :: "u64 \<Rightarrow> happening \<Rightarrow> string" where
  "said_to cid (Answer c v out) = (if c = cid then out else [])"
| "said_to cid (Refusal c) = (if c = cid then refusal else [])"
| "said_to cid Tick = []"

definition labels :: "happening list \<Rightarrow> label list" where
  "labels h = concat (map label_of h)"

definition asked :: "u64 \<Rightarrow> happening list \<Rightarrow> resp_value list" where
  "asked cid h = concat (map (asked_by cid) h)"

definition replied :: "u64 \<Rightarrow> happening list \<Rightarrow> string" where
  "replied cid h = concat (map (said_to cid) h)"

text \<open>The bytes that reached the request handler from a client.\<close>

definition got_from :: "u64 \<Rightarrow> ('k, 'a, 'e) tcp_server \<Rightarrow> string" where
  "got_from cid w = concat (map snd (filter (\<lambda>x. fst x = cid) (received w)))"

lemma history_append [simp]:
  "labels (h @ h') = labels h @ labels h'" "asked cid (h @ h') = asked cid h @ asked cid h'"
  "replied cid (h @ h') = replied cid h @ replied cid h'"
  by (simp_all add: labels_def asked_def replied_def)

lemma history_Nil [simp]: "labels [] = []" "asked cid [] = []" "replied cid [] = []"
  by (simp_all add: labels_def asked_def replied_def)

text \<open>What one dispatch adds to the history.\<close>

definition session_of :: "u64 \<Rightarrow> resp_value list \<Rightarrow> string list \<Rightarrow> bool \<Rightarrow> happening list" where
  "session_of cid vs outs bad = map2 (Answer cid) vs outs @ (if bad then [Refusal cid] else [])"

lemma answers_facts:
  assumes "length outs = length vs"
  shows "labels (map2 (Answer cid) vs outs) = map Some (zip vs outs)"
    and "asked c (map2 (Answer cid) vs outs) = (if c = cid then vs else [])"
    and "replied c (map2 (Answer cid) vs outs) = (if c = cid then concat outs else [])"
proof -
  have "labels (map2 (Answer cid) vs outs) = map Some (zip vs outs) \<and>
    asked c (map2 (Answer cid) vs outs) = (if c = cid then vs else []) \<and>
    replied c (map2 (Answer cid) vs outs) = (if c = cid then concat outs else [])"
    using assms by (induction outs vs rule: list_induct2) (simp_all add: labels_def asked_def replied_def)
  then show "labels (map2 (Answer cid) vs outs) = map Some (zip vs outs)"
    and "asked c (map2 (Answer cid) vs outs) = (if c = cid then vs else [])"
    and "replied c (map2 (Answer cid) vs outs) = (if c = cid then concat outs else [])" by blast+
qed

lemma session_of_facts:
  assumes "length outs = length vs"
  shows "labels (session_of cid vs outs bad) = map Some (zip vs outs)"
    and "asked c (session_of cid vs outs bad) = (if c = cid then vs else [])"
    and "replied c (session_of cid vs outs bad) = (if c = cid then concat outs @ (if bad then refusal else []) else [])"
    and "Refusal c \<in> set (session_of cid vs outs bad) \<longleftrightarrow> bad \<and> c = cid"
  using answers_facts [OF assms]
  by (auto simp: session_of_def) (auto simp: labels_def asked_def replied_def)

section \<open>History and server agree\<close>

text \<open>
  The first part is what is claimed of every client that ever was; for the connected ones, what is
  still to be sent and to be read is in their buffers. \<open>n\<close> clients have been accepted; their ids are
  distinct.
\<close>

definition matches :: "(nat \<Rightarrow> bool) \<Rightarrow> happening list \<Rightarrow> ('k, 'a, 'e) tcp_server \<Rightarrow> u64 \<Rightarrow> bool" where
  "matches rsv h w cid \<longleftrightarrow>
     asked cid h = fst (requests rsv (got_from cid w)) \<and>
     (\<exists>queued. replied cid h = sent_to cid w @ queued) \<and>
     (Refusal cid \<in> set h \<longrightarrow> parse rsv (snd (requests rsv (got_from cid w))) = PError)"

definition connected_ok :: "(nat \<Rightarrow> bool) \<Rightarrow> happening list \<Rightarrow> ('k, 'a, 'e) tcp_server \<Rightarrow> connection \<Rightarrow> bool" where
  "connected_ok rsv h w c \<longleftrightarrow>
     replied (client_id c) h = sent_to (client_id c) w @ pending c \<and>
     read_view c = snd (requests rsv (got_from (client_id c) w))"

definition id_of :: "nat \<Rightarrow> u64" where
  "id_of n = word_of_nat n"

definition issued :: "nat \<Rightarrow> u64 set" where
  "issued n = id_of ` {1..n}"

definition ids_differ :: "(int \<rightharpoonup> connection) \<Rightarrow> bool" where
  "ids_differ cs \<longleftrightarrow>
     (\<forall>fd fd' c c'. cs fd = Some c \<longrightarrow> cs fd' = Some c' \<longrightarrow> client_id c = client_id c' \<longrightarrow> fd = fd')"

definition told :: "(nat \<Rightarrow> bool) \<Rightarrow> nat \<Rightarrow> happening list \<Rightarrow> ('k, 'a, 'e) tcp_server \<Rightarrow> bool" where
  "told rsv n h w \<longleftrightarrow>
     (\<forall>cid. matches rsv h w cid) \<and> (\<forall>fd c. clients w fd = Some c \<longrightarrow> connected_ok rsv h w c) \<and>
     next_client_id w = id_of (n + 1) \<and>
     (\<forall>fd c. clients w fd = Some c \<longrightarrow> client_id c \<in> issued n) \<and>
     ids_differ (clients w) \<and>
     fst ` set (received w) \<union> fst ` set (delivered w) \<subseteq> issued n"

lemma toldD:
  assumes "told rsv n h w"
  shows "matches rsv h w cid" "clients w fd = Some c \<Longrightarrow> connected_ok rsv h w c"
    and "next_client_id w = id_of (n + 1)" "clients w fd = Some c \<Longrightarrow> client_id c \<in> issued n"
    and "clients w fd = Some c \<Longrightarrow> clients w fd' = Some c' \<Longrightarrow> client_id c = client_id c' \<Longrightarrow> fd = fd'"
    and "fst ` set (received w) \<union> fst ` set (delivered w) \<subseteq> issued n"
proof -
  note t = assms [unfolded told_def]
  show "matches rsv h w cid" "next_client_id w = id_of (n + 1)"
    "fst ` set (received w) \<union> fst ` set (delivered w) \<subseteq> issued n" using t by simp_all
  show "connected_ok rsv h w c" "client_id c \<in> issued n" if "clients w fd = Some c" using t that by simp_all
  show "fd = fd'" if "clients w fd = Some c" "clients w fd' = Some c'" "client_id c = client_id c'"
    using t that unfolding ids_differ_def by metis
qed

lemma toldI:
  assumes "\<And>cid. matches rsv h w cid"
    and "\<And>fd c. clients w fd = Some c \<Longrightarrow> connected_ok rsv h w c \<and> client_id c \<in> issued n"
    and "ids_differ (clients w)"
    and "next_client_id w = id_of (n + 1)" "fst ` set (received w) \<union> fst ` set (delivered w) \<subseteq> issued n"
  shows "told rsv n h w"
  using assms by (simp add: told_def)

lemma requests_Nil: "requests rsv [] = ([], [])" "parse rsv [] = PIncomplete"
proof -
  show p: "parse rsv [] = PIncomplete" by (simp add: parse_def parse_value.simps)
  then show "requests rsv [] = ([], [])" by (simp add: requests_stuck)
qed

text \<open>A client's callback: \<open>data\<close> arrives, \<open>vs\<close> are answered with \<open>outs\<close>, \<open>out\<close> is taken by the kernel,
  \<open>queued\<close> and \<open>rest\<close> are left if the client is still there. First the client itself, then the others.\<close>

lemma client_session:
  assumes told: "told rsv n h w" and c: "clients w fd = Some c"
    and req: "requests rsv (read_view c @ data) = (vs, rest)" and len: "length outs = length vs"
    and bad: "bad \<Longrightarrow> parse rsv rest = PError"
    and out: "pending c @ concat outs @ (if bad then refusal else []) = out @ queued"
    and got: "got_from (client_id c) w' = got_from (client_id c) w @ data"
    and sent: "sent_to (client_id c) w' = sent_to (client_id c) w @ out"
    and h': "h' = h @ session_of (client_id c) vs outs bad"
  shows "matches rsv h' w' (client_id c)" "replied (client_id c) h' = sent_to (client_id c) w' @ queued"
    and "rest = snd (requests rsv (got_from (client_id c) w'))"
proof -
  let ?id = "client_id c"
  note s = session_of_facts [OF len]
  note m = toldD(1) [OF told, of ?id, unfolded matches_def] and cc = toldD(2) [OF told c, unfolded connected_ok_def]
  obtain ws where ws: "requests rsv (got_from ?id w) = (ws, read_view c)" "asked ?id h = ws"
    using m cc by (metis prod.collapse)
  have req': "requests rsv (got_from ?id w') = (ws @ vs, rest)"
    using requests_append [OF ws(1), of data] by (simp add: got req)
  have err: "parse rsv rest = PError" if "parse rsv (read_view c) = PError"
  proof -
    have e: "parse rsv (read_view c @ data) = PError" using settled_parse_append [of rsv "read_view c" data] that by simp
    then show ?thesis using req requests_stuck [of rsv "read_view c @ data"] by simp
  qed
  show rep: "replied ?id h' = sent_to ?id w' @ queued" using cc s(3) out by (simp add: sent h')
  have "Refusal ?id \<in> set h' \<longrightarrow> parse rsv rest = PError" using m s(4) bad err ws(1) by (auto simp: h')
  then show "matches rsv h' w' ?id" using rep ws(2) s(2) req' by (simp add: matches_def h')
  show "rest = snd (requests rsv (got_from ?id w'))" by (simp add: req')
qed

lemma told_client:
  assumes told: "told rsv n h w" and c: "clients w fd = Some c"
    and "requests rsv (read_view c @ data) = (vs, rest)" and len: "length outs = length vs"
    and "bad \<Longrightarrow> parse rsv rest = PError" "pending c @ concat outs @ (if bad then refusal else []) = out @ queued"
    and got: "\<And>cid. got_from cid w' = got_from cid w @ (if cid = client_id c then data else [])"
    and sent: "\<And>cid. sent_to cid w' = sent_to cid w @ (if cid = client_id c then out else [])"
    and others: "\<forall>k. k \<noteq> fd \<longrightarrow> clients w' k = clients w k"
    and here: "\<forall>c'. clients w' fd = Some c' \<longrightarrow> client_id c' = client_id c \<and> read_view c' = rest \<and> pending c' = queued"
    and frame: "next_client_id w' = next_client_id w"
      "fst ` set (received w') \<union> fst ` set (delivered w') \<subseteq> insert (client_id c) (fst ` set (received w) \<union> fst ` set (delivered w))"
  shows "told rsv n (h @ session_of (client_id c) vs outs bad) w'"
proof (rule toldI)
  let ?id = "client_id c" and ?h = "h @ session_of (client_id c) vs outs bad"
  note t = toldD [OF told] and s = session_of_facts [OF len]
  have "got_from ?id w' = got_from ?id w @ data" "sent_to ?id w' = sent_to ?id w @ out" by (simp_all add: got sent)
  note me = client_session [OF assms(1-6) this refl]
  have same: "got_from k w' = got_from k w" "sent_to k w' = sent_to k w" "asked k ?h = asked k h"
    "replied k ?h = replied k h" "Refusal k \<in> set ?h \<longleftrightarrow> Refusal k \<in> set h" if "k \<noteq> ?id" for k
    using that s by (simp_all add: got sent)
  show "matches rsv ?h w' k" for k
    using me(1) t(1) [of k] same [of k] by (cases "k = ?id") (simp_all add: matches_def)
  show "connected_ok rsv ?h w' d \<and> client_id d \<in> issued n" if "clients w' k = Some d" for k d
  proof (cases "k = fd")
    case True
    then show ?thesis using that here me(2,3) t(4) [OF c] by (auto simp: connected_ok_def)
  next
    case False
    then have d: "clients w k = Some d" using that others by simp
    then have "client_id d \<noteq> ?id" using t(5) [OF d c] False by blast
    then show ?thesis using t(2,4) [OF d] same by (simp add: connected_ok_def)
  qed
  have was: "\<exists>d'. clients w k = Some d' \<and> client_id d' = client_id d" if "clients w' k = Some d" for k d
    using that here others c by (cases "k = fd") auto
  show "ids_differ (clients w')" unfolding ids_differ_def
  proof (intro allI impI)
    fix k k' d d'
    assume d: "clients w' k = Some d" "clients w' k' = Some d'" "client_id d = client_id d'"
    obtain e e' where e: "clients w k = Some e" "clients w k' = Some e'" "client_id e = client_id e'"
      using was [OF d(1)] was [OF d(2)] d(3) by auto
    show "k = k'" by (rule t(5) [OF e])
  qed
  show "fst ` set (received w') \<union> fst ` set (delivered w') \<subseteq> issued n"
    by (rule subset_trans [OF frame(2)]) (use t(4) [OF c] t(6) in \<open>simp only: insert_subset simp_thms\<close>)
  show "next_client_id w' = id_of (n + 1)" using t(3) frame(1) by simp
qed

lemma told_same:
  assumes "told rsv n h w" "clients w' = clients w" "next_client_id w' = next_client_id w" "received w' = received w"
    "delivered w' = delivered w"
  shows "told rsv n h w'"
  using assms by (simp add: told_def matches_def connected_ok_def got_from_def sent_to_def)

text \<open>A new client.\<close>

lemma issued_Suc: "issued (n + 1) = insert (id_of (n + 1)) (issued n)"
  by (simp add: issued_def atLeastAtMostSuc_conv)

lemma issued_fresh:
  assumes "n + 1 < 2 ^ 64"
  shows "id_of (n + 1) \<notin> issued n"
proof
  assume "id_of (n + 1) \<in> issued n"
  then obtain k where k: "id_of (n + 1) = id_of k" "k \<le> n" by (auto simp: issued_def)
  have "unat (id_of m) = m" if "m < 2 ^ 64" for m
    using that by (simp add: id_of_def unat_of_nat take_bit_nat_eq_self)
  from this [of "n + 1"] this [of k] show False using k assms by simp
qed

lemma told_accept:
  assumes told: "told rsv n h w" and n: "n + 1 < 2 ^ 64"
  shows "told rsv (n + 1) h (accept_client ctl fd w)"
proof -
  note t = toldD [OF told]
  let ?w = "accept_client ctl fd w"
  define i where "i = id_of (n + 1)"
  have new: "i \<notin> issued n" unfolding i_def by (rule issued_fresh [OF n])
  have same: "received ?w = received w" "delivered ?w = delivered w" "next_client_id ?w = i + 1"
    "clients ?w = (if clients w fd = None then (clients w)(fd \<mapsto> conn_new i) else clients w)"
    by (simp_all add: accept_client_def Let_def t(3) i_def [symmetric] del: One_nat_def)
  have logs: "got_from k ?w = got_from k w" "sent_to k ?w = sent_to k w" for k
    by (simp_all add: got_from_def sent_to_def same)
  have none: "got_from i w = []" "sent_to i w = []"
    using t(6) new by (force simp: got_from_def sent_to_def filter_empty_conv)+
  have "asked i h = []" "Refusal i \<notin> set h"
    using t(1) [of i] by (auto simp: matches_def none requests_Nil)
  then have quiet: "replied i h = []"
  proof (induction h)
    case (Cons x h)
    then show ?case by (cases x) (auto simp: asked_def replied_def split: if_splits)
  qed simp
  have fresh: "connected_ok rsv h ?w (conn_new i)" "client_id (conn_new i) = i"
    by (simp_all add: connected_ok_def conn_new_def logs none quiet requests_Nil pending_def read_view_drop)
  have old: "connected_ok rsv h ?w c \<longleftrightarrow> connected_ok rsv h w c" for c by (simp add: connected_ok_def logs)
  show ?thesis
  proof (rule toldI)
    show "matches rsv h ?w k" for k using t(1) [of k] by (simp add: matches_def logs)
    show "connected_ok rsv h ?w c \<and> client_id c \<in> issued (n + 1)" if "clients ?w k = Some c" for k c
      using that fresh t(2,4) [of k c] unfolding issued_Suc i_def [symmetric] by (auto simp: same old split: if_splits)
    show "ids_differ (clients ?w)"
      using toldD(4) [OF told] told new fresh(2) unfolding same ids_differ_def told_def by (auto split: if_splits)
    show "next_client_id ?w = id_of (n + 1 + 1)" by (simp add: same i_def id_of_def)
    show "fst ` set (received ?w) \<union> fst ` set (delivered ?w) \<subseteq> issued (n + 1)"
      using t(6) unfolding issued_Suc i_def [symmetric] same by (rule subset_insertI2)
  qed
qed

lemma told_accept_loop:
  "told rsv n h w \<Longrightarrow> n + length rs < 2 ^ 64 \<Longrightarrow> \<exists>m \<le> n + length rs. told rsv m h (accept_loop ctl rs w)"
proof (induction rs arbitrary: n w)
  case (Cons r rs)
  show ?case
  proof (cases r)
    case (Accepted fd)
    have "told rsv (n + 1) h (accept_client ctl fd w)" using Cons.prems by (intro told_accept) simp_all
    from Cons.IH [OF this] Cons.prems(2) show ?thesis by (auto simp: Accepted)
  qed (use Cons.prems in \<open>auto intro: exI [of _ n]\<close>)
qed auto

section \<open>What the callbacks add to the history\<close>

text \<open>All clocks that the callback can read lie between \<open>lo\<close> and \<open>hi\<close>, and never run backwards.\<close>

definition clocks_within :: "i64 \<Rightarrow> main_input io_answer \<Rightarrow> i64 \<Rightarrow> bool" where
  "clocks_within lo an hi \<longleftrightarrow>
     lo \<le> cron_ms (input an) \<and> cron_ms (input an) \<le> hi \<and>
     (\<exists>clk. (\<forall>n. still (envs (input an) n) (clk n)) \<and> (\<forall>i j. i \<le> j \<longrightarrow> clk i \<le> clk j) \<and>
        lo \<le> clk 0 \<and> (\<forall>n. clk n \<le> hi))"

definition advances :: "(nat \<Rightarrow> bool) \<Rightarrow> nat \<Rightarrow> happening list \<Rightarrow> i64 \<Rightarrow> i64 \<Rightarrow> 'k main_state \<Rightarrow> 'k main_state \<Rightarrow> bool" where
  "advances rsv n h t hi w w' \<longleftrightarrow>
     (\<exists>h' t'. told rsv n (h @ h') w' \<and> t \<le> t' \<and> t' \<le> hi \<and>
        runs store_step (t, view t (database (app w))) (labels h') (t', view t' (database (app w'))))"

lemma advances_quiet:
  "told rsv n h w' \<Longrightarrow> t \<le> hi \<Longrightarrow> database (app w') = database (app w) \<Longrightarrow> advances rsv n h t hi w w'"
  unfolding advances_def by (intro exI [of _ "[]"] exI [of _ t]) (simp add: runs_nil)

text \<open>A client's callback in which nothing arrives.\<close>

lemma told_client_sent:
  assumes told: "told rsv n h w" and c: "clients w fd = Some c" and out: "pending c = out @ queued"
    and "received w' = received w" "delivered w' = delivered w @ [(client_id c, out)] \<or> delivered w' = delivered w \<and> out = []"
    and "\<forall>k. k \<noteq> fd \<longrightarrow> clients w' k = clients w k" "next_client_id w' = next_client_id w"
    and "\<forall>c'. clients w' fd = Some c' \<longrightarrow> client_id c' = client_id c \<and> read_view c' = read_view c \<and> pending c' = queued"
  shows "told rsv n h w'"
proof -
  have "read_view c = snd (requests rsv (got_from (client_id c) w))"
    using toldD(2) [OF told c] by (simp add: connected_ok_def)
  then have "\<forall>v m. parse rsv (read_view c) \<noteq> PComplete v m"
    using requests_rest [of rsv "got_from (client_id c) w"] by (metis prod.collapse)
  then have "requests rsv (read_view c @ []) = ([], read_view c)" by (simp add: requests_stuck)
  then have "told rsv n (h @ session_of (client_id c) [] [] False) w'"
  proof (rule told_client [OF told c])
    show "sent_to k w' = sent_to k w @ (if k = client_id c then out else [])" for k
      using assms(5) by (auto simp: sent_to_def)
    show "fst ` set (received w') \<union> fst ` set (delivered w') \<subseteq>
        insert (client_id c) (fst ` set (received w) \<union> fst ` set (delivered w))"
      using assms(4,5) by auto
    show "pending c @ concat [] @ (if False then refusal else []) = out @ queued" using out by simp
    show "got_from k w' = got_from k w @ (if k = client_id c then [] else [])" for k
      using assms(4) by (simp add: got_from_def)
  qed (rule assms(6-8) | simp)+
  then show ?thesis by (simp add: session_of_def)
qed

lemma close_told:
  assumes "told rsv n h w" "clients w fd = Some c"
  shows "told rsv n h (close_connection ctl fd w)"
  by (rule told_client_sent [OF assms, of "[]" "pending c"]) (simp_all add: close_connection_def)

lemma writable_told:
  assumes told: "told rsv n h w" and inv: "\<forall>c. clients w fd = Some c \<longrightarrow> conn_inv c"
  shows "told rsv n h (on_client_writable ctl an fd w)"
proof (cases "clients w fd")
  case (Some c)
  let ?w = "on_client_writable ctl an fd w"
  obtain c' good out rest where fl: "flush_write_buffer (writes an) c = (c', good, out, rest)" by (metis surj_pair)
  have "conn_inv c" using inv Some by blast
  note ff = flush_write_buffer_facts [OF this fl]
  have id: "client_id c' = client_id c" using flush_write_buffer_id [of "writes an" c] by (simp add: fl)
  define w1 where "w1 = w\<lparr>delivered := delivered w @ [(client_id c, out)],
    ev_loop := (if \<not> has_pending_writes c' then fst (remove_writable ctl fd (ev_loop w)) else ev_loop w),
    clients := (clients w)(fd \<mapsto> c')\<rparr>"
  have w': "?w = (if is_closed c' then close_connection ctl fd w1 else w1)"
    by (simp add: on_client_writable_def Some flush_client_def fl Let_def id w1_def)
  show ?thesis
    by (rule told_client_sent [OF told Some ff(2)])
      (simp_all add: w' close_connection_def w1_def id ff(3))
qed (simp add: on_client_writable_def told)

lemma handler_aborts:
  assumes "conn_inv c" "db_inv (database s)" "input_good inp" "main_handler inp (s, c) = None"
  shows "parse (reserve_ok inp) (snd (requests (reserve_ok inp) (read_view c))) = PAbort"
proof -
  obtain sc r where d: "dispatch (reserve_ok inp) (envs inp) (s, c) = (sc, r)" by fastforce
  then have "r = DispatchAborted" using assms(4) by (auto simp: main_handler_def split: if_splits)
  with d have "dispatch_loop register_all_commands (reserve_ok inp) (length (read_view c) + 1) (envs inp) 0 (s, c) =
      (sc, DispatchAborted)" by (simp only: dispatch_def snd_conv)
  moreover have "\<forall>n. env_ok (envs inp n)" using assms(3) by (simp add: input_good_def)
  ultimately show ?thesis by (rule dispatch_loop_aborts [OF assms(2,1), rotated])
qed

lemma handler_answers:
  assumes c: "conn_inv c" and db: "db_inv (database s)"
    and inp: "input_good inp" "reserve_ok inp = rsv"
    and clk: "\<forall>k. still (envs inp k) (clk k)" "\<forall>i j. i \<le> j \<longrightarrow> clk i \<le> clk j" "t \<le> clk 0"
    and a: "main_handler inp (s, c) = Some (s', c')"
  obtains vs rest outs t' where "requests rsv (read_view c) = (vs, rest)" "length outs = length vs" "t \<le> t'" "\<forall>hi. (\<forall>k. clk k \<le> hi) \<longrightarrow> t' \<le> hi"
    "runs server_step (t, s) (map Some (zip vs outs)) (t', s')"
    "write_buf c' = write_buf c @ concat outs @ refused rsv rest" "read_view c' = rest" "conn_inv c'" "answered c c'"
proof -
  have envs: "\<forall>k. env_ok (envs inp k)" "\<forall>k. env_ok (envs inp k) \<and> still (envs inp k) (clk k)"
    using inp(1) clk(1) by (simp_all add: input_good_def)
  obtain r where d: "dispatch_loop register_all_commands rsv (length (read_view c) + 1) (envs inp) 0 (s, c) = ((s', c'), r)"
    "r \<noteq> DispatchAborted"
    using a inp(2) by (auto simp: main_handler_def dispatch_def split: prod.splits if_splits)
  obtain vs rest where req: "requests rsv (read_view c) = (vs, rest)" by fastforce
  have "conn_inv c'" using commands.dispatch_loop_ends [OF db c envs(1) _ d(1)] by simp
  moreover have "answered c c'" by (rule commands.dispatch_loop_answers [OF db c envs(1) d(1)])
  ultimately show thesis
    using dispatch_loop_runs [OF db c envs(2) clk(2,3) less_add_one req d] that [OF req] by blast
qed

text \<open>A readable event: what was received is answered by the store machine.\<close>

lemma readable_runs:
  assumes c: "clients w fd = Some c" "conn_inv c"
    and db: "db_inv (database (app w))" and rh: "request_handler w = Some main_handler"
    and an: "reads_fit (reads an)" "input_good (input an)" "reserve_ok (input an) = rsv"
    and clk: "\<forall>k. still (envs (input an) k) (clk k)" "\<forall>i j. i \<le> j \<longrightarrow> clk i \<le> clk j" "t \<le> clk 0"
    and fill: "fill_read_buffer (reads an) c = (c1, m, unread)" "0 < m"
    and a: "main_handler (input an) (app w, c1) = Some (s, c2)" and w': "w' = on_client_readable ctl an fd w"
  obtains vs rest outs t' out queued where
    "requests rsv (read_view c @ script_data (reads an)) = (vs, rest)" "length outs = length vs"
    "t \<le> t'" "\<forall>hi. (\<forall>k. clk k \<le> hi) \<longrightarrow> t' \<le> hi"
    "runs store_step (t, view t (database (app w))) (map Some (zip vs outs)) (t', view t' (database (app w')))"
    "pending c @ concat outs @ refused rsv rest = out @ queued"
    "delivered w' = delivered w @ [(client_id c, out)] \<or> delivered w' = delivered w \<and> out = []"
    "\<forall>c'. clients w' fd = Some c' \<longrightarrow> client_id c' = client_id c \<and> read_view c' = rest \<and> pending c' = queued"
    "received w' = received w @ [(client_id c, script_data (reads an))]"
    "\<forall>k. k \<noteq> fd \<longrightarrow> clients w' k = clients w k" "next_client_id w' = next_client_id w"
proof -
  note fr = fill_read_buffer_facts [OF c(2) an(1) fill(1)]
  obtain vs rest outs t' where req: "requests rsv (read_view c1) = (vs, rest)"
    and o: "length outs = length vs" "t \<le> t'" "\<forall>hi. (\<forall>k. clk k \<le> hi) \<longrightarrow> t' \<le> hi"
    "runs server_step (t, app w) (map Some (zip vs outs)) (t', s)"
    "write_buf c2 = write_buf c1 @ concat outs @ refused rsv rest" "read_view c2 = rest" and c2: "conn_inv c2" "answered c1 c2"
    by (rule handler_answers [OF fr(1) db an(2,3) clk a])
  have id: "client_id c2 = client_id c" "write_pos c2 = write_pos c1"
    using fill_read_buffer_id [OF an(1) fill(1)] c2(2) by (simp_all add: answered_def)
  obtain out where out: "app w' = s" "pending c2 = out @ drop (length out) (pending c2)"
    "delivered w' = (if pending c2 = [] then delivered w else delivered w @ [(client_id c2, out)])"
    "\<forall>c'. clients w' fd = Some c' \<longrightarrow>
       read_view c' = read_view c2 \<and> pending c2 = out @ pending c' \<and> client_id c' = client_id c2"
    "received w' = received w @ [(client_id c2, script_data (reads an))]"
    "\<forall>k. k \<noteq> fd \<longrightarrow> clients w' k = clients w k" "next_client_id w' = next_client_id w"
    unfolding w' by (rule on_client_readable_effect [where ctl = ctl, OF c(1) fill rh a c2(1)])
  show thesis
  proof (rule that [OF req [unfolded fr(2)] o(1-3), of out "drop (length out) (pending c2)"])
    show "runs store_step (t, view t (database (app w))) (map Some (zip vs outs)) (t', view t' (database (app w')))"
      using store_sim.runs_simulate [OF o(4)] db by (simp add: shown_def out(1))
    show "pending c @ concat outs @ refused rsv rest = out @ drop (length out) (pending c2)"
      using out(2) o(5) id(2) fr(1,3) by (simp add: pending_def conn_inv_def)
    show "\<forall>c'. clients w' fd = Some c' \<longrightarrow>
        client_id c' = client_id c \<and> read_view c' = rest \<and> pending c' = drop (length out) (pending c2)"
      using out(4) o(6) id(1) by (metis append_eq_conv_conj)
    show "delivered w' = delivered w @ [(client_id c, out)] \<or> delivered w' = delivered w \<and> out = []"
      using out(2,3) id(1) by auto
  qed (use out(5-7) id(1) in simp_all)
qed

lemma readable_answers:
  assumes told: "told rsv n h w" and c: "clients w fd = Some c" "conn_inv c"
    and db: "db_inv (database (app w))" and rh: "request_handler w = Some main_handler"
    and an: "reads_fit (reads an)" "input_good (input an)" "reserve_ok (input an) = rsv" "clocks_within t an hi"
    and fill: "fill_read_buffer (reads an) c = (c1, m, unread)" "0 < m" and a: "main_handler (input an) (app w, c1) = Some (s, c2)"
  shows "advances rsv n h t hi w (on_client_readable ctl an fd w)"
proof -
  let ?w = "on_client_readable ctl an fd w"
  obtain clk where clk: "\<forall>k. still (envs (input an) k) (clk k)" "\<forall>i j. i \<le> j \<longrightarrow> clk i \<le> clk j" "t \<le> clk 0" "\<forall>k. clk k \<le> hi"
    using an(4) by (auto simp: clocks_within_def)
  obtain vs rest outs t' out queued where r:
    "requests rsv (read_view c @ script_data (reads an)) = (vs, rest)" "length outs = length vs"
    "t \<le> t'" "\<forall>hi. (\<forall>k. clk k \<le> hi) \<longrightarrow> t' \<le> hi"
    "runs store_step (t, view t (database (app w))) (map Some (zip vs outs)) (t', view t' (database (app ?w)))"
    "pending c @ concat outs @ refused rsv rest = out @ queued"
    "delivered ?w = delivered w @ [(client_id c, out)] \<or> delivered ?w = delivered w \<and> out = []"
    "\<forall>c'. clients ?w fd = Some c' \<longrightarrow> client_id c' = client_id c \<and> read_view c' = rest \<and> pending c' = queued"
    "received ?w = received w @ [(client_id c, script_data (reads an))]"
    "\<forall>k. k \<noteq> fd \<longrightarrow> clients ?w k = clients w k" "next_client_id ?w = next_client_id w"
    by (rule readable_runs [OF c db rh an(1-3) clk(1-3) fill a refl])
  let ?bad = "parse rsv rest = PError"
  have "told rsv n (h @ session_of (client_id c) vs outs ?bad) ?w"
  proof (rule told_client [OF told c(1) r(1,2) _ _ _ _ r(10,8,11)])
    show "pending c @ concat outs @ (if ?bad then refusal else []) = out @ queued" using r(6) by (simp add: refused_def)
    show "sent_to k ?w = sent_to k w @ (if k = client_id c then out else [])" for k
      using r(7) by (auto simp: sent_to_def)
    show "got_from k ?w = got_from k w @ (if k = client_id c then script_data (reads an) else [])" for k
      by (simp add: got_from_def r(9))
    show "fst ` set (received ?w) \<union> fst ` set (delivered ?w) \<subseteq>
        insert (client_id c) (fst ` set (received w) \<union> fst ` set (delivered w))"
      using r(7,9) by auto
  qed
  moreover have "runs store_step (t, view t (database (app w))) (labels (session_of (client_id c) vs outs ?bad))
      (t', view t' (database (app ?w)))"
    using r(5) by (simp add: session_of_facts(1) [OF r(2)])
  ultimately show ?thesis unfolding advances_def using r(3,4) clk(4) by blast
qed

lemma readable_advances:
  assumes told: "told rsv n h w" and inv: "\<forall>c. clients w fd = Some c \<longrightarrow> conn_inv c"
    and db: "db_inv (database (app w))" and rh: "request_handler w = Some main_handler"
    and an: "reads_fit (reads an)" "input_good (input an)" "reserve_ok (input an) = rsv" "clocks_within t an hi"
  shows "advances rsv n h t hi w (on_client_readable ctl an fd w)"
proof (cases "clients w fd")
  case None
  have "t \<le> hi" using an(4) by (auto simp: clocks_within_def)
  with None told show ?thesis by (simp add: on_client_readable_def advances_quiet)
next
  case (Some c)
  have le: "t \<le> hi" using an(4) by (auto simp: clocks_within_def)
  have ci: "conn_inv c" using inv Some by blast
  obtain c1 m rest where fill: "fill_read_buffer (reads an) c = (c1, m, rest)" by (metis surj_pair)
  note fr = fill_read_buffer_facts [OF ci an(1) fill]
  consider "m \<le> 0" | "0 < m" "main_handler (input an) (app w, c1) = None"
    | s c2 where "0 < m" "main_handler (input an) (app w, c1) = Some (s, c2)" by fastforce
  then show ?thesis
  proof cases
    case 1
    then have "on_client_readable ctl an fd w = close_connection ctl fd w"
      using fill Some by (auto simp: on_client_readable_def)
    then show ?thesis using close_told [OF told Some] le by (simp add: advances_quiet close_connection_def)
  next
    case 2
    then have "on_client_readable ctl an fd w = w\<lparr>crashed := True\<rparr>"
      using fill Some rh by (simp add: on_client_readable_def)
    then show ?thesis using told_same [OF told, of "w\<lparr>crashed := True\<rparr>"] le by (simp add: advances_quiet)
  next
    case 3
    show ?thesis by (rule readable_answers [OF told Some ci db rh an fill 3])
  qed
qed

lemma cron_advances:
  assumes told: "told rsv n h w" and db: "db_inv (database (app w))" and an: "clocks_within t an hi"
  shows "advances rsv n h t hi w (main_cron (input an) w)"
proof -
  let ?w = "main_cron (input an) w" and ?now = "cron_ms (input an)"
  have now: "t \<le> ?now" "?now \<le> hi" using an by (simp_all add: clocks_within_def)
  obtain s due where c: "server_cron (cron_draws (input an)) ?now (cron_s (input an)) (app w) = (s, due)" by fastforce
  have "server_step (t, app w) None (?now, s)" by (rule server_step.cron [OF now(1) c])
  then have "runs server_step (t, app w) [None] (?now, s)" by (simp add: runs_Cons runs_Nil)
  from store_sim.runs_simulate [OF this] db
  have "runs store_step (t, view t (database (app w))) (labels [Tick]) (?now, view ?now (database (app ?w)))"
    by (simp add: shown_def labels_def main_cron_def c)
  moreover have "told rsv n h ?w" by (rule told_same [OF told]) (simp_all add: main_cron_def)
  then have "told rsv n (h @ [Tick]) ?w"
    by (simp add: told_def matches_def connected_ok_def) (simp add: asked_def replied_def)
  ultimately show ?thesis using now unfolding advances_def by blast
qed

lemma signal_told:
  "told rsv n h w \<Longrightarrow> told rsv n h (on_signal_pipe_readable inp w)"
  "database (app (on_signal_pipe_readable inp w)) = database (app w)"
  by (auto simp: on_signal_pipe_readable_def Let_def on_bgsave_child_exit_def split: option.split intro: told_same)

lemma callbacks_app [simp]:
  "app (accept_loop ctl rs w) = app w" "app (on_client_writable ctl an fd w) = app w"
proof -
  show "app (accept_loop ctl rs w) = app w"
    by (induction ctl rs w rule: accept_loop.induct) (simp_all add: accept_client_def Let_def)
  show "app (on_client_writable ctl an fd w) = app w"
    by (auto simp: on_client_writable_def flush_client_def Let_def close_connection_def split: option.split prod.split)
qed

lemma call_answers:
  assumes inv: "main_inv interest cfg w" and an: "answers w = an # ans" "\<not> crashed w"
  shows "answers (main_call ctl cb fd w) = ans"
proof -
  let ?v = "others_write (disk_change (input an)) (w\<lparr>answers := ans\<rparr>)"
  have t: "tcp_inv interest (serves cfg) ?v" using inv by (simp add: main_inv_def others_write_inv)
  show ?thesis
    using an same_wiring_client [of ?v ctl an fd] same_wiring_accept [of ?v ctl "accepts an"]
      on_signal_inv [OF t, of "input an"] main_cron_inv [OF t, of "input an"]
    by (cases cb) (simp_all add: main_call_def next_answer_def Let_def same_wiring_def on_new_connection_def)
qed

lemma call_advances:
  assumes inv: "main_inv interest cfg w" and told: "told rsv n h w" and an: "answers w = an # ans" "\<not> crashed w"
    and ok: "answer_ok an" "reserve_ok (input an) = rsv" "clocks_within t an hi" "n + length (accepts an) < 2 ^ 64"
  obtains m where "m \<le> n + length (accepts an)" "advances rsv m h t hi w (main_call ctl cb fd w)"
proof -
  let ?v = "others_write (disk_change (input an)) (w\<lparr>answers := ans\<rparr>)"
  have v: "told rsv n h ?v" by (rule told_same [OF told]) (simp_all add: others_write_def)
  have t: "tcp_inv interest (serves cfg) ?v" "request_handler ?v = Some main_handler"
    using inv by (simp_all add: main_inv_def others_write_inv)
  have db: "db_inv (database (app ?v))" using tcp_invD(2) [OF t(1)] by (simp add: serves_def)
  have conns: "\<forall>c. clients ?v fd = Some c \<longrightarrow> conn_inv c" using tcp_invD(4) [OF t(1)] by (simp add: client_ok_def)
  have io: "reads_fit (reads an)" "input_good (input an)" using ok(1) by (simp_all add: answer_ok_def)
  have le: "t \<le> hi" using ok(3) by (auto simp: clocks_within_def)
  have same: "advances rsv m h t hi w w' \<longleftrightarrow> advances rsv m h t hi ?v w'" for m w'
    by (simp add: advances_def)
  have call: "main_call ctl cb fd w =
     (case cb of OnNewConnection \<Rightarrow> on_new_connection ctl an ?v | OnClientReadable \<Rightarrow> on_client_readable ctl an fd ?v
      | OnClientWritable \<Rightarrow> on_client_writable ctl an fd ?v | OnSignal \<Rightarrow> on_signal_pipe_readable (input an) ?v
      | OnTimer \<Rightarrow> main_cron (input an) ?v)"
    using an by (simp add: main_call_def next_answer_def Let_def)
  have "\<exists>m \<le> n + length (accepts an). advances rsv m h t hi ?v (main_call ctl cb fd w)"
  proof (cases cb)
    case OnNewConnection
    from told_accept_loop [OF v ok(4), of ctl] show ?thesis
      unfolding call by (auto simp: OnNewConnection on_new_connection_def intro!: advances_quiet le)
  next
    case OnClientReadable
    then show ?thesis
      using readable_advances [OF v conns db t(2) io ok(2,3), of ctl] unfolding call by (auto intro: exI [of _ n])
  next
    case OnClientWritable
    then show ?thesis
      using advances_quiet [OF writable_told [OF v conns] le] unfolding call by (auto intro: exI [of _ n])
  next
    case OnSignal
    then show ?thesis
      using advances_quiet [OF signal_told(1) [OF v] le] unfolding call by (auto simp: signal_told(2) intro: exI [of _ n])
  next
    case OnTimer
    then show ?thesis using cron_advances [OF v db ok(3)] unfolding call by (auto intro: exI [of _ n])
  qed
  then show thesis using that same by blast
qed

section \<open>The whole history\<close>

text \<open>Each callback runs after the ones before it, by every clock that it reads.\<close>

fun in_order :: "i64 \<Rightarrow> main_input io_answer list \<Rightarrow> bool" where
  "in_order t [] \<longleftrightarrow> True"
| "in_order t (an # ans) \<longleftrightarrow> (\<exists>hi. clocks_within t an hi \<and> in_order hi ans)"

definition accept_calls :: "'e io_answer list \<Rightarrow> nat" where
  "accept_calls ans = sum_list (map (\<lambda>an. length (accepts an)) ans)"

definition on_record :: "(nat \<Rightarrow> bool) \<Rightarrow> i64 \<times> store \<Rightarrow> 'k main_state \<Rightarrow> bool" where
  "on_record rsv start w \<longleftrightarrow>
     (\<forall>an\<in>set (answers w). reserve_ok (input an) = rsv) \<and>
     (\<exists>n h t. told rsv n h w \<and> runs store_step start (labels h) (t, view t (database (app w))) \<and>
        in_order t (answers w) \<and> n + accept_calls (answers w) < 2 ^ 64)"

lemma call_recorded:
  assumes ok: "main_ok interest cfg w" and rec: "on_record rsv start w"
  shows "on_record rsv start (main_call ctl cb fd w)"
proof (cases "crashed w \<or> answers w = []")
  case True
  then show ?thesis using rec by (auto simp: main_call_def next_answer_def)
next
  case False
  then obtain an ans where an: "answers w = an # ans" "\<not> crashed w" by (cases "answers w") auto
  obtain n h t where r: "told rsv n h w" "runs store_step start (labels h) (t, view t (database (app w)))"
    "in_order t (answers w)" "n + accept_calls (answers w) < 2 ^ 64" using rec by (auto simp: on_record_def)
  obtain hi where hi: "clocks_within t an hi" "in_order hi ans" using r(3) an(1) by auto
  have rsv: "reserve_ok (input an) = rsv" "\<forall>an\<in>set ans. reserve_ok (input an) = rsv"
    using rec an(1) by (simp_all add: on_record_def)
  have inv: "main_inv interest cfg w" "answer_ok an" using ok an(1) by (simp_all add: main_ok_def)
  have small: "n + length (accepts an) < 2 ^ 64" using r(4) an(1) by (simp add: accept_calls_def)
  obtain m where m: "m \<le> n + length (accepts an)" "advances rsv m h t hi w (main_call ctl cb fd w)"
    by (rule call_advances [OF inv(1) r(1) an inv(2) rsv(1) hi(1) small])
  have rest: "answers (main_call ctl cb fd w) = ans" by (rule call_answers [OF inv(1) an])
  from m(2) obtain h' t' where h': "told rsv m (h @ h') (main_call ctl cb fd w)" "t' \<le> hi"
    "runs store_step (t, view t (database (app w))) (labels h') (t', view t' (database (app (main_call ctl cb fd w))))"
    by (auto simp: advances_def)
  have "in_order t' ans"
    using hi(2) h'(2) by (cases ans) (auto simp: clocks_within_def intro: order_trans)
  moreover have "m + accept_calls ans < 2 ^ 64" using m(1) r(4) an(1) by (simp add: accept_calls_def)
  moreover have "runs store_step start (labels (h @ h')) (t', view t' (database (app (main_call ctl cb fd w))))"
    using runs_append [OF r(2) h'(3)] by simp
  ultimately show ?thesis using h'(1) rest rsv(2) unfolding on_record_def by metis
qed

lemma start_recorded:
  assumes "main_start ctl wd cfg fs = Some w0" "\<forall>an\<in>set (callback_calls wd). reserve_ok (input an) = rsv"
    and "in_order t (callback_calls wd)" "accept_calls (callback_calls wd) < 2 ^ 64"
  shows "on_record rsv (t, view t (database (app w0))) (entered wd w0)"
proof -
  have fresh: "clients w0 = Map.empty" "received w0 = []" "delivered w0 = []" "next_client_id w0 = 1"
    using assms(1)
    by (auto simp: main_start_def main_setup_def install_signal_handlers_def tcp_start_def tcp_new_def
        set_request_handler_def Let_def split: option.splits prod.splits if_splits)
  have "told rsv 0 [] (entered wd w0)"
    by (rule toldI) (simp_all add: entered_def fresh matches_def got_from_def sent_to_def ids_differ_def id_of_def requests_Nil)
  then show ?thesis
    using assms(2-4) unfolding on_record_def
    by (intro conjI exI [of _ 0] exI [of _ "[]"] exI [of _ t]) (simp_all add: entered_def runs_nil)
qed

lemma fired_recorded: "on_record rsv start w \<Longrightarrow> on_record rsv start (w\<lparr>ev_loop := lp\<rparr>)"
  by (simp add: on_record_def told_def matches_def connected_ok_def got_from_def sent_to_def)

text \<open>C1. All clients share one store: over the whole life of a process, from its startup over any events,
  any input of any number of clients and any short or failed system call, there is one sequence of
  requests that the store machine answers, started on the loaded data and ending in what the database
  shows; in it the requests of each client are exactly the RESP2 values in the bytes received from it,
  in order, and what it has been sent is a prefix of their replies, in order; for a connected client
  the rest of the replies is queued. Besides replies a client is sent the protocol error, and only if
  its bytes are not RESP2.\<close>

theorem clients_share_one_store:
  assumes "epoll_kernel ctl interest" "interest (kernel wd) = Map.empty" "honest_world ctl wd cfg fs"
    and "main_start ctl wd cfg fs = Some w0" "main_loop ctl wd w0 = (w, ended)"
    and "\<forall>an\<in>set (callback_calls wd). reserve_ok (input an) = rsv"
    and "in_order t (callback_calls wd)" "accept_calls (callback_calls wd) < 2 ^ 64"
  shows "\<exists>h t'. runs store_step (t, view t (database (app w0))) (labels h) (t', view t' (database (app w))) \<and>
    (\<forall>cid. asked cid h = fst (requests rsv (got_from cid w)) \<and>
       (\<exists>queued. replied cid h = sent_to cid w @ queued) \<and>
       (Refusal cid \<in> set h \<longrightarrow> parse rsv (snd (requests rsv (got_from cid w))) = PError)) \<and>
    (\<forall>fd c. clients w fd = Some c \<longrightarrow>
       replied (client_id c) h = sent_to (client_id c) w @ pending c \<and>
       read_view c = snd (requests rsv (got_from (client_id c) w)))"
proof -
  let ?G = "\<lambda>w. main_ok interest cfg w \<and> on_record rsv (t, view t (database (app w0))) w"
  have "main_ok interest cfg (entered wd w0)"
    using main_start_inv [OF assms(1,2,4)] assms(3) by (simp add: main_ok_def honest_world_def entered_def)
  then have "?G (entered wd w0)" using start_recorded [OF assms(4,6-8)] by blast
  then have "?G w"
  proof (rule main_loop_keeps [where G = ?G, OF assms(3-5), rotated -1])
    show "?G (main_call ctl cb fd w)" if "?G w" "call_honest ctl cb fd w" for cb fd w
      using that main_ok_keeps(1) [OF assms(1)] call_recorded by blast
    show "?G (w\<lparr>ev_loop := (ev_loop w)\<lparr>last_timer_fire_ms := now\<rparr>\<rparr>)" if "?G w" for w now
      using that main_ok_keeps(2) [of interest cfg w now] fired_recorded by blast
    show "timer_callback (ev_loop w) \<in> {None, Some OnTimer}" if "?G w" for w
      using that main_ok_keeps(3) by blast
  qed
  then obtain n h t' where "told rsv n h w"
    "runs store_step (t, view t (database (app w0))) (labels h) (t', view t' (database (app w)))"
    by (auto simp: on_record_def)
  then show ?thesis using toldD(1,2) [of rsv n h w] unfolding matches_def connected_ok_def by blast
qed

lemma clients_share_one_store_witness:
  "\<exists>w h t'. main_loop map_ctl flush_world first_state = (w, True) \<and>
     runs store_step (0, view 0 (database empty_server)) (labels h) (t', view t' (database flushed_server)) \<and>
     asked 1 h = [flush_request] \<and> (\<exists>queued. replied 1 h = wire (SimpleString ''OK'') @ queued)"
proof -
  obtain w where w: "main_loop map_ctl flush_world first_state = (w, True)" "app w = flushed_server"
    "received w = [(1, wire flush_request)]" "delivered w = [(1, wire (SimpleString ''OK''))]"
    "honest_world map_ctl flush_world default_config Map.empty" by (rule sample_life)
  have calls: "callback_calls flush_world = [connecting, flushing, terminating]" by (simp add: flush_world_def)
  have clock: "clocks_within lo an 5" if "an \<in> {connecting, flushing, terminating}" "lo \<le> 5" for lo an
    unfolding clocks_within_def using that
    by (intro conjI exI [of _ "\<lambda>_. 5"]) (auto simp: connecting_def flushing_def terminating_def sample_input_def still_def)
  have order: "in_order 0 (callback_calls flush_world)"
    unfolding calls in_order.simps by (intro exI [of _ 5] conjI clock TrueI) simp_all
  have few: "accept_calls (callback_calls flush_world) < 2 ^ 64"
    by (simp add: calls accept_calls_def connecting_def flushing_def terminating_def)
  have rsv: "\<forall>an\<in>set (callback_calls flush_world). reserve_ok (input an) = (\<lambda>_. True)"
    by (simp add: calls connecting_def flushing_def terminating_def sample_input_def)
  have "kernel flush_world = Map.empty" by (simp add: flush_world_def)
  from clients_share_one_store [OF map_kernel.epoll_kernel_axioms this w(5) flush_world_starts w(1) rsv order few]
  obtain h t' where h: "runs store_step (0, view 0 (database (app first_state))) (labels h) (t', view t' (database (app w)))"
    "asked 1 h = fst (requests (\<lambda>_. True) (got_from 1 w))" "\<exists>queued. replied 1 h = sent_to 1 w @ queued" by blast
  have "requests (\<lambda>_. True) (concat (map wire [flush_request]) @ []) = ([flush_request], [])"
    by (rule requests_wire)
      (simp_all add: flush_request_def in_i64_def LLONG_MAX_def LLONG_MIN_def requests_Nil)
  then have "asked 1 h = [flush_request]" using h(2) by (simp add: got_from_def w(3))
  moreover have "sent_to 1 w = wire (SimpleString ''OK'')" by (simp add: sent_to_def w(4))
  moreover have "app first_state = empty_server"
    by (simp add: first_state_def set_request_handler_def tcp_new_def)
  ultimately show ?thesis using h(1,3) w(1,2) by metis
qed

end
