(* ===== verification/Spec2Isabelle.thy ===== *)
theory Spec2Isabelle
  imports DictLoad UnitTests History
begin

text \<open>
  A verification development for Keva, an in-memory key-value server that speaks RESP2 (C++, all paths
  below are relative to the repository).

  THE PROGRAM AND ITS PARTS

  One thread runs a reactor (\<^verbatim>\<open>src/net/event_loop.cpp\<close>) over epoll. It calls back into the TCP server
  (\<^verbatim>\<open>src/net/tcp_server.cpp\<close>), which owns one \<^verbatim>\<open>Connection\<close> per client (\<^verbatim>\<open>src/net/connection.cpp\<close>) on a
  \<^verbatim>\<open>Socket\<close> (\<^verbatim>\<open>src/net/socket.cpp\<close>). Bytes that arrive go to the request handler, the pipeline loop of
  \<^verbatim>\<open>CommandRegistry::dispatch\<close> (\<^verbatim>\<open>src/command/command.cpp\<close>): it parses RESP2 values
  (\<^verbatim>\<open>src/protocol/resp_parser.cpp\<close>), looks the command up and runs a handler of
  \<^verbatim>\<open>src/command/handlers\<close>, which works on \<^verbatim>\<open>KevaDatabase\<close> (\<^verbatim>\<open>src/core/db.cpp\<close>), two dictionaries with
  incremental rehashing (\<^verbatim>\<open>src/core/dict.cpp\<close>) of value objects (\<^verbatim>\<open>src/core/object.cpp\<close>), and appends its
  reply with \<^verbatim>\<open>RespEncoder\<close>. A timer runs \<^verbatim>\<open>server_cron\<close> (\<^verbatim>\<open>src/core/server_context.cpp\<close>). Snapshots are
  written and read by \<^verbatim>\<open>src/persistence\<close>. \<^verbatim>\<open>src/main.cpp\<close> wires all this together.

  THEORIES, FROM THE BOTTOM

  \<^item> Prelude, CharConv, Status, Logger: \<^verbatim>\<open>common/types.hpp\<close>, the conversions of the standard library that
    the source uses, \<^verbatim>\<open>common/status.hpp\<close> with the early return as \<open>and_then\<close>, \<^verbatim>\<open>common/logger.cpp\<close>.
  \<^item> Buffer, SipHash: \<^verbatim>\<open>core/buffer.cpp\<close> on cells that may be indeterminate, and the hash function of
    \<^verbatim>\<open>core/dict.cpp\<close> on 64-bit words, bit for bit.
  \<^item> Dict (the code of \<^verbatim>\<open>core/dict.cpp\<close>), DictInv, DictMap, DictOps, DictIter, DictSize (the invariant of
    the two tables, the map they implement, each operation against it, load factors in binary32),
    DictIndex (the interface \<open>kv_index\<close> and its interpretation), Samples, DictProps (call sequences),
    DictLoad (the ratio of entries to buckets over sequences of insertions, rehash included).
  \<^item> Object, Database, Expiry: \<^verbatim>\<open>core/object.cpp\<close>, \<^verbatim>\<open>core/db.cpp\<close>, lazy and active expiry. The abstract
    database is \<open>vals\<close> (key to bytes) with \<open>ttls\<close> (key to deadline); \<open>live db t\<close> is what a client can see
    at time \<open>t\<close>. Every operation is characterised on these maps (collection \<open>db_facts\<close>).
  \<^item> RespParser, RespEncoder, RespStream: \<^verbatim>\<open>protocol/\<close>. \<open>wire\<close> is the serialization both sides are
    compared with; the locales \<open>stream_parser\<close> and \<open>stream_codec\<close> draw the consequences for streams.
  \<^item> Connection: \<^verbatim>\<open>net/connection.cpp\<close>; \<open>read_view\<close> and \<open>pending\<close> are the unread and the unsent bytes.
  \<^item> Server, StringCmd, StringProofs, KeyCmd, ServerCmd, CmdProps: \<^verbatim>\<open>core/server_context.cpp\<close> and the 34
    command handlers, what each does to \<open>vals\<close>, \<open>ttls\<close> and the reply, and the properties clients use.
    SetWords describes the option words of SET independently of the handler's loop, which it proves
    equal to that description; the properties and the store machine use the description.
  \<^item> Dispatch, DispatchProps: the contract \<open>command_table\<close> of registered handlers, the pipeline loop.
  \<^item> StoreSpec, Refinement: the store machine, an interpreter of all commands on a map from keys to bytes and
    deadlines, and the proof that the registered handlers, the dispatch of a pipeline and the periodic
    task are steps of it (\<open>view\<close> is the abstraction, the locale \<open>forward_simulation\<close> the argument). Where
    expired keys that nobody has removed yet can be seen (TTL, PTTL, DEL, DBSIZE), it allows both answers.
  \<^item> Crc64, RdbWriter, RdbReader, RdbCodec, Rdb, RdbProps, RdbLoad, RdbTorn: \<^verbatim>\<open>persistence/\<close>; \<open>rdb_codec\<close>
    is a pair of a writing and a reading operation that agree, \<open>rdb_image\<close> the bytes of a snapshot.
  \<^item> EventLoop, Socket, TcpServer, TcpInv: \<^verbatim>\<open>net/\<close>. \<open>epoll_kernel\<close> is the documented behaviour of epoll,
    \<open>request_contract\<close> what the server relies on in its handler, \<open>tcp_contract\<close> both together.
  \<^item> EntryPoint, EntryInv, EntryProps, Process: \<^verbatim>\<open>main.cpp\<close>, the states the loop can reach and their
    invariant, what a client experiences, the life of a process from its command line to its exit.
  \<^item> Requests, History: the RESP2 values in an arbitrary stream of bytes, the pipeline loop on it, and the
    history of a whole process: \<open>told\<close> relates a list of \<open>happening\<close>s to the state of the server (what was
    received from and sent to each client, what is still in its buffers), every callback extends it by
    steps of the store machine. What is assumed of the world is that descriptors are new, that clocks do
    not run backwards (\<open>in_order\<close>; within one command all readings agree) and that there are fewer than
    2 to the 64 calls of \<^verbatim>\<open>accept4\<close>, so that no client id is used twice.
  \<^item> UnitTests: the test cases of \<^verbatim>\<open>tests/unit\<close> on the model, all proved to hold.
  \<^item> This theory: what a client sees in one event, from the wire to the wire, what one process leaves for the next.

  HOW THE MODEL CORRESPONDS TO THE CODE

  A class is a record with its members, an operation a function that returns the new state. Unsigned
  integers that can overflow are words; unsigned counters that only count are naturals. Signed
  arithmetic that can overflow is written with \<open>wrap_i64\<close>: its overflow is undefined in C++ (the
  difference of \<^verbatim>\<open>DECRBY\<close>, the deadline arithmetic \<open>seconds * 1000\<close> and \<open>now + ttl\<close> of SET, SETEX, EXPIRE and
  EXPIREAT), and the wrapped value only stands for an unknown one there. The properties about these
  commands state values only inside the 64-bit range; only the store machine, which has to say
  something for every request, follows the wrapped value outside it. Everything the world decides is an argument, in the order in which the code asks for it:
  clock readings, random draws, the results of \<^verbatim>\<open>read\<close>, \<^verbatim>\<open>write\<close>, \<^verbatim>\<open>accept4\<close>, \<^verbatim>\<open>epoll_wait\<close>, \<^verbatim>\<open>open\<close>,
  \<^verbatim>\<open>rename\<close>, \<^verbatim>\<open>fork\<close>, \<^verbatim>\<open>waitpid\<close> (scripts: short counts, interruptions and errors included), and whether the
  parser's allocation succeeds. The file system is a map from paths to contents, kept in the field \<open>disk\<close>
  of the server: \<^verbatim>\<open>SAVE\<close> and the shutdown write to it, other processes change it between callbacks
  (\<open>disk_change\<close>, \<open>last_change\<close>). Fields that only observe the run (\<open>freed\<close>, \<open>blocks\<close>, \<open>received\<close>, \<open>delivered\<close>) are
  named as such. Undefined behaviour is a value (\<open>None\<close>, \<open>Undefined\<close>) where the code can reach it, and
  an exception that nobody catches ends the process (\<open>DispatchAborted\<close>, \<open>crashed\<close>).

  FUEL AND TERMINATION

  The parser recurses on fuel, one unit per nesting level, and the pipeline loop on one unit per turn;
  one more than the number of unread bytes is always enough (\<open>parse_total\<close>, \<open>dispatch_loop_ends\<close>). The
  loading loop terminates on the length of the rest of the file, the expiry cycle has the code's own
  bound, every other loop recurses on its data or on a script.

  WHAT THE PROPERTIES SHOW

  The dictionary is a finite map that frees every value once; its rehashing ends, and insertions keep
  the entries within the buckets at every moment, also while a rehash is under way. Parser and encoder agree and are independent of how a stream is cut; no input makes the
  server lose its invariants. The whole command set implements a store in which a key is simply gone at
  its deadline; expiry removes only what is dead, which clients can tell from DBSIZE, TTL and DEL. A snapshot is replaced atomically, restores the
  database, and is never half loaded. All clients of a process share one store: their requests, cut and interleaved in any way, are answered
  as one sequence of the store machine, each client's in its order. No client is forgotten, waiting
  replies are delivered, and a clean restart keeps the data.

  Where the code falls short of what it means to do, or of what its documentation says, the property
  states what the code does and says so: writes during a background save are lost; the LRU clock is
  stuck; \<^verbatim>\<open>DECRBY\<close> has no overflow check (it is proved exact where its difference is defined); protocol
  errors and huge array headers; TTL and PTTL answer 0, not -2, for an expired key that nothing has
  removed yet (README.md:572, documentation.md:1243); the loader restores keys whose deadline has passed,
  which documentation.md:1059 says it discards (such keys come back with their deadline, and no lookup
  sees them); a growing table takes the power of two from twice the number of its entries on, up to
  four times its size, where dict.hpp:23 and documentation.md:896 say twice its size.

  NOT MODELLED

  Log calls inside the other components (their text has no effect on the state); the mutex of the
  logger and the formatting done by \<^verbatim>\<open>printf\<close> and \<^verbatim>\<open>strftime\<close>; the singletons' accessors; the installation of
  the signal handlers and the reading of the hash key, which the code discards; when, relative to the
  callbacks, the child of \<^verbatim>\<open>BGSAVE\<close> writes (its writes enter, like those of any other process, as the
  changes the world makes to \<open>disk\<close>; \<open>bgsave_child\<close> is what it does); the collision of two saves that
  run at the same time and share the temporary file; failures of memory allocation other than the
  parser's; the depth of the machine stack (\<open>parse_value\<close> recurses once per nesting level of an array,
  and the code sets no limit: a few bytes per level make it overflow); the narrowing of the argument
  count from \<^verbatim>\<open>size_t\<close> to \<^verbatim>\<open>int\<close> in \<^verbatim>\<open>command.cpp:132\<close> (the count is unbounded in \<open>execute\<close>; the two agree
  below 2 to the 31 arguments); what the commands of one pipeline did before an exception ends the
  process (the step that throws returns the state before the dispatch: the memory is gone, but a
  snapshot that a SAVE in the same pipeline has written is on the disk of the real process); refusals
  of \<^verbatim>\<open>epoll_ctl\<close> for lack of memory.
\<close>

section \<open>From the wire to the wire\<close>

text \<open>C4. A client sees the store: when bytes arrive on a connection, whatever they are, one readable
  event hands the kernel, after the replies that were still waiting, exactly the bytes that the store
  machine answers to the RESP2 values that these bytes complete, started on what the database showed,
  in order and each at its own time, and then the protocol error if what follows is not RESP2; what the
  kernel does not take stays queued for the same client, the rest of the input stays in its buffer, and
  the database shows what the store machine holds then. The one exception is the abort on an array
  header that announces more than can be allocated.\<close>

theorem client_sees_store:
  assumes "db_inv (database (app w))" "request_handler w = Some main_handler"
    and "clients w fd = Some c" "conn_inv c" "input_good (input an)"
    and "reads_fit (reads an)" "script_end (reads an) = ReadAgain" "script_data (reads an) \<noteq> []"
    and "\<forall>n. still (envs (input an) n) (clk n)" "\<forall>i j. i \<le> j \<longrightarrow> clk i \<le> clk j"
    and "requests (reserve_ok (input an)) (read_view c @ script_data (reads an)) = (vs, rest)"
    and "parse (reserve_ok (input an)) rest \<noteq> PAbort"
    and "w' = on_client_readable ctl an fd w"
  shows "\<exists>outs t' taken queued.
    runs store_step (clk 0, view (clk 0) (database (app w))) (map Some (zip vs outs)) (t', view t' (database (app w'))) \<and>
    length outs = length vs \<and>
    pending c @ concat outs @ refused (reserve_ok (input an)) rest = taken @ queued \<and>
    (delivered w' = delivered w @ [(client_id c, taken)] \<or> delivered w' = delivered w \<and> taken = []) \<and>
    (\<forall>c'. clients w' fd = Some c' \<longrightarrow> pending c' = queued \<and> read_view c' = rest)"
proof -
  obtain c1 n more where fill: "fill_read_buffer (reads an) c = (c1, n, more)" by (metis surj_pair)
  note fr = fill_read_buffer_facts [OF assms(4,6) fill]
  have n: "0 < n" using fr(5) assms(7,8) by simp
  obtain s c2 where a: "main_handler (input an) (app w, c1) = Some (s, c2)"
    using handler_aborts [OF fr(1) assms(1,5)] assms(11,12)
    by (cases "main_handler (input an) (app w, c1)") (auto simp: fr(2))
  obtain vs' rest' outs t' out queued where r:
    "requests (reserve_ok (input an)) (read_view c @ script_data (reads an)) = (vs', rest')" "length outs = length vs'"
    "clk 0 \<le> t'" "\<forall>hi. (\<forall>k. clk k \<le> hi) \<longrightarrow> t' \<le> hi"
    "runs store_step (clk 0, view (clk 0) (database (app w))) (map Some (zip vs' outs)) (t', view t' (database (app w')))"
    "pending c @ concat outs @ refused (reserve_ok (input an)) rest' = out @ queued"
    "delivered w' = delivered w @ [(client_id c, out)] \<or> delivered w' = delivered w \<and> out = []"
    "\<forall>c'. clients w' fd = Some c' \<longrightarrow> client_id c' = client_id c \<and> read_view c' = rest' \<and> pending c' = queued"
    "received w' = received w @ [(client_id c, script_data (reads an))]"
    "\<forall>k. k \<noteq> fd \<longrightarrow> clients w' k = clients w k" "next_client_id w' = next_client_id w"
    by (rule readable_runs [OF assms(3,4,1,2,6,5) refl assms(9,10) order_refl fill n a assms(13)])
  have "vs' = vs" "rest' = rest" using r(1) assms(11) by simp_all
  then show ?thesis using r(2,5-8) by blast
qed

lemma client_sees_store_witness:
  "\<exists>taken queued. wire okay @ wire (BulkString ''x'') = taken @ queued \<and>
     delivered (on_client_readable map_ctl (sample_answer [ReadData (concat (map wire set_then_get))]) 5 sample_state) \<in>
       {[(1, taken)], []}"
proof -
  let ?bytes = "concat (map wire set_then_get)"
  let ?an = "sample_answer [ReadData ?bytes]"
  have ok: "\<forall>v\<in>set set_then_get. wire_ok v \<and> sizes_allowed (reserve_ok (input ?an)) v"
    by (simp add: set_then_get_def request_def argv_def in_i64_def LLONG_MAX_def LLONG_MIN_def sample_answer_def sample_input_def)
  have short: "length (to_chars (wrap_i64 k)) \<le> 20" for k using length_to_chars [of "wrap_i64 k"] by simp
  have len: "0 < length ?bytes" "length ?bytes \<le> READ_BUFFER_SIZE"
    using short [of 3] short [of 2] short [of 1]
    by (simp_all add: set_then_get_def request_def argv_def READ_BUFFER_SIZE_def)
  have an: "input_good (input ?an)" "reads_fit (reads ?an)" "script_end (reads ?an) = ReadAgain" "script_data (reads ?an) = ?bytes"
    using len by (simp_all add: sample_answer_def sample_input_def input_good_def reads_fit_def)
  have clock: "\<forall>n. still (envs (input ?an) n) 5" by (simp add: still_def sample_answer_def sample_input_def)
  have req: "requests (reserve_ok (input ?an)) (?bytes @ []) = (set_then_get, [])"
    by (rule requests_wire [OF ok]) (simp add: requests_Nil)
  have more: "parse (reserve_ok (input ?an)) [] \<noteq> PAbort" by (simp add: requests_Nil)
  have start: "db_inv (database (app sample_state))" "conn_inv (conn_new 1)" "script_data (reads ?an) \<noteq> []"
    "read_view (conn_new 1) @ script_data (reads ?an) = ?bytes @ []"
    using an(4) len(1) by (simp_all add: sample_state_facts del: read_view_drop)
  let ?w = "on_client_readable map_ctl ?an 5 sample_state"
  obtain outs t' taken queued where
    run: "length outs = length set_then_get"
      "runs store_step (5, view 5 (database (app sample_state))) (map Some (zip set_then_get outs)) (t', view t' (database (app ?w)))"
    and out: "pending (conn_new 1) @ concat outs @ refused (reserve_ok (input ?an)) [] = taken @ queued"
      "delivered ?w = delivered sample_state @ [(client_id (conn_new 1), taken)] \<or> delivered ?w = delivered sample_state \<and> taken = []"
    using client_sees_store [OF start(1) sample_state_facts(1,2) start(2) an(1,2,3) start(3) clock _
        req [folded start(4)] more refl, of map_ctl] by blast
  have "taken @ queued = wire okay @ wire (BulkString ''x'')"
    using store_answers_set_then_get [OF run] out(1)
    by (simp only: sample_state_facts append_Nil append_Nil2 refused_def requests_Nil parse_result.distinct if_False)
  moreover have "delivered ?w \<in> {[(1, taken)], []}" using out(2) by (auto simp: sample_state_facts)
  ultimately show ?thesis by metis
qed

section \<open>Across restarts\<close>

text \<open>C5. A clean restart keeps the data: whatever a process was started on and whatever its clients, the
  kernel and its timers did to it, if it leaves its loop with unsaved changes and no system call of
  the final save fails, it exits with code 0, and a new process that is started on the same snapshot
  file has a sound database with exactly the keys that were alive at the moment of the save and their
  values; keys without a deadline have none, and a deadline is never earlier and later by at most the
  duration of the save. Keys whose deadline passes while no process runs are among them: the loader
  keeps them with their deadline, contrary to documentation.md:1059 (see the findings), and lookups
  treat them as gone.\<close>

theorem restart_keeps_data:
  assumes "epoll_kernel ctl interest" "interest (kernel wd) = Map.empty" "honest_world ctl wd cfg fs"
    and "parse_args args = Config cfg" "main_start ctl wd cfg fs = Some w0" "main_loop ctl wd w0 = (w, True)"
    and "\<not> crashed w" "cfg_rdb_enabled cfg" "0 < dirty_keys (app w)"
    and "open_failure (final_save wd) = None" "rename_failure (final_save wd) = None" "steady (io_script (final_save wd))"
    and "clock_ok (final_save wd) hi" "start = each_ms (final_save wd)"
    and "\<forall>k d. ttls (database (app w)) k = Some d \<longrightarrow> d + (hi - start) < 2 ^ 63"
    and "\<forall>k v. live (database (app w)) start k = Some v \<longrightarrow> length k < 2 ^ 32 \<and> length v < 2 ^ 32"
    and "load_open_failure l = None" "steady (load_script l)"
  shows "\<exists>fs' db. main_process ctl wd args fs = Exited 0 fs' \<and> database (main_boot cfg now l fs') = db \<and>
    db_inv db \<and> vals db = live (database (app w)) start \<and>
    (\<forall>k\<in>dom (vals db).
       case ttls (database (app w)) k of None \<Rightarrow> ttls db k = None
       | Some d \<Rightarrow> \<exists>d'. ttls db k = Some d' \<and> d \<le> d' \<and> d' \<le> d + (hi - start))"
proof -
  have s: "db_inv (database (app w))" "config (app w) = cfg"
    using main_loop_serves [OF assms(1-3,5,6)] by (simp_all add: serves_def)
  let ?w = "others_write (last_change wd) w"
  obtain fs' where down: "disk (app (main_shutdown ctl (table_order wd) (final_save wd) ?w)) = fs'" by fastforce
  have w: "database (app ?w) = database (app w)" "config (app ?w) = config (app w)" "dirty_keys (app ?w) = dirty_keys (app w)"
    by (simp_all add: others_write_def)
  have "main_process ctl wd args fs = Exited 0 fs'" using assms(4-7) down by (simp add: main_process_def)
  moreover have "cfg_rdb_enabled (config (app w))" "cfg_rdb_filename cfg = cfg_rdb_filename (config (app w))"
    using s(2) assms(8) by simp_all
  note shutdown_then_boot [where w = ?w, unfolded w, OF s(1) down this(1) assms(9-13) assms(15,16) [unfolded assms(14)]
      assms(17,18) this(2), of now]
  ultimately show ?thesis unfolding assms(14) by blast
qed

lemma restart_keeps_data_witness:
  "\<exists>fs'. main_process map_ctl flush_world [] Map.empty = Exited 0 fs' \<and>
     vals (database (main_boot default_config 9 sample_load fs')) = Map.empty"
proof -
  obtain w where w: "main_loop map_ctl flush_world first_state = (w, True)" "app w = flushed_server" "\<not> crashed w"
    "honest_world map_ctl flush_world default_config Map.empty"
    by (rule sample_life)
  have db: "ttls (database flushed_server) = Map.empty" "live (database flushed_server) t = Map.empty" for t
    using db_flush_facts [OF sample_facts(4)] by (simp_all add: flushed_server_def live_def fun_eq_iff)
  have wd: "kernel flush_world = Map.empty" "final_save flush_world = sample_save" by (simp_all add: flush_world_def)
  have cfg: "parse_args [] = Config default_config" "cfg_rdb_enabled default_config"
    by (simp_all add: parse_args_def default_config_def)
  have l: "load_open_failure sample_load = None" "steady (load_script sample_load)" by (simp_all add: sample_load_def)
  have dirty: "0 < dirty_keys (app w)" by (simp add: w(2) flushed_server_def)
  have late: "\<forall>k d. ttls (database (app w)) k = Some d \<longrightarrow> d + (3 - each_ms (final_save flush_world)) < 2 ^ 63"
    and small: "\<forall>k v. live (database (app w)) (each_ms (final_save flush_world)) k = Some v \<longrightarrow>
      length k < 2 ^ 32 \<and> length v < 2 ^ 32"
    by (simp_all add: w(2) db)
  show ?thesis
    using restart_keeps_data [OF map_kernel.epoll_kernel_axioms _ w(4) cfg(1) flush_world_starts w(1,3) cfg(2) dirty
        _ _ _ _ refl late small l, of 9]
    by (auto simp: wd sample_save_ok w(2) db)
qed

section \<open>An explicit save\<close>

text \<open>C18. SAVE is durable when it says so. It replies OK whenever no system call of the save fails. When
  it replies OK, nothing counts as unsaved any more, and a process that boots from the disk as it is
  now has exactly the keys that were alive when the command ran, with their values, no deadline where
  there was none and otherwise one that is never earlier and later by at most the duration of the
  save; keys that expire before the boot are restored with their deadline (documentation.md:1059 says
  that loading discards them, see the findings). Otherwise the reply is one error, and the snapshot file, the time of the last save and
  the count of unsaved changes are as before. In both cases the live data set is untouched.\<close>

theorem save_is_durable:
  assumes "db_inv (database s)" "handle_save e args (s, c) = (s', c')"
    and "clock_ok (save_calls e) hi" "start = each_ms (save_calls e)"
    and "\<forall>k d. ttls (database s) k = Some d \<longrightarrow> d + (hi - start) < 2 ^ 63"
    and "\<forall>k v. live (database s) start k = Some v \<longrightarrow> length k < 2 ^ 32 \<and> length v < 2 ^ 32"
    and "load_open_failure l = None" "steady (load_script l)"
    and "cfg_rdb_filename cfg = cfg_rdb_filename (config s)"
  shows "db_inv (database s') \<and> vals (database s') = vals (database s) \<and> ttls (database s') = ttls (database s) \<and>
    (c' = resp_ok c \<and> dirty_keys s' = 0 \<and> last_save_time s' = now_s e 0 \<and>
       (\<exists>db. database (main_boot cfg now l (disk s')) = db \<and> db_inv db \<and> vals db = live (database s) start \<and>
          (\<forall>k\<in>dom (vals db).
             case ttls (database s) k of None \<Rightarrow> ttls db k = None
             | Some d \<Rightarrow> \<exists>d'. ttls db k = Some d' \<and> d \<le> d' \<and> d' \<le> d + (hi - start)))
     \<or> (\<exists>m. c' = resp_error c m) \<and> dirty_keys s' = dirty_keys s \<and> last_save_time s' = last_save_time s \<and>
       disk s' (cfg_rdb_filename cfg) = disk s (cfg_rdb_filename cfg)) \<and>
    (open_failure (save_calls e) = None \<and> rename_failure (save_calls e) = None \<and> steady (io_script (save_calls e))
       \<longrightarrow> c' = resp_ok c)"
proof -
  obtain db fs st where save: "rdb_save_sync (save_calls e) (cfg_rdb_filename cfg) (database s) (disk s) = (db, fs, st)"
    by (metis surj_pair)
  note eq = assms(2) [unfolded handle_save_def prod.case assms(9) [symmetric] save Let_def]
  note facts = rdb_save_sync_facts [OF assms(1) save]
  have same: "db_inv (database s')" "vals (database s') = vals (database s)" "ttls (database s') = ttls (database s)"
    and disk: "disk s' = fs"
    using eq facts(1) by (auto simp: same_db_def split: if_splits)
  show ?thesis
  proof (cases "st_ok st")
    case True
    from snapshot_restores [OF assms(1,3) assms(5,6) [unfolded assms(4)] save True assms(7,8), of 0]
    obtain db' where db': "rdb_load l (cfg_rdb_filename cfg) fs (db_new 0) = (db', success)" "db_inv db'"
      "vals db' = live (database s) start"
      "\<forall>k\<in>dom (vals db'). case ttls (database s) k of None \<Rightarrow> ttls db' k = None
         | Some d \<Rightarrow> \<exists>d'. ttls db' k = Some d' \<and> d \<le> d' \<and> d' \<le> d + (hi - start)"
      unfolding assms(4) by auto
    have "database (main_boot cfg now l (disk s')) = db'"
      using db'(1) by (simp add: main_boot_def Let_def server_init_def load_at_startup_def disk)
    moreover have "c' = resp_ok c" "dirty_keys s' = 0" "last_save_time s' = now_s e 0" using eq True by auto
    ultimately show ?thesis using same db'(2-4) by blast
  next
    case False
    then have "c' = resp_error c (st_message st)" "dirty_keys s' = dirty_keys s" "last_save_time s' = last_save_time s"
      using eq by auto
    moreover have "cfg_rdb_filename cfg \<noteq> tmp_path (cfg_rdb_filename cfg)" by (simp add: tmp_path_def)
    then have "disk s' (cfg_rdb_filename cfg) = disk s (cfg_rdb_filename cfg)" using facts(3) [OF False] disk by simp
    ultimately show ?thesis using same facts(4) False by blast
  qed
qed

lemma save_is_durable_witness:
  "\<exists>s' c'. handle_save ((at_time 5)\<lparr>save_calls := sample_save\<rparr>) []
       (empty_server\<lparr>database := sample_db, dirty_keys := 4\<rparr>, client_one) = (s', c') \<and>
     c' = resp_ok client_one \<and> dirty_keys s' = 0 \<and>
     vals (database (main_boot default_config 9 sample_load (disk s'))) = vals sample_db"
proof -
  let ?s = "empty_server\<lparr>database := sample_db, dirty_keys := 4\<rparr>" and ?e = "(at_time 5)\<lparr>save_calls := sample_save\<rparr>"
  obtain s' c' where h: "handle_save ?e [] (?s, client_one) = (s', c')" by fastforce
  have db: "db_inv (database ?s)" and calls: "clock_ok (save_calls ?e) 3" and start: "1 = each_ms (save_calls ?e)"
    and late: "\<forall>k d. ttls (database ?s) k = Some d \<longrightarrow> d + (3 - 1) < 2 ^ 63"
    and small: "\<forall>k v. live (database ?s) 1 k = Some v \<longrightarrow> length k < 2 ^ 32 \<and> length v < 2 ^ 32"
    and path: "cfg_rdb_filename default_config = cfg_rdb_filename (config ?s)"
    using sample_small by (simp_all add: sample_db_facts sample_save_ok server_init_def)
  have l: "load_open_failure sample_load = None" "steady (load_script sample_load)" by (simp_all add: sample_load_def)
  have "resp_ok client_one \<noteq> resp_error client_one m" for m
    by (simp add: resp_ok_def resp_error_def append_response_def client_one_def conn_new_def)
  then show ?thesis
    using save_is_durable [OF db h calls start late small l path, of 9] h
    by (auto simp: sample_save_ok sample_live)
qed

section \<open>A background save and the writes it does not see\<close>

text \<open>C19. Writes made while a background save runs are lost by a clean shutdown: when the child that
  was forked on the database \<open>db\<close> has left its snapshot on the disk and ends successfully, its
  \<^verbatim>\<open>SIGCHLD\<close> marks everything as saved, so whatever the database \<^verbatim>\<open>app w\<close> holds by then, the shutdown
  that follows writes nothing and the next process starts with the values that were alive at the
  fork (also those that have expired by then: the loader keeps them, contrary to documentation.md:1059,
  see the findings).\<close>

theorem writes_during_bgsave_are_lost:
  assumes "db_inv db" "clock_ok e hi" "\<forall>k d. ttls db k = Some d \<longrightarrow> d + (hi - each_ms e) < 2 ^ 63"
    and "\<forall>k v. live db (each_ms e) k = Some v \<longrightarrow> length k < 2 ^ 32 \<and> length v < 2 ^ 32"
    and "bgsave_child e (cfg_rdb_filename (config (app w))) db fs = (disk (app w), 0)"
    and "bgsave_child_pid (app w) \<noteq> - 1" "pipe_byte inp = Some (signal_handler SIGCHLD)"
    and "0 < reaped_pid inp" "child_exited inp" "child_code inp = 0"
    and "w' = main_shutdown ctl order e' (on_signal_pipe_readable inp w)"
    and "load_open_failure l = None" "steady (load_script l)"
    and "cfg_rdb_filename cfg = cfg_rdb_filename (config (app w))"
  shows "disk (app w') = disk (app w) \<and> database (app w') = database (app w) \<and>
    vals (database (main_boot cfg now l (disk (app w')))) = live db (each_ms e)"
proof -
  have sig: "signum_of (signal_handler SIGCHLD) = SIGCHLD" by (simp add: signum_of_handler SIGCHLD_def)
  have app: "app (on_signal_pipe_readable inp w) =
    (app w)\<lparr>bgsave_child_pid := - 1, last_save_time := unix_time inp, dirty_keys := 0\<rparr>"
    using assms(6-10) sig
    by (simp add: on_signal_pipe_readable_def on_bgsave_child_exit_def Let_def SIGCHLD_def SIGTERM_def SIGINT_def)
  have down: "app w' = app (on_signal_pipe_readable inp w)"
    using assms(11) by (simp add: main_shutdown_def tcp_stop_def Let_def app)
  obtain db1 s where save: "rdb_save_sync e (cfg_rdb_filename cfg) db fs = (db1, disk (app w), s)" "st_ok s"
    using assms(5,14) by (auto simp: bgsave_child_def split: prod.splits if_splits)
  from snapshot_restores [OF assms(1-4) save assms(12,13), of 0]
  obtain db' where db': "rdb_load l (cfg_rdb_filename cfg) (disk (app w)) (db_new 0) = (db', success)"
    "vals db' = live db (each_ms e)" by auto
  have "disk (app w') = disk (app w)" using down app by simp
  moreover have "database (main_boot cfg now l (disk (app w))) = db'"
    using db'(1) by (simp add: main_boot_def Let_def server_init_def load_at_startup_def)
  ultimately show ?thesis using down app db'(2) by simp
qed

lemma writes_during_bgsave_are_lost_witness:
  "\<exists>fs db w'. vals db ''z'' \<noteq> None \<and>
     w' = main_shutdown map_ctl [] sample_save
       (on_signal_pipe_readable (sample_input\<lparr>pipe_byte := Some (signal_handler SIGCHLD), reaped_pid := 77\<rparr>)
         (sample_state\<lparr>app := empty_server\<lparr>database := db, dirty_keys := 1, bgsave_child_pid := 77, disk := fs\<rparr>\<rparr>)) \<and>
     vals (database (app w')) ''z'' \<noteq> None \<and>
     vals (database (main_boot default_config 9 sample_load (disk (app w')))) ''z'' = None"
proof -
  define db where "db = db_set sample_db ''z'' (create_string ''1'' 0)"
  obtain db1 fs1 s where save: "rdb_save_sync sample_save ''dump.rdb'' sample_db Map.empty = (db1, fs1, s)"
    by (metis surj_pair)
  have "st_ok s"
    using rdb_save_sync_facts(4) [OF sample_db_facts(1) save sample_save_ok(4,5,3)] .
  then have child: "bgsave_child sample_save ''dump.rdb'' sample_db Map.empty = (fs1, 0)"
    by (simp add: bgsave_child_def save)
  define w where
    "w = sample_state\<lparr>app := empty_server\<lparr>database := db, dirty_keys := 1, bgsave_child_pid := 77, disk := fs1\<rparr>\<rparr>"
  define inp where "inp = sample_input\<lparr>pipe_byte := Some (signal_handler SIGCHLD), reaped_pid := 77\<rparr>"
  define w' where "w' = main_shutdown map_ctl [] sample_save (on_signal_pipe_readable inp w)"
  have w: "config (app w) = default_config" "bgsave_child_pid (app w) = 77" "disk (app w) = fs1" "database (app w) = db"
    by (simp_all add: w_def server_init_def)
  have inp: "pipe_byte inp = Some (signal_handler SIGCHLD)" "reaped_pid inp = 77" "child_exited inp" "child_code inp = 0"
    by (simp_all add: inp_def sample_input_def)
  have path: "cfg_rdb_filename default_config = ''dump.rdb''" by (simp add: default_config_def)
  have late: "\<forall>k d. ttls sample_db k = Some d \<longrightarrow> d + (3 - each_ms sample_save) < 2 ^ 63"
    by (simp add: sample_db_facts sample_save_ok(2))
  have l: "load_open_failure sample_load = None" "steady (load_script sample_load)"
    by (simp_all add: sample_load_def)
  have lost: "database (app w') = db"
    "vals (database (main_boot default_config 9 sample_load (disk (app w')))) = live sample_db (each_ms sample_save)"
    using writes_during_bgsave_are_lost [OF sample_db_facts(1) sample_save_ok(1) late sample_small _ _ inp(1) _ inp(3,4)
        w'_def l, of Map.empty default_config 9] child
    by (auto simp: w inp(2) path)
  have "vals (database (main_boot default_config 9 sample_load (disk (app w')))) ''z'' = None"
    by (simp add: lost(2) sample_save_ok(2) sample_live sample_db_facts)
  moreover have "vals db ''z'' \<noteq> None" by (simp add: db_def db_set_facts [OF sample_db_facts(1) object_wf_create_string])
  ultimately show ?thesis using lost(1) w'_def unfolding w_def inp_def
    by (intro exI [of _ fs1] exI [of _ db] exI [of _ w']) simp
qed

end
